(* ===== verification/Prelude.thy ===== *)
theory Prelude
  imports Main "HOL-Library.Word"
begin

text \<open>
  Shared ground of the development: machine integers of the 64-bit target, raw memory as
  byte lists with bounds-checked reads and writes (a read or write outside the object is
  undefined behaviour, never a default value), the alignment arithmetic of the slot
  allocator, the outcomes a Rust call can have, and the interface \<open>layout\<close>
  through which typed values are moved in and out of raw bytes
  (\<open>ptr::write_unaligned\<close> and \<open>ptr::read_unaligned\<close>).
\<close>

unbundle bit_operations_syntax

named_theorems mem_simps \<open>reading and writing raw memory\<close>
named_theorems layout_simps \<open>sizes and decodings of typed values\<close>

type_synonym u8 = "8 word"
type_synonym u32 = "32 word"
type_synonym u64 = "64 word"
type_synonym usize = "64 word"

section \<open>Outcomes of a call\<close>

text \<open>
  A Rust call returns, panics (with the reason the source gives), or has undefined
  behaviour: an access outside its object, a byte pattern that is no value of the type
  read, or a call through a vtable of another type.
\<close>

datatype panic =
    SlotOverflow
  | LatchAlreadyLocked
  | BlockingDelegation
  | RequiresOwnedRuntime
  | BincodeSerialize
  | BincodeDeserialize
  | ClosurePanicked

datatype ub = OutOfBounds | InvalidValue | WrongVTable | Misaligned

datatype 'a outcome = Ok 'a | Panic panic | UB ub

fun obind :: "'a outcome \<Rightarrow> ('a \<Rightarrow> 'b outcome) \<Rightarrow> 'b outcome" where
  "obind (Ok x) f = f x"
| "obind (Panic p) f = Panic p"
| "obind (UB u) f = UB u"

fun of_option :: "ub \<Rightarrow> 'a option \<Rightarrow> 'a outcome" where
  "of_option u None = UB u"
| "of_option u (Some x) = Ok x"

lemma obind_Ok_iff: "obind m f = Ok y \<longleftrightarrow> (\<exists>x. m = Ok x \<and> f x = Ok y)"
  by (cases m) auto

lemma obind_assoc: "obind (obind m f) g = obind m (\<lambda>x. obind (f x) g)"
  by (cases m) auto

section \<open>Little-endian integers\<close>

fun le_bytes :: "nat \<Rightarrow> 'a::len word \<Rightarrow> u8 list" where
  "le_bytes 0 w = []"
| "le_bytes (Suc n) w = ucast w # le_bytes n (drop_bit 8 w)"

fun of_le :: "u8 list \<Rightarrow> 'a::len word" where
  "of_le [] = 0"
| "of_le (b # bs) = ucast b OR push_bit 8 (of_le bs)"

lemma length_le_bytes [simp, layout_simps]: "length (le_bytes n w) = n"
  by (induction n arbitrary: w) auto

lemma of_le_le_bytes_take: "of_le (le_bytes n w) = take_bit (8 * n) (w :: 'a::len word)"
proof (induction n arbitrary: w)
  case 0
  then show ?case by simp
next
  case (Suc n)
  have "ucast (ucast w :: u8) = take_bit 8 w"
    by (rule bit_word_eqI) (auto simp: bit_ucast_iff bit_take_bit_iff)
  moreover have "take_bit 8 w OR push_bit 8 (take_bit (8 * n) (drop_bit 8 w)) = take_bit (8 * Suc n) w"
    by (rule bit_word_eqI) (auto simp: bit_or_iff bit_push_bit_iff bit_take_bit_iff bit_drop_bit_eq)
  ultimately show ?case by (simp add: Suc)
qed

lemma of_le_le_bytes [simp, layout_simps]:
  "LENGTH('a) \<le> 8 * n \<Longrightarrow> of_le (le_bytes n w) = (w :: 'a::len word)"
  by (simp add: of_le_le_bytes_take take_bit_word_eq_self)

section \<open>Raw memory\<close>

definition read_at :: "nat \<Rightarrow> nat \<Rightarrow> 'a list \<Rightarrow> 'a list option" where
  "read_at off n m = (if off + n \<le> length m then Some (take n (drop off m)) else None)"

definition write_at :: "nat \<Rightarrow> 'a list \<Rightarrow> 'a list \<Rightarrow> 'a list option" where
  "write_at off bs m =
     (if off + length bs \<le> length m
      then Some (take off m @ bs @ drop (off + length bs) m) else None)"

lemma write_at_Some_iff: "(\<exists>m'. write_at off bs m = Some m') \<longleftrightarrow> off + length bs \<le> length m"
  by (simp add: write_at_def)

lemma write_at_length [mem_simps]: "write_at off bs m = Some m' \<Longrightarrow> length m' = length m"
  by (auto simp: write_at_def split: if_splits)

lemma read_at_length [mem_simps]: "read_at off n m = Some bs \<Longrightarrow> length bs = n"
  by (auto simp: read_at_def split: if_splits)

lemma read_at_write_same [mem_simps]:
  "write_at off bs m = Some m' \<Longrightarrow> n = length bs \<Longrightarrow> read_at off n m' = Some bs"
  by (auto simp: write_at_def read_at_def split: if_splits)

lemma read_at_write_before [mem_simps]:
  assumes "write_at off bs m = Some m'" "o' + n \<le> off"
  shows "read_at o' n m' = read_at o' n m"
  using assms by (auto simp: write_at_def read_at_def drop_take min.absorb1 min.absorb2 split: if_splits)

lemma read_at_write_after [mem_simps]:
  assumes "write_at off bs m = Some m'" "off + length bs \<le> o'"
  shows "read_at o' n m' = read_at o' n m"
  using assms by (auto simp: write_at_def read_at_def min.absorb1 min.absorb2 split: if_splits)

lemma write_at_Nil [mem_simps]: "off \<le> length m \<Longrightarrow> write_at off [] m = Some m"
  by (simp add: write_at_def)

lemma read_at_zero [mem_simps]: "off \<le> length m \<Longrightarrow> read_at off 0 m = Some []"
  by (simp add: read_at_def)

text \<open>Updating an element by a function that keeps a field keeps that field everywhere, at
  an index in range or not.\<close>

lemma nth_update_field:
  "(\<And>x. h (g x) = h x) \<Longrightarrow> h (xs[j := g (xs ! j)] ! k) = h (xs ! k)"
  by (cases "j < length xs") (auto simp: nth_list_update list_update_beyond)

section \<open>Alignment\<close>

definition align_up :: "nat \<Rightarrow> nat \<Rightarrow> nat" where
  "align_up x a = (x + (a - 1)) div a * a"

lemma align_up_dvd [simp]: "a dvd align_up x a"
  by (simp add: align_up_def)

lemma align_up_ge: "0 < a \<Longrightarrow> x \<le> align_up x a"
proof -
  assume a: "0 < a"
  have "x + (a - 1) = (x + (a - 1)) div a * a + (x + (a - 1)) mod a" by simp
  moreover have "(x + (a - 1)) mod a < a" using a by simp
  ultimately show ?thesis unfolding align_up_def using a by linarith
qed

lemma align_up_lt: "0 < a \<Longrightarrow> align_up x a < x + a"
  using div_times_less_eq_dividend[of "x + (a - 1)" a] unfolding align_up_def by linarith

lemma align_up_least:
  assumes "0 < a" "a dvd y" "x \<le> y" shows "align_up x a \<le> y"
proof -
  from assms(2) obtain q where y: "y = q * a" by (metis dvd_def mult.commute)
  have "(x + (a - 1)) div a < q + 1"
    using assms(1,3) y by (intro div_less_iff_less_mult[THEN iffD2]) (auto simp: algebra_simps)
  then have "(x + (a - 1)) div a \<le> q" by simp
  then show ?thesis unfolding align_up_def y by (rule mult_le_mono1)
qed

lemma align_up_id: "0 < a \<Longrightarrow> a dvd x \<Longrightarrow> align_up x a = x"
  by (meson align_up_ge align_up_least le_antisym order_refl)

lemma align_up_one [simp]: "align_up x (Suc 0) = x"
  by (simp add: align_up_def)

text \<open>The mask form of rounding down, as the code writes it, on any word.\<close>

lemma unat_and_not_mask:
  fixes x :: "'a::len word"
  shows "unat (x AND NOT (2 ^ k - 1)) = unat x div 2 ^ k * 2 ^ k"
proof -
  have "unat (x AND NOT (2 ^ k - 1)) = push_bit k (drop_bit k (unat x))"
    by (rule bit_eqI)
      (auto simp: bit_unsigned_iff bit_and_iff bit_not_iff bit_push_bit_iff bit_drop_bit_eq bit_mask_iff
        dest: bit_imp_le_length simp flip: mask_eq_exp_minus_1)
  then show ?thesis by (simp add: push_bit_eq_mult drop_bit_eq_div)
qed

section \<open>Typed values in raw memory\<close>

text \<open>
  What Rust promises of a type that is written to and read back from raw bytes: a fixed
  size, and a read that returns the value written. A byte pattern that is no value of the
  type decodes to \<open>None\<close>.
\<close>

locale layout =
  fixes size_of :: nat
    and enc :: "'a \<Rightarrow> u8 list"
    and dec :: "u8 list \<Rightarrow> 'a option"
  assumes enc_length [simp]: "length (enc x) = size_of"
    and dec_enc [simp]: "dec (enc x) = Some x"

definition write_unaligned :: "('a \<Rightarrow> u8 list) \<Rightarrow> nat \<Rightarrow> 'a \<Rightarrow> u8 list \<Rightarrow> u8 list outcome" where
  "write_unaligned enc off x m = of_option OutOfBounds (write_at off (enc x) m)"

definition read_unaligned :: "nat \<Rightarrow> (u8 list \<Rightarrow> 'a option) \<Rightarrow> nat \<Rightarrow> u8 list \<Rightarrow> 'a outcome" where
  "read_unaligned n dec off m =
     (case read_at off n m of None \<Rightarrow> UB OutOfBounds
      | Some bs \<Rightarrow> of_option InvalidValue (dec bs))"

lemma write_unaligned_Ok_iff:
  "write_unaligned enc off x m = Ok m' \<longleftrightarrow> write_at off (enc x) m = Some m'"
  by (cases "write_at off (enc x) m") (auto simp: write_unaligned_def)

context layout
begin

lemma write_ok: "off + size_of \<le> length m \<Longrightarrow> \<exists>m'. write_unaligned enc off x m = Ok m'"
  by (simp add: write_unaligned_Ok_iff write_at_Some_iff)

lemma write_oob: "length m < off + size_of \<Longrightarrow> write_unaligned enc off x m = UB OutOfBounds"
  by (simp add: write_unaligned_def write_at_def)

lemma read_write: "write_unaligned enc off x m = Ok m' \<Longrightarrow> read_unaligned size_of dec off m' = Ok x"
  by (simp add: write_unaligned_Ok_iff read_unaligned_def mem_simps)

lemma enc_inj: "enc x = enc y \<Longrightarrow> x = y"
  by (metis dec_enc option.inject)

end

text \<open>The fixed-width integers and the unit type are laid out this way.\<close>

definition dec_word :: "u8 list \<Rightarrow> 'a::len word option" where
  "dec_word bs = Some (of_le bs)"

definition enc_unit :: "unit \<Rightarrow> u8 list" where
  "enc_unit x = []"

definition dec_unit :: "u8 list \<Rightarrow> unit option" where
  "dec_unit bs = Some ()"

interpretation u32_layout: layout 4 "le_bytes 4 :: u32 \<Rightarrow> u8 list" dec_word
  by unfold_locales (simp_all add: dec_word_def)

interpretation u64_layout: layout 8 "le_bytes 8 :: u64 \<Rightarrow> u8 list" dec_word
  by unfold_locales (simp_all add: dec_word_def)

interpretation unit_layout: layout 0 enc_unit dec_unit
  by unfold_locales (simp_all add: enc_unit_def dec_unit_def)

end
