(* ===== verification/Slots.thy ===== *)
theory Slots
  imports Prelude
begin

text \<open>
  The slot protocol's data (src/runtime/slots.rs): the sizes of a slot, the header word
  with its ready bit and record count, the boundary-respecting allocation offset, the
  request record header with its byte layout, the slot structures with their
  \<open>repr(C)\<close> layout, and the raw memory of a channel pair with its atomic flag words.
\<close>

section \<open>Slot sizing\<close>

definition PRIMARY_BYTES :: usize where "PRIMARY_BYTES = 128"
definition TRAILING_BYTES :: usize where "TRAILING_BYTES = 1024"
definition SLOT_BYTES :: usize where "SLOT_BYTES = PRIMARY_BYTES + TRAILING_BYTES"
definition HEADER_BYTES :: usize where "HEADER_BYTES = 4"

lemma slot_sizes [simp]:
  "unat PRIMARY_BYTES = 128" "unat TRAILING_BYTES = 1024"
  "unat SLOT_BYTES = 1152" "unat HEADER_BYTES = 4"
  by (simp_all add: PRIMARY_BYTES_def TRAILING_BYTES_def SLOT_BYTES_def HEADER_BYTES_def)

section \<open>The header word\<close>

definition READY_BIT :: u32 where "READY_BIT = push_bit 0 1"
definition COUNT_SHIFT :: nat where "COUNT_SHIFT = 1"
definition COUNT_MASK :: u32 where "COUNT_MASK = 0xFFFFFFFE"

definition pack_ready_count :: "bool \<Rightarrow> u32 \<Rightarrow> u32" where
  "pack_ready_count r c = ((push_bit COUNT_SHIFT c) AND COUNT_MASK) OR (of_bool r)"

definition ready :: "u32 \<Rightarrow> bool" where
  "ready w \<longleftrightarrow> (w AND READY_BIT) \<noteq> 0"

definition count :: "u32 \<Rightarrow> u32" where
  "count w = drop_bit COUNT_SHIFT (w AND COUNT_MASK)"

lemmas header_word_defs =
  READY_BIT_def COUNT_SHIFT_def COUNT_MASK_def pack_ready_count_def ready_def count_def

lemma ready_iff_bit: "ready w \<longleftrightarrow> bit w 0"
  by (simp add: header_word_defs and_one_eq bit_0 odd_iff_mod_2_eq_one)

lemma bit_COUNT_MASK: "bit COUNT_MASK n \<longleftrightarrow> 0 < n \<and> n < 32"
proof -
  have m: "COUNT_MASK = NOT (mask 1)" by (simp add: COUNT_MASK_def mask_eq_exp_minus_1)
  show ?thesis unfolding m bit_not_iff bit_mask_iff by auto
qed

lemma bit_of_bool_word: "bit (of_bool b :: u32) n \<longleftrightarrow> b \<and> n = 0"
  by (cases b) (auto simp: bit_1_iff)

lemma bit_pack_ready_count:
  "bit (pack_ready_count r c) n \<longleftrightarrow> (if n = 0 then r else n < 32 \<and> bit c (n - 1))"
  unfolding pack_ready_count_def COUNT_SHIFT_def bit_or_iff bit_and_iff bit_push_bit_iff
    bit_COUNT_MASK bit_of_bool_word
  by auto

lemma bit_count: "bit (count w) n \<longleftrightarrow> n < 31 \<and> bit w (Suc n)"
  unfolding count_def COUNT_SHIFT_def bit_drop_bit_eq bit_and_iff bit_COUNT_MASK o_def
  by auto

lemma ready_pack [simp]: "ready (pack_ready_count r c) = r"
  by (simp add: ready_iff_bit bit_pack_ready_count)

lemma count_pack: "count (pack_ready_count r c) = take_bit 31 c"
  by (rule bit_word_eqI) (auto simp: bit_count bit_pack_ready_count bit_take_bit_iff)

lemma pack_ready_count_of_word: "pack_ready_count (ready w) (count w) = w"
  by (rule bit_word_eqI)
    (auto simp: bit_count bit_pack_ready_count ready_iff_bit split: if_splits)

lemma count_pack_one [simp]: "count (pack_ready_count r 1) = 1"
  by (simp add: count_pack)

lemma ready_zero [simp]: "\<not> ready 0"
  by (simp add: ready_def)

lemma count_zero [simp]: "count 0 = 0"
  by (simp add: count_def)

section \<open>Allocation offsets\<close>

definition next_boundary_offset :: "usize \<Rightarrow> usize \<Rightarrow> usize \<Rightarrow> usize" where
  "next_boundary_offset cursor sz align =
     (let mask = max align 1 - 1;
          start = (cursor + mask) AND NOT mask
      in if start < PRIMARY_BYTES \<and> start + sz > PRIMARY_BYTES
         then (let new_start = PRIMARY_BYTES in (new_start + mask) AND NOT mask)
         else start)"

text \<open>The same offset over unbounded numbers.\<close>

definition boundary_offset :: "nat \<Rightarrow> nat \<Rightarrow> nat \<Rightarrow> nat" where
  "boundary_offset cursor sz align =
     (if align_up cursor align < 128 \<and> 128 < align_up cursor align + sz
      then align_up 128 align else align_up cursor align)"

text \<open>An alignment the allocator accepts: a power of two, or 0 read as 1.\<close>

definition valid_align :: "usize \<Rightarrow> bool" where
  "valid_align a \<longleftrightarrow> a = 0 \<or> (\<exists>k < 64. a = 2 ^ k)"

definition align_of_word :: "usize \<Rightarrow> nat" where
  "align_of_word a = max (unat a) 1"

lemma align_of_word_pos [simp]: "0 < align_of_word a"
  by (simp add: align_of_word_def)

lemma unat_two_power: "k < 64 \<Longrightarrow> unat (2 ^ k :: usize) = 2 ^ k"
proof -
  assume "k < 64"
  then have "(2::nat) ^ k < 2 ^ LENGTH(64)" by (intro power_strict_increasing) auto
  then have "unat (of_nat (2 ^ k) :: usize) = 2 ^ k"
    by (simp only: unsigned_of_nat take_bit_nat_eq_self id_apply of_nat_id)
  moreover have "of_nat (2 ^ k) = (2 ^ k :: usize)" by simp
  ultimately show ?thesis by metis
qed

lemma valid_align_cases:
  assumes "valid_align a"
  obtains k where "k < 64" "max a 1 = 2 ^ k" "align_of_word a = 2 ^ k"
proof (cases "a = 0")
  case True
  then show ?thesis using that[of 0] by (simp add: align_of_word_def)
next
  case False
  then obtain k where k: "k < 64" "a = 2 ^ k" using assms by (auto simp: valid_align_def)
  have "1 \<le> a" using False by (simp add: word_le_nat_alt Suc_leI unat_gt_0)
  then show ?thesis using that[of k] k by (simp add: align_of_word_def max_absorb1 unat_two_power)
qed

lemma round_up_word:
  assumes "valid_align a" "unat x + align_of_word a \<le> 2 ^ 64"
  shows "unat ((x + (max a 1 - 1)) AND NOT (max a 1 - 1)) = align_up (unat x) (align_of_word a)"
proof -
  obtain k where k: "k < 64" "max a 1 = 2 ^ k" "align_of_word a = 2 ^ k"
    using assms(1) by (rule valid_align_cases)
  have m: "unat (2 ^ k - 1 :: usize) = 2 ^ k - 1"
    using k(1) unat_two_power[OF k(1)] by (simp add: unat_sub word_le_nat_alt)
  have "(1::nat) \<le> 2 ^ k" by simp
  then have "unat x + (2 ^ k - 1) < 2 ^ 64"
    using assms(2) unfolding k(3) by linarith
  then have "unat (x + (2 ^ k - 1)) = unat x + (2 ^ k - 1)"
    using m by (simp add: unat_word_ariths)
  then show ?thesis
    by (simp add: k unat_and_not_mask align_up_def)
qed


text \<open>The word computation is the computation over unbounded numbers as long as the
  request stays clear of the end of the address space.\<close>

lemma next_boundary_offset_nat:
  assumes "valid_align a" "unat c + unat s + 2 * align_of_word a + 128 < 2 ^ 64"
  shows "unat (next_boundary_offset c s a) = boundary_offset (unat c) (unat s) (align_of_word a)"
proof -
  let ?start = "(c + (max a 1 - 1)) AND NOT (max a 1 - 1)"
  have s: "unat ?start = align_up (unat c) (align_of_word a)"
    using assms by (intro round_up_word) auto
  have p: "unat ((PRIMARY_BYTES + (max a 1 - 1)) AND NOT (max a 1 - 1)) = align_up 128 (align_of_word a)"
    using round_up_word[OF assms(1), of PRIMARY_BYTES] assms(2) by simp
  have "align_up (unat c) (align_of_word a) < unat c + align_of_word a"
    by (rule align_up_lt) simp
  then have "unat (?start + s) = unat ?start + unat s"
    using assms(2) s by (simp add: unat_word_ariths)
  then show ?thesis
    using s p by (simp add: next_boundary_offset_def boundary_offset_def Let_def word_less_nat_alt)
qed

definition admissible_offset :: "nat \<Rightarrow> nat \<Rightarrow> nat \<Rightarrow> nat \<Rightarrow> bool" where
  "admissible_offset cursor sz align p \<longleftrightarrow>
     cursor \<le> p \<and> align dvd p \<and> (p + sz \<le> 128 \<or> 128 \<le> p)"

lemma boundary_offset_admissible:
  "0 < a \<Longrightarrow> admissible_offset c s a (boundary_offset c s a)"
  using align_up_ge[of a c] align_up_ge[of a 128]
  by (auto simp: admissible_offset_def boundary_offset_def)

lemma boundary_offset_least:
  assumes a: "0 < a" and p: "admissible_offset c s a p"
  shows "boundary_offset c s a \<le> p"
proof -
  have c: "align_up c a \<le> p"
    using p a by (intro align_up_least) (auto simp: admissible_offset_def)
  show ?thesis
  proof (cases "align_up c a < 128 \<and> 128 < align_up c a + s")
    case True
    then have "128 \<le> p" using c p by (auto simp: admissible_offset_def)
    then have "align_up 128 a \<le> p"
      using p a by (intro align_up_least) (auto simp: admissible_offset_def)
    then show ?thesis using True by (simp add: boundary_offset_def)
  next
    case False
    then show ?thesis using c by (auto simp: boundary_offset_def)
  qed
qed

lemma boundary_offset_ge: "0 < a \<Longrightarrow> c \<le> boundary_offset c s a"
  using boundary_offset_admissible by (auto simp: admissible_offset_def)

section \<open>Request records\<close>

record FatClosurePtr =
  data :: u64
  vtable :: u64

datatype PropertyPtr =
    CallMutRetUnit
  | CallMutOutPtr
  | CallMutArgsOutPtr
  | IntoInner
  | Launch
  | Terminate

fun discriminant :: "PropertyPtr \<Rightarrow> u64" where
  "discriminant CallMutRetUnit = 0"
| "discriminant CallMutOutPtr = 1"
| "discriminant CallMutArgsOutPtr = 2"
| "discriminant IntoInner = 3"
| "discriminant Launch = 4"
| "discriminant Terminate = - 1"

definition PropertyPtr_of :: "u64 \<Rightarrow> PropertyPtr option" where
  "PropertyPtr_of d =
     find (\<lambda>p. discriminant p = d)
       [CallMutRetUnit, CallMutOutPtr, CallMutArgsOutPtr, IntoInner, Launch, Terminate]"

record RequestRecordHeader =
  closure :: FatClosurePtr
  property_ptr :: PropertyPtr
  captured_len :: u32
  args_len :: u32
  args_offset :: u32
  repeat_count :: u32

lemma PropertyPtr_of_discriminant [simp]: "PropertyPtr_of (discriminant p) = Some p"
  by (cases p) (simp_all add: PropertyPtr_of_def)

text \<open>The 40 bytes of a record header, in declaration order (no padding, see the
  \<open>repr(C)\<close> layout below).\<close>

definition hdr_bytes :: "RequestRecordHeader \<Rightarrow> u8 list" where
  "hdr_bytes h =
     le_bytes 8 (data (closure h)) @ le_bytes 8 (vtable (closure h)) @
     le_bytes 8 (discriminant (property_ptr h)) @
     le_bytes 4 (captured_len h) @ le_bytes 4 (args_len h) @
     le_bytes 4 (args_offset h) @ le_bytes 4 (repeat_count h)"

definition hdr_of_bytes :: "u8 list \<Rightarrow> RequestRecordHeader option" where
  "hdr_of_bytes bs =
     (case PropertyPtr_of (of_le (take 8 (drop 16 bs))) of
        None \<Rightarrow> None
      | Some p \<Rightarrow> Some
          \<lparr> closure = \<lparr> data = of_le (take 8 bs), vtable = of_le (take 8 (drop 8 bs)) \<rparr>,
            property_ptr = p,
            captured_len = of_le (take 4 (drop 24 bs)),
            args_len = of_le (take 4 (drop 28 bs)),
            args_offset = of_le (take 4 (drop 32 bs)),
            repeat_count = of_le (take 4 (drop 36 bs)) \<rparr>)"

interpretation hdr_layout: layout 40 hdr_bytes hdr_of_bytes
  by unfold_locales (simp_all add: hdr_bytes_def hdr_of_bytes_def)

section \<open>repr(C) layouts\<close>

text \<open>The \<open>repr(C)\<close> rule: fields in order, each at the next multiple of its alignment,
  the whole rounded up to the largest alignment. A layout is a size and an alignment.\<close>

type_synonym type_layout = "nat \<times> nat"

fun field_offsets :: "nat \<Rightarrow> type_layout list \<Rightarrow> nat list" where
  "field_offsets off [] = []"
| "field_offsets off ((s, a) # fs) = align_up off a # field_offsets (align_up off a + s) fs"

fun fields_end :: "nat \<Rightarrow> type_layout list \<Rightarrow> nat" where
  "fields_end off [] = off"
| "fields_end off ((s, a) # fs) = fields_end (align_up off a + s) fs"

definition repr_c :: "type_layout list \<Rightarrow> type_layout" where
  "repr_c fs = (let a = foldr (\<lambda>f. max (snd f)) fs 1 in (align_up (fields_end 0 fs) a, a))"

definition u32_ty :: type_layout where "u32_ty = (4, 4)"
definition ptr_ty :: type_layout where "ptr_ty = (8, 8)"

definition FatClosurePtr_fields :: "type_layout list" where
  "FatClosurePtr_fields = [ptr_ty, ptr_ty]"

definition RequestRecordHeader_fields :: "type_layout list" where
  "RequestRecordHeader_fields =
     [repr_c FatClosurePtr_fields, (8, 8), u32_ty, u32_ty, u32_ty, u32_ty]"

definition MIN_REQUEST_RECORD_BYTES :: nat where
  "MIN_REQUEST_RECORD_BYTES = fst (repr_c FatClosurePtr_fields) + 8"

definition RequestPrimary_fields :: "type_layout list" where
  "RequestPrimary_fields = [u32_ty, (unat (PRIMARY_BYTES - HEADER_BYTES), 1)]"

definition ResponsePrimary_fields :: "type_layout list" where
  "ResponsePrimary_fields = [u32_ty, (unat (PRIMARY_BYTES - HEADER_BYTES), 1)]"

definition RequestSlot_fields :: "type_layout list" where
  "RequestSlot_fields = [repr_c RequestPrimary_fields, (unat TRAILING_BYTES, 1)]"

definition ResponseSlot_fields :: "type_layout list" where
  "ResponseSlot_fields = [repr_c ResponsePrimary_fields, (unat TRAILING_BYTES, 1)]"

definition ChannelPair_fields :: "type_layout list" where
  "ChannelPair_fields = [repr_c RequestSlot_fields, repr_c ResponseSlot_fields]"

lemmas struct_defs =
  u32_ty_def ptr_ty_def FatClosurePtr_fields_def RequestRecordHeader_fields_def
  RequestPrimary_fields_def ResponsePrimary_fields_def RequestSlot_fields_def
  ResponseSlot_fields_def ChannelPair_fields_def

definition size_of_hdr :: usize where
  "size_of_hdr = of_nat (fst (repr_c RequestRecordHeader_fields))"

definition align_of_hdr :: usize where
  "align_of_hdr = of_nat (snd (repr_c RequestRecordHeader_fields))"

lemma primary_data_bytes [simp]: "unat (PRIMARY_BYTES - HEADER_BYTES) = 124"
  by (simp add: PRIMARY_BYTES_def HEADER_BYTES_def)

lemma hdr_layout_eq: "repr_c RequestRecordHeader_fields = (40, 8)"
  by (simp add: repr_c_def struct_defs align_up_def)

lemma size_of_hdr [simp]: "size_of_hdr = 40"
  by (simp add: size_of_hdr_def hdr_layout_eq)

lemma align_of_hdr [simp]: "align_of_hdr = 8"
  by (simp add: align_of_hdr_def hdr_layout_eq)

section \<open>Slots and channel pairs\<close>

record SlotHeader =
  flags :: u32

record RequestPrimary =
  rq_header :: SlotHeader
  rq_data :: "u8 list"

record ResponsePrimary =
  rs_header :: SlotHeader
  rs_data :: "u8 list"

record RequestSlot =
  rq_primary :: RequestPrimary
  rq_trailing :: "u8 list"

record ResponseSlot =
  rs_primary :: ResponsePrimary
  rs_trailing :: "u8 list"

definition SlotHeader_default :: SlotHeader where
  "SlotHeader_default = \<lparr> flags = 0 \<rparr>"

definition RequestPrimary_default :: RequestPrimary where
  "RequestPrimary_default =
     \<lparr> rq_header = SlotHeader_default, rq_data = replicate (unat (PRIMARY_BYTES - HEADER_BYTES)) 0 \<rparr>"

definition ResponsePrimary_default :: ResponsePrimary where
  "ResponsePrimary_default =
     \<lparr> rs_header = SlotHeader_default, rs_data = replicate (unat (PRIMARY_BYTES - HEADER_BYTES)) 0 \<rparr>"

definition RequestSlot_default :: RequestSlot where
  "RequestSlot_default =
     \<lparr> rq_primary = RequestPrimary_default, rq_trailing = replicate (unat TRAILING_BYTES) 0 \<rparr>"

definition ResponseSlot_default :: ResponseSlot where
  "ResponseSlot_default =
     \<lparr> rs_primary = ResponsePrimary_default, rs_trailing = replicate (unat TRAILING_BYTES) 0 \<rparr>"

text \<open>The raw bytes of a slot in its \<open>repr(C)\<close> layout: the flag word at offset 0, the
  primary data, the trailing block. The client and the trustee address a slot through
  its raw bytes only, so that is what a channel pair holds; \<open>request_base\<close> is the
  address of the request slot in the process.\<close>

definition request_raw :: "RequestSlot \<Rightarrow> u8 list" where
  "request_raw s = le_bytes 4 (flags (rq_header (rq_primary s))) @ rq_data (rq_primary s) @ rq_trailing s"

definition response_raw :: "ResponseSlot \<Rightarrow> u8 list" where
  "response_raw s = le_bytes 4 (flags (rs_header (rs_primary s))) @ rs_data (rs_primary s) @ rs_trailing s"

record ChannelPair =
  request_base :: u64
  request :: "u8 list"
  response :: "u8 list"

definition ChannelPair_default :: "u64 \<Rightarrow> ChannelPair" where
  "ChannelPair_default b =
     \<lparr> request_base = b, request = request_raw RequestSlot_default,
       response = response_raw ResponseSlot_default \<rparr>"

lemmas default_defs =
  SlotHeader_default_def RequestPrimary_default_def ResponsePrimary_default_def
  RequestSlot_default_def ResponseSlot_default_def request_raw_def response_raw_def
  ChannelPair_default_def

text \<open>Atomic loads and stores of the flag word, through the raw pointer.\<close>

definition load_flags :: "u8 list \<Rightarrow> u32" where
  "load_flags slot = of_le (take 4 slot)"

definition store_flags :: "u32 \<Rightarrow> u8 list \<Rightarrow> u8 list" where
  "store_flags w slot = le_bytes 4 w @ drop 4 slot"

lemma load_store_flags [mem_simps]: "load_flags (store_flags w m) = w"
  by (simp add: load_flags_def store_flags_def)

lemma length_store_flags [mem_simps]: "4 \<le> length m \<Longrightarrow> length (store_flags w m) = length m"
  by (simp add: store_flags_def)

lemma read_at_store_flags [mem_simps]:
  "4 \<le> length m \<Longrightarrow> 4 \<le> off \<Longrightarrow> read_at off n (store_flags w m) = read_at off n m"
  by (auto simp: read_at_def store_flags_def)

lemma load_flags_write_at [mem_simps]:
  assumes "write_at off bs m = Some m'" "4 \<le> off" shows "load_flags m' = load_flags m"
  using assms by (auto simp: write_at_def load_flags_def min.absorb1 min.absorb2 split: if_splits)

lemma load_flags_request_raw [simp]:
  "load_flags (request_raw s) = flags (rq_header (rq_primary s))"
  by (simp add: load_flags_def request_raw_def)

lemma load_flags_response_raw [simp]:
  "load_flags (response_raw s) = flags (rs_header (rs_primary s))"
  by (simp add: load_flags_def response_raw_def)

text \<open>A channel's memory has the size its slots are declared with, and it lies at a multiple of
  eight: an \<open>Arc\<close> keeps its two counters of eight bytes in front of it.\<close>

definition wf_chan :: "ChannelPair \<Rightarrow> bool" where
  "wf_chan c \<longleftrightarrow> length (request c) = 1152 \<and> length (response c) = 1152 \<and> 8 dvd unat (request_base c)"

lemma wf_chan_default [simp]: "8 dvd unat b \<Longrightarrow> wf_chan (ChannelPair_default b)"
  by (simp add: wf_chan_def default_defs)

lemma default_flags [simp]:
  "load_flags (request (ChannelPair_default b)) = 0"
  "load_flags (response (ChannelPair_default b)) = 0"
  by (simp_all add: ChannelPair_default_def default_defs load_flags_def)

lemma le_bytes_zero: "le_bytes n (0 :: 'a::len word) = replicate n 0"
  by (induction n) auto

lemma default_raw:
  "request (ChannelPair_default b) = replicate 1152 0"
  "response (ChannelPair_default b) = replicate 1152 0"
proof -
  have "replicate 4 (0 :: u8) @ replicate 124 0 @ replicate 1024 0 = replicate (4 + (124 + 1024)) 0"
    by (simp only: replicate_add)
  then show "request (ChannelPair_default b) = replicate 1152 0"
    "response (ChannelPair_default b) = replicate 1152 0"
    by (simp_all add: ChannelPair_default_def default_defs le_bytes_zero)
qed

section \<open>Properties\<close>

text \<open>The header word is a faithful pairing of the ready bit and the record count: what
  is packed is read back (the count to its 31 bits), and every 32-bit word is the packing
  of what is read from it.\<close>

lemma header_word_roundtrip:
  "ready (pack_ready_count r c) = r \<and> count (pack_ready_count r c) = take_bit 31 c \<and>
   pack_ready_count (ready w) (count w) = w"
  by (simp add: count_pack pack_ready_count_of_word)

text \<open>C33. Away from the end of the address space, the offset the allocator computes with
  masks on 64-bit words is the least offset at or after the cursor that is aligned and at
  which the allocation does not straddle the boundary between the two blocks.\<close>

theorem next_boundary_offset_least:
  assumes "valid_align a" "unat c + unat s + 2 * align_of_word a + 128 < 2 ^ 64"
  shows "admissible_offset (unat c) (unat s) (align_of_word a) (unat (next_boundary_offset c s a)) \<and>
    (\<forall>p. admissible_offset (unat c) (unat s) (align_of_word a) p \<longrightarrow>
         unat (next_boundary_offset c s a) \<le> p)"
  unfolding next_boundary_offset_nat[OF assms]
  by (simp add: boundary_offset_admissible boundary_offset_least)

text \<open>Witness: 40 bytes at alignment 8 from cursor 100 go to the trailing block.\<close>

theorem next_boundary_offset_least_witness:
  "next_boundary_offset 100 40 8 = 128 \<and> admissible_offset 100 40 8 128 \<and> \<not> admissible_offset 100 40 8 120"
proof -
  have v: "valid_align 8" unfolding valid_align_def by (intro disjI2 exI[of _ 3]) simp
  have n: "next_boundary_offset 100 40 8 = 128"
    by (simp add: next_boundary_offset_def PRIMARY_BYTES_def)
  show ?thesis
    using next_boundary_offset_least[OF v, of 100 40] by (auto simp: n align_of_word_def)
qed

text \<open>A record header survives its byte representation, which has exactly the size the
  \<open>repr(C)\<close> rule gives the structure.\<close>

lemma record_header_roundtrip:
  "hdr_of_bytes (hdr_bytes h) = Some h \<and>
   length (hdr_bytes h) = fst (repr_c RequestRecordHeader_fields)"
  by (simp add: hdr_layout_eq)

text \<open>The \<open>repr(C)\<close> layouts behind the raw accesses: a record header has no padding
  between its fields, each slot is exactly the bytes the writer is given, with the flag word
  first, and a fresh channel pair is all zeros. A channel pair is only 4-aligned: nothing in
  its type gives a slot the 64-byte alignment that the allocator's comment assumes.\<close>

lemma slot_layouts:
  "repr_c RequestRecordHeader_fields = (40, 8) \<and>
   field_offsets 0 RequestRecordHeader_fields = [0, 16, 24, 28, 32, 36] \<and>
   MIN_REQUEST_RECORD_BYTES = 24 \<and>
   repr_c RequestSlot_fields = (unat SLOT_BYTES, 4) \<and>
   repr_c ResponseSlot_fields = (unat SLOT_BYTES, 4) \<and>
   field_offsets 0 RequestPrimary_fields = [0, unat HEADER_BYTES] \<and>
   repr_c ChannelPair_fields = (2 * unat SLOT_BYTES, 4) \<and>
   request (ChannelPair_default b) = replicate (unat SLOT_BYTES) 0 \<and>
   response (ChannelPair_default b) = replicate (unat SLOT_BYTES) 0"
  by (simp add: repr_c_def struct_defs align_up_def MIN_REQUEST_RECORD_BYTES_def default_raw)

end
