(* ===== verification/Serialization.thy ===== *)
theory Serialization
  imports Slots
begin

text \<open>
  Closure encoding (src/runtime/serialization.rs): the bump allocator of a slot, the
  encoding of a closure's captures and argument bytes, the static vtable of a closure
  type, and the call that moves the captures back out of the slot.
\<close>

section \<open>The slot writer\<close>

record SlotWriter =
  base :: u64
  len :: usize
  cursor :: usize

definition SlotWriter_new :: "u64 \<Rightarrow> SlotWriter" where
  "SlotWriter_new buf = \<lparr> base = buf, len = SLOT_BYTES, cursor = 0 \<rparr>"

definition alloc_aligned :: "SlotWriter \<Rightarrow> usize \<Rightarrow> usize \<Rightarrow> (SlotWriter \<times> u64) outcome" where
  "alloc_aligned w sz align =
     (let pos = next_boundary_offset (cursor w) sz align;
          w' = w\<lparr> cursor := pos + sz \<rparr>
      in if cursor w' \<le> len w' then Ok (w', base w' + pos) else Panic SlotOverflow)"

text \<open>A store of raw bytes through a pointer into the slot at \<open>b\<close>.\<close>

definition copy_to :: "u64 \<Rightarrow> u64 \<Rightarrow> u8 list \<Rightarrow> u8 list \<Rightarrow> u8 list outcome" where
  "copy_to b p bs m = of_option OutOfBounds (write_at (unat (p - b)) bs m)"

text \<open>A typed access through a pointer (\<open>ptr::write\<close>, \<open>ptr::read\<close>, \<open>drop_in_place\<close>) must be at an
  address aligned for the type; anything else is undefined.\<close>

definition aligned_for :: "usize \<Rightarrow> u64 \<Rightarrow> bool" where
  "aligned_for align p \<longleftrightarrow> align_of_word align dvd unat p"

definition ptr_write :: "usize \<Rightarrow> u64 \<Rightarrow> u64 \<Rightarrow> u8 list \<Rightarrow> u8 list \<Rightarrow> u8 list outcome" where
  "ptr_write align b p bs m = (if aligned_for align p then copy_to b p bs m else UB Misaligned)"

definition ptr_read :: "usize \<Rightarrow> usize \<Rightarrow> u64 \<Rightarrow> u64 \<Rightarrow> u8 list \<Rightarrow> u8 list outcome" where
  "ptr_read sz align b p m =
     (if aligned_for align p then of_option OutOfBounds (read_at (unat (p - b)) (unat sz) m)
      else UB Misaligned)"

definition write_bytes :: "SlotWriter \<Rightarrow> u8 list \<Rightarrow> u8 list \<Rightarrow> (SlotWriter \<times> u8 list \<times> u64) outcome" where
  "write_bytes w bytes m =
     obind (alloc_aligned w (of_nat (length bytes)) 1) (\<lambda>(w', p).
     obind (copy_to (base w) p bytes m) (\<lambda>m'. Ok (w', m', p)))"

section \<open>Closure types, vtables and calls\<close>

text \<open>A closure value: the size and alignment of its type, the bytes of its captures, and
  the address at which the program image holds the vtable of its type.\<close>

record fn_value =
  fn_size :: usize
  fn_align :: usize
  fn_env :: "u8 list"
  fn_vtable :: u64

definition wf_fn :: "fn_value \<Rightarrow> bool" where
  "wf_fn f \<longleftrightarrow> length (fn_env f) = unat (fn_size f) \<and> valid_align (fn_align f) \<and>
     1 \<le> unat (fn_align f) \<and> unat (fn_align f) \<le> 2 ^ 29 \<and> unat (fn_size f) < 2 ^ 63"

record ('args, 'ret) ErasedVTable =
  call_once_in_place :: "u64 \<Rightarrow> u8 list \<Rightarrow> u64 \<Rightarrow> 'args \<Rightarrow> 'ret outcome"
  drop_in_place :: "u64 \<Rightarrow> u8 list \<Rightarrow> u64 \<Rightarrow> u8 list option outcome"
  env_align :: u32
  env_size :: u32

text \<open>Moving the captures out of the slot at \<open>b\<close> and running the closure's code on
  them. Captures of size zero are not read.\<close>

definition call_once_shim ::
    "usize \<Rightarrow> usize \<Rightarrow> (u8 list \<Rightarrow> 'args \<Rightarrow> 'ret outcome) \<Rightarrow> u64 \<Rightarrow> u8 list \<Rightarrow> u64 \<Rightarrow> 'args \<Rightarrow>
     'ret outcome" where
  "call_once_shim sz align code b m env args =
     (if sz = 0 then code [] args
      else obind (ptr_read sz align b env m) (\<lambda>bs. code bs args))"

text \<open>Dropping the captures in place: what the destructor of the closure runs on, if it runs.\<close>

definition drop_shim :: "usize \<Rightarrow> usize \<Rightarrow> u64 \<Rightarrow> u8 list \<Rightarrow> u64 \<Rightarrow> u8 list option outcome" where
  "drop_shim sz align b m env =
     (if sz \<noteq> 0 then obind (ptr_read sz align b env m) (\<lambda>bs. Ok (Some bs)) else Ok None)"

definition VTABLE ::
    "usize \<Rightarrow> usize \<Rightarrow> (u8 list \<Rightarrow> 'args \<Rightarrow> 'ret outcome) \<Rightarrow> ('args, 'ret) ErasedVTable" where
  "VTABLE sz align code =
     \<lparr> call_once_in_place = call_once_shim sz align code, drop_in_place = drop_shim sz align,
       env_align = ucast align, env_size = ucast sz \<rparr>"

definition dangling :: u64 where "dangling = 1"

text \<open>The captures are moved into the slot first; an overflow of the argument bytes behind them
  panics with the captures already in the slot.\<close>

definition encode_env :: "SlotWriter \<Rightarrow> fn_value \<Rightarrow> u8 list \<Rightarrow> (SlotWriter \<times> u8 list \<times> u64) outcome" where
  "encode_env out f m =
     obind (alloc_aligned out (fn_size f) (fn_align f)) (\<lambda>(out1, env_ptr_in_slot).
     obind (if fn_size f \<noteq> 0 then ptr_write (fn_align f) (base out) env_ptr_in_slot (fn_env f) m else Ok m)
       (\<lambda>m1. Ok (out1, m1, env_ptr_in_slot)))"

definition encode_leaves :: "SlotWriter \<Rightarrow> fn_value \<Rightarrow> u8 list \<Rightarrow> u8 list" where
  "encode_leaves out f m = (case encode_env out f m of Ok (out1, m1, p) \<Rightarrow> m1 | _ \<Rightarrow> m)"

definition encode_closure ::
    "SlotWriter \<Rightarrow> PropertyPtr \<Rightarrow> fn_value \<Rightarrow> u8 list \<Rightarrow> u8 list \<Rightarrow>
     (SlotWriter \<times> u8 list \<times> RequestRecordHeader) outcome" where
  "encode_closure out prop f serialized_args m =
     obind (encode_env out f m) (\<lambda>(out1, m1, env_ptr_in_slot).
     obind (alloc_aligned out1 (of_nat (length serialized_args)) 1) (\<lambda>(out2, args_ptr_in_slot).
     obind (copy_to (base out) args_ptr_in_slot serialized_args m1) (\<lambda>m2.
       Ok (out2, m2,
         \<lparr> closure = \<lparr> data = (if fn_size f = 0 then dangling else env_ptr_in_slot),
                       vtable = fn_vtable f \<rparr>,
           property_ptr = prop,
           captured_len = ucast (fn_size f),
           args_len = of_nat (length serialized_args),
           args_offset = ucast (args_ptr_in_slot - base out),
           repeat_count = 1 \<rparr>))))"

text \<open>The vtable pointer of the header is used as a vtable of the type the caller names:
  \<open>vtables\<close> gives the vtables of that type by address, and a call through any other
  address is undefined.\<close>

definition decode_and_call ::
    "(u64 \<Rightarrow> ('args, 'ret) ErasedVTable option) \<Rightarrow> u64 \<Rightarrow> u8 list \<Rightarrow> RequestRecordHeader \<Rightarrow>
     'args \<Rightarrow> 'ret outcome" where
  "decode_and_call vtables b m hdr args =
     (case vtables (vtable (closure hdr)) of
        None \<Rightarrow> UB WrongVTable
      | Some vt \<Rightarrow> call_once_in_place vt b m (data (closure hdr)) args)"

section \<open>What the writer does\<close>

definition wf_writer :: "SlotWriter \<Rightarrow> u8 list \<Rightarrow> bool" where
  "wf_writer w m \<longleftrightarrow> unat (len w) = length m \<and> length m \<le> 2 ^ 31 \<and> unat (cursor w) \<le> length m"

lemma boundary_offset_upper:
  assumes "0 < a" shows "boundary_offset c s a < max c 128 + a"
  using align_up_lt[OF assms, of c] align_up_lt[OF assms, of 128]
  by (auto simp: boundary_offset_def)

lemma alloc_aligned_nat:
  assumes w: "unat (len w) \<le> 2 ^ 31" "unat (cursor w) \<le> unat (len w)"
    and a: "valid_align align" "align_of_word align \<le> 2 ^ 29" and s: "unat sz < 2 ^ 63"
  shows "alloc_aligned w sz align =
    (let p = boundary_offset (unat (cursor w)) (unat sz) (align_of_word align)
     in if p + unat sz \<le> unat (len w)
        then Ok (w\<lparr> cursor := of_nat (p + unat sz) \<rparr>, base w + of_nat p)
        else Panic SlotOverflow)"
proof -
  let ?p = "boundary_offset (unat (cursor w)) (unat sz) (align_of_word align)"
  let ?pos = "next_boundary_offset (cursor w) sz align"
  have pos: "unat ?pos = ?p"
    using w a s by (intro next_boundary_offset_nat) auto
  have "?p < max (unat (cursor w)) 128 + align_of_word align"
    by (rule boundary_offset_upper) simp
  then have "?p + unat sz < 2 ^ 64" using w a s by auto
  then have sum: "unat (?pos + sz) = ?p + unat sz"
    using pos by (simp add: unat_word_ariths)
  have p: "?pos = of_nat ?p" using pos by (metis of_nat_unat ucast_id)
  have q: "?pos + sz = of_nat (?p + unat sz)" using sum by (metis of_nat_unat ucast_id)
  show ?thesis
    unfolding alloc_aligned_def Let_def
    using sum p q by (simp add: word_le_nat_alt)
qed

lemma unat_ptr_diff: "p < 2 ^ 64 \<Longrightarrow> unat ((b + of_nat p) - b :: u64) = p"
  by (simp add: unsigned_of_nat take_bit_nat_eq_self)

lemma copy_to_nat: "p < 2 ^ 64 \<Longrightarrow> copy_to b (b + of_nat p) bs m = of_option OutOfBounds (write_at p bs m)"
  using unat_ptr_diff[of p b] by (simp add: copy_to_def)


section \<open>What the encoder does\<close>

text \<open>Where the captures and the argument bytes of an encoded closure end up.\<close>

definition env_pos :: "nat \<Rightarrow> fn_value \<Rightarrow> nat" where
  "env_pos c f = boundary_offset c (unat (fn_size f)) (unat (fn_align f))"

definition args_pos :: "nat \<Rightarrow> fn_value \<Rightarrow> nat \<Rightarrow> nat" where
  "args_pos c f n = boundary_offset (env_pos c f + unat (fn_size f)) n 1"

lemma env_pos_ge: "wf_fn f \<Longrightarrow> c \<le> env_pos c f"
  by (simp add: env_pos_def wf_fn_def boundary_offset_ge)

lemma args_pos_ge: "env_pos c f + unat (fn_size f) \<le> args_pos c f n"
  by (simp add: args_pos_def boundary_offset_ge)

lemma align_of_word_wf: "wf_fn f \<Longrightarrow> align_of_word (fn_align f) = unat (fn_align f)"
  by (simp add: wf_fn_def align_of_word_def)

lemma valid_align_one [simp]: "valid_align 1"
  unfolding valid_align_def by (metis power_0 zero_less_numeral)

lemma align_of_word_one [simp]: "align_of_word 1 = Suc 0"
  by (simp add: align_of_word_def)

lemma unat_length_arg: "length xs < 2 ^ 63 \<Longrightarrow> unat (of_nat (length xs) :: usize) = length xs"
  by (simp add: unsigned_of_nat take_bit_nat_eq_self)

definition encoded_header :: "SlotWriter \<Rightarrow> PropertyPtr \<Rightarrow> fn_value \<Rightarrow> nat \<Rightarrow> RequestRecordHeader" where
  "encoded_header out p f n =
     \<lparr> closure = \<lparr> data = (if fn_size f = 0 then dangling
                            else base out + of_nat (env_pos (unat (cursor out)) f)),
                   vtable = fn_vtable f \<rparr>,
       property_ptr = p,
       captured_len = ucast (fn_size f),
       args_len = of_nat n,
       args_offset = of_nat (args_pos (unat (cursor out)) f n),
       repeat_count = 1 \<rparr>"

lemma ucast_ptr_diff:
  "p < 2 ^ 32 \<Longrightarrow> ucast ((b + of_nat p) - b :: u64) = (of_nat p :: u32)"
  by (rule word_unat_eq_iff[THEN iffD2])
    (simp add: unsigned_of_nat take_bit_nat_eq_self unsigned_ucast_eq)

text \<open>The captures' address is aligned for their type exactly when the slot's address is, since
  their offset is: the alignment is a power of two, so it divides the size of the address space.\<close>

definition base_aligned :: "SlotWriter \<Rightarrow> fn_value \<Rightarrow> bool" where
  "base_aligned out f \<longleftrightarrow> fn_size f = 0 \<or> unat (fn_align f) dvd unat (base out)"

lemma env_pos_dvd: "wf_fn f \<Longrightarrow> unat (fn_align f) dvd env_pos c f"
  using boundary_offset_admissible[of "unat (fn_align f)" c "unat (fn_size f)"]
  by (simp add: wf_fn_def env_pos_def admissible_offset_def)

lemma wf_fn_align_power: "wf_fn f \<Longrightarrow> \<exists>k. unat (fn_align f) = 2 ^ k"
  by (auto simp: wf_fn_def valid_align_def unat_two_power)

lemma wf_fn_align_dvd: assumes "wf_fn f" shows "unat (fn_align f) dvd 2 ^ 64"
proof -
  obtain k where k: "unat (fn_align f) = 2 ^ k" using wf_fn_align_power[OF assms] by blast
  then have "(2 :: nat) ^ k \<le> 2 ^ 29" using assms by (simp add: wf_fn_def)
  then have "k \<le> 29" by (simp only: power_increasing_iff)
  then show ?thesis unfolding k by (intro le_imp_power_dvd) simp
qed

lemma dvd_unat_add_iff:
  assumes "a dvd e" "a dvd 2 ^ 64"
  shows "a dvd unat (b + of_nat e :: u64) \<longleftrightarrow> a dvd unat b"
proof -
  have "unat (b + of_nat e) = (unat b + e) mod 2 ^ 64"
    by (simp add: unat_word_ariths unsigned_of_nat take_bit_eq_mod mod_add_right_eq)
  then show ?thesis using assms dvd_mod_iff[of a "2 ^ 64" "unat b + e"] by (simp add: dvd_add_left_iff)
qed

lemma env_aligned_iff:
  assumes "wf_fn f"
  shows "aligned_for (fn_align f) (b + of_nat (env_pos c f)) \<longleftrightarrow> unat (fn_align f) dvd unat b"
  unfolding aligned_for_def align_of_word_wf[OF assms]
  by (rule dvd_unat_add_iff[OF env_pos_dvd[OF assms] wf_fn_align_dvd[OF assms]])

lemma encode_closure_misaligned:
  assumes w: "wf_writer out m" and f: "wf_fn f" and e: "env_pos (unat (cursor out)) f + unat (fn_size f) \<le> length m"
    and a: "\<not> base_aligned out f"
  shows "encode_closure out p f args m = UB Misaligned"
proof -
  have "alloc_aligned out (fn_size f) (fn_align f) =
      Ok (out\<lparr> cursor := of_nat (env_pos (unat (cursor out)) f + unat (fn_size f)) \<rparr>,
          base out + of_nat (env_pos (unat (cursor out)) f))"
    using alloc_aligned_nat[of out "fn_align f" "fn_size f"] w f e
    by (simp add: align_of_word_wf[OF f] env_pos_def Let_def wf_writer_def wf_fn_def)
  then show ?thesis
    using a env_aligned_iff[OF f] by (simp add: encode_closure_def encode_env_def base_aligned_def ptr_write_def)
qed

lemma encode_closure_env_overflow:
  assumes w: "wf_writer out m" and f: "wf_fn f"
    and e: "length m < env_pos (unat (cursor out)) f + unat (fn_size f)"
  shows "encode_closure out p f args m = Panic SlotOverflow"
proof -
  have "alloc_aligned out (fn_size f) (fn_align f) = Panic SlotOverflow"
    using alloc_aligned_nat[of out "fn_align f" "fn_size f"] w f e
    by (simp add: align_of_word_wf[OF f] env_pos_def Let_def wf_writer_def wf_fn_def)
  then show ?thesis by (simp add: encode_closure_def encode_env_def)
qed

lemma encode_closure_eq:
  assumes w: "wf_writer out m" and f: "wf_fn f" and n: "length args < 2 ^ 63" and b: "base_aligned out f"
  shows "encode_closure out p f args m =
    (let e = env_pos (unat (cursor out)) f; a = args_pos (unat (cursor out)) f (length args)
     in if a + length args \<le> length m
        then Ok (out\<lparr> cursor := of_nat (a + length args) \<rparr>,
                 the (write_at a args (the (write_at e (fn_env f) m))),
                 encoded_header out p f (length args))
        else Panic SlotOverflow)"
proof -
  let ?c = "unat (cursor out)" and ?s = "unat (fn_size f)" and ?n = "length args"
  let ?e = "env_pos ?c f" and ?a = "args_pos ?c f ?n"
  have L: "unat (len out) = length m" "length m \<le> 2 ^ 31" "?c \<le> length m"
    using w by (auto simp: wf_writer_def)
  have al: "valid_align (fn_align f)" "unat (fn_align f) \<le> 2 ^ 29" "?s < 2 ^ 63"
      "length (fn_env f) = ?s"
    using f by (auto simp: wf_fn_def)
  have A1: "alloc_aligned out (fn_size f) (fn_align f) =
      (if ?e + ?s \<le> length m then Ok (out\<lparr> cursor := of_nat (?e + ?s) \<rparr>, base out + of_nat ?e)
       else Panic SlotOverflow)"
    using alloc_aligned_nat[of out "fn_align f" "fn_size f"] L al
    by (simp add: align_of_word_wf[OF f] env_pos_def Let_def)
  show ?thesis
  proof (cases "?e + ?s \<le> length m")
    case False
    then show ?thesis using A1 args_pos_ge[of ?c f ?n] by (simp add: encode_closure_def encode_env_def Let_def)
  next
    case e: True
    let ?out1 = "out\<lparr> cursor := of_nat (?e + ?s) \<rparr>"
    obtain m1 where m1: "write_at ?e (fn_env f) m = Some m1"
      using e al(4) write_at_Some_iff[of ?e "fn_env f" m] by auto
    have C1: "(if fn_size f \<noteq> 0 then ptr_write (fn_align f) (base out) (base out + of_nat ?e) (fn_env f) m
        else Ok m) = Ok m1"
    proof (cases "fn_size f = 0")
      case True
      then have "m1 = m" using m1 al(4) e by (simp add: write_at_Nil)
      then show ?thesis using True by simp
    next
      case False
      then show ?thesis using m1 e L b env_aligned_iff[OF f]
        by (simp add: copy_to_nat ptr_write_def base_aligned_def)
    qed
    have c1: "unat (cursor ?out1) = ?e + ?s"
      using e L by (simp add: unsigned_of_nat take_bit_nat_eq_self del: of_nat_add)
    have A2: "alloc_aligned ?out1 (of_nat ?n) 1 =
        (if ?a + ?n \<le> length m then Ok (out\<lparr> cursor := of_nat (?a + ?n) \<rparr>, base out + of_nat ?a)
         else Panic SlotOverflow)"
      using alloc_aligned_nat[of ?out1 1 "of_nat ?n"] L e c1 n unat_length_arg[OF n]
      by (simp add: args_pos_def Let_def)
    show ?thesis
    proof (cases "?a + ?n \<le> length m")
      case False
      then show ?thesis using A1 C1 A2 e by (simp add: encode_closure_def encode_env_def Let_def)
    next
      case a: True
      obtain m2 where m2: "write_at ?a args m1 = Some m2"
        using a write_at_Some_iff[of ?a args m1] write_at_length[OF m1] by auto
      have C2: "copy_to (base out) (base out + of_nat ?a) args m1 = Ok m2"
        using m2 a L by (simp add: copy_to_nat)
      have "ucast ((base out + of_nat ?a) - base out) = (of_nat ?a :: u32)"
        using a L by (intro ucast_ptr_diff) auto
      then show ?thesis using A1 C1 A2 C2 e a m1 m2
        by (simp add: encode_closure_def encode_env_def Let_def encoded_header_def)
    qed
  qed
qed


text \<open>What an encoding leaves in the slot when its argument bytes overflow: at most the captures,
  behind the cursor.\<close>

lemma encode_leaves_memory:
  assumes w: "wf_writer out m" and f: "wf_fn f"
  shows "length (encode_leaves out f m) = length m"
    and "4 \<le> unat (cursor out) \<Longrightarrow> load_flags (encode_leaves out f m) = load_flags m"
proof -
  let ?c = "unat (cursor out)"
  have A: "alloc_aligned out (fn_size f) (fn_align f) =
      (if env_pos ?c f + unat (fn_size f) \<le> length m
       then Ok (out\<lparr> cursor := of_nat (env_pos ?c f + unat (fn_size f)) \<rparr>, base out + of_nat (env_pos ?c f))
       else Panic SlotOverflow)"
    using alloc_aligned_nat[of out "fn_align f" "fn_size f"] w f
    by (simp add: align_of_word_wf[OF f] env_pos_def Let_def wf_writer_def wf_fn_def)
  have "env_pos ?c f < 2 ^ 64" if "env_pos ?c f + unat (fn_size f) \<le> length m"
    using that w by (simp add: wf_writer_def)
  then have "encode_leaves out f m = m \<or> write_at (env_pos ?c f) (fn_env f) m = Some (encode_leaves out f m)"
    by (cases "write_at (env_pos ?c f) (fn_env f) m")
      (auto simp: encode_leaves_def encode_env_def A ptr_write_def copy_to_nat)
  then show "length (encode_leaves out f m) = length m"
    "4 \<le> ?c \<Longrightarrow> load_flags (encode_leaves out f m) = load_flags m"
    using write_at_length load_flags_write_at env_pos_ge[OF f, of ?c] by (fastforce, fastforce)
qed

lemma encode_ok_aligned:
  assumes w: "wf_writer out m" and f: "wf_fn f" and ok: "encode_closure out p f args m = Ok r"
  shows "base_aligned out f"
  using encode_closure_misaligned[OF w f, of p args] encode_closure_env_overflow[OF w f, of p args] ok
  by (cases "env_pos (unat (cursor out)) f + unat (fn_size f) \<le> length m") auto

text \<open>The memory after an encoding, relative to the memory before.\<close>

definition encoded_in :: "SlotWriter \<Rightarrow> fn_value \<Rightarrow> u8 list \<Rightarrow> u8 list \<Rightarrow> u8 list \<Rightarrow> bool" where
  "encoded_in out f args m m' \<longleftrightarrow>
     (let c = unat (cursor out); e = env_pos c f; a = args_pos c f (length args)
      in length m' = length m \<and> a + length args \<le> length m \<and>
         read_at e (unat (fn_size f)) m' = Some (fn_env f) \<and>
         read_at a (length args) m' = Some args \<and>
         (\<forall>off k. off + k \<le> c \<longrightarrow> read_at off k m' = read_at off k m) \<and>
         (4 \<le> c \<longrightarrow> load_flags m' = load_flags m))"

lemma encode_closure_memory:
  assumes w: "wf_writer out m" and f: "wf_fn f" and n: "length args < 2 ^ 63"
    and ok: "encode_closure out p f args m = Ok (out', m', hdr)"
  shows "encoded_in out f args m m'"
    and "hdr = encoded_header out p f (length args)"
    and "unat (cursor out') = args_pos (unat (cursor out)) f (length args) + length args"
    and "base out' = base out" and "len out' = len out"
proof -
  let ?c = "unat (cursor out)" and ?s = "unat (fn_size f)" and ?n = "length args"
  let ?e = "env_pos ?c f" and ?a = "args_pos ?c f ?n"
  have al: "length (fn_env f) = ?s" using f by (simp add: wf_fn_def)
  have a: "?a + ?n \<le> length m"
    and m': "m' = the (write_at ?a args (the (write_at ?e (fn_env f) m)))"
    and out': "out' = out\<lparr> cursor := of_nat (?a + ?n) \<rparr>"
    and hdr: "hdr = encoded_header out p f ?n"
    using ok unfolding encode_closure_eq[OF w f n encode_ok_aligned[OF w f ok]] Let_def by (auto split: if_splits)
  have e: "?e + ?s \<le> ?a" "?c \<le> ?e" using args_pos_ge env_pos_ge[OF f] by auto
  obtain m1 where m1: "write_at ?e (fn_env f) m = Some m1"
    using a e al write_at_Some_iff[of ?e "fn_env f" m] by auto
  obtain m2 where m2: "write_at ?a args m1 = Some m2"
    using a write_at_Some_iff[of ?a args m1] write_at_length[OF m1] by auto
  have m'2: "m' = m2" using m' m1 m2 by simp
  show "encoded_in out f args m m'"
    unfolding encoded_in_def Let_def m'2
  proof (intro conjI allI impI)
    show "length m2 = length m" using write_at_length[OF m1] write_at_length[OF m2] by simp
    show "read_at ?e ?s m2 = Some (fn_env f)"
      using read_at_write_before[OF m2, of ?e ?s] read_at_write_same[OF m1, of ?s] e al by simp
    show "read_at ?a ?n m2 = Some args" using read_at_write_same[OF m2] by simp
    show "read_at off k m2 = read_at off k m" if "off + k \<le> ?c" for off k
      using that e read_at_write_before[OF m2, of off k] read_at_write_before[OF m1, of off k] by simp
    show "load_flags m2 = load_flags m" if "4 \<le> ?c"
      using that e load_flags_write_at[OF m1] load_flags_write_at[OF m2] by simp
  qed (use a in simp)
  show "hdr = encoded_header out p f ?n" by (rule hdr)
  show "base out' = base out" "len out' = len out" by (simp_all add: out')
  have "?a + ?n < 2 ^ 64" using a w by (auto simp: wf_writer_def)
  then show "unat (cursor out') = ?a + ?n"
    by (simp add: out' unsigned_of_nat take_bit_nat_eq_self del: of_nat_add)
qed

lemma decode_and_call_encoded:
  assumes f: "wf_fn f" and b: "base_aligned out f"
    and v: "vtables (fn_vtable f) = Some (VTABLE (fn_size f) (fn_align f) code)"
    and r: "read_at (env_pos (unat (cursor out)) f) (unat (fn_size f)) m = Some (fn_env f)"
    and e: "env_pos (unat (cursor out)) f < 2 ^ 64"
    and h: "closure hdr = closure (encoded_header out p f n)"
  shows "decode_and_call vtables (base out) m hdr x = code (fn_env f) x"
proof (cases "fn_size f = 0")
  case True
  then have "fn_env f = []" using read_at_length[OF r] by simp
  then show ?thesis using True v h
    by (simp add: decode_and_call_def encoded_header_def VTABLE_def call_once_shim_def)
next
  case False
  then show ?thesis using v h r b unat_ptr_diff[OF e, of "base out"] env_aligned_iff[OF f]
    by (simp add: decode_and_call_def encoded_header_def VTABLE_def call_once_shim_def ptr_read_def
        base_aligned_def)
qed

lemma args_slice_encoded:
  assumes "encoded_in out f args m m'" "length m \<le> 2 ^ 31"
  shows "read_at (unat (args_offset (encoded_header out p f (length args))))
           (unat (args_len (encoded_header out p f (length args)))) m' = Some args"
  using assms
  by (auto simp: encoded_in_def Let_def encoded_header_def unsigned_of_nat take_bit_nat_eq_self)

section \<open>Packing several closures\<close>

lemma encoded_writer_wf:
  assumes w: "wf_writer out m" and f: "wf_fn f" and n: "length args < 2 ^ 63"
    and ok: "encode_closure out p f args m = Ok (out', m', hdr)"
  shows "wf_writer out' m'" and "unat (cursor out) \<le> unat (cursor out')"
proof -
  note mem = encode_closure_memory[OF w f n ok]
  have "length m' = length m" "args_pos (unat (cursor out)) f (length args) + length args \<le> length m"
    using mem(1) by (auto simp: encoded_in_def Let_def)
  then show "wf_writer out' m'" using mem w by (simp add: wf_writer_def)
  show "unat (cursor out) \<le> unat (cursor out')"
    using mem(3) env_pos_ge[OF f, of "unat (cursor out)"] args_pos_ge[of "unat (cursor out)" f "length args"]
    by linarith
qed

section \<open>Properties\<close>

text \<open>A closure of eight captured bytes, encoded behind a header in a fresh slot: the input of
  the witnesses below.\<close>

definition sample_fn :: fn_value where
  "sample_fn = \<lparr> fn_size = 8, fn_align = 8, fn_env = [1, 2, 3, 4, 5, 6, 7, 8], fn_vtable = 0x5000 \<rparr>"

definition sample_writer :: SlotWriter where
  "sample_writer = \<lparr> base = 0x10000, len = SLOT_BYTES, cursor = 48 \<rparr>"

definition sample_mem :: "u8 list" where
  "sample_mem = replicate 1152 0"

lemma valid_align_eight [simp]: "valid_align 8"
  unfolding valid_align_def by (intro disjI2 exI[of _ 3]) simp

lemma sample_wf: "wf_fn sample_fn" "wf_writer sample_writer sample_mem"
  by (simp_all add: wf_fn_def sample_fn_def wf_writer_def sample_writer_def sample_mem_def)

lemma sample_fits:
  "args_pos (unat (cursor sample_writer)) sample_fn (length [7, 9 :: u8]) + length [7, 9 :: u8]
     \<le> length sample_mem"
  by (simp add: env_pos_def args_pos_def boundary_offset_def sample_fn_def align_up_def
      sample_writer_def sample_mem_def)

lemma sample_aligned: "base_aligned sample_writer sample_fn"
  by (simp add: base_aligned_def sample_fn_def sample_writer_def)

lemma sample_encodes:
  obtains out' m' hdr where
    "encode_closure sample_writer CallMutOutPtr sample_fn [7, 9] sample_mem = Ok (out', m', hdr)"
  using encode_closure_eq[OF sample_wf(2,1) _ sample_aligned, of "[7, 9]" CallMutOutPtr] sample_fits
  by (auto simp: Let_def)

text \<open>C34. The outcome of encoding a closure, for every slot, closure and argument bytes: a slot
  overflow panic exactly when the captures, or the argument bytes behind them, placed by the
  allocation rule end outside the slot; a misaligned store exactly when the captures fit but
  the slot's address is not aligned for their type; otherwise it succeeds. It never writes out
  of bounds.\<close>

theorem encode_closure_total:
  assumes "wf_writer out m" "wf_fn f" "length args < 2 ^ 63"
  shows "((\<exists>r. encode_closure out p f args m = Ok r) \<longleftrightarrow>
          base_aligned out f \<and> args_pos (unat (cursor out)) f (length args) + length args \<le> length m) \<and>
         (encode_closure out p f args m = UB Misaligned \<longleftrightarrow>
          \<not> base_aligned out f \<and> env_pos (unat (cursor out)) f + unat (fn_size f) \<le> length m) \<and>
         (encode_closure out p f args m = Panic SlotOverflow \<longleftrightarrow>
          length m < env_pos (unat (cursor out)) f + unat (fn_size f) \<or>
          base_aligned out f \<and> length m < args_pos (unat (cursor out)) f (length args) + length args)"
proof (cases "base_aligned out f")
  case True
  then show ?thesis
    using args_pos_ge[of "unat (cursor out)" f "length args"]
    by (auto simp: encode_closure_eq[OF assms] Let_def)
next
  case False
  then show ?thesis
    using encode_closure_misaligned[OF assms(1,2), of p args]
      encode_closure_env_overflow[OF assms(1,2), of p args]
    by (cases "env_pos (unat (cursor out)) f + unat (fn_size f) \<le> length m") auto
qed

theorem encode_closure_total_witness:
  "(\<exists>r. encode_closure sample_writer CallMutOutPtr sample_fn [7, 9] sample_mem = Ok r) \<and>
   encode_closure (sample_writer\<lparr> base := 0x10004 \<rparr>) CallMutOutPtr sample_fn [7, 9] sample_mem = UB Misaligned"
proof -
  have w: "wf_writer (sample_writer\<lparr> base := 0x10004 \<rparr>) sample_mem"
    and b: "\<not> base_aligned (sample_writer\<lparr> base := 0x10004 \<rparr>) sample_fn"
    using sample_wf(2) by (simp_all add: wf_writer_def base_aligned_def sample_fn_def)
  have e: "env_pos (unat (cursor (sample_writer\<lparr> base := 0x10004 \<rparr>))) sample_fn + unat (fn_size sample_fn)
      \<le> length sample_mem"
    using sample_fits args_pos_ge[of "unat (cursor sample_writer)" sample_fn "length [7, 9 :: u8]"] by simp
  have l: "length [7, 9 :: u8] < 2 ^ 63" by simp
  show ?thesis
    using encode_closure_total[OF sample_wf(2,1) l, of CallMutOutPtr]
      encode_closure_total[OF w sample_wf(1) l, of CallMutOutPtr] sample_aligned sample_fits b e by blast
qed

lemma encode_succeeds:
  assumes "wf_writer out m" "wf_fn f" "length args < 2 ^ 63" "base_aligned out f"
    and "args_pos (unat (cursor out)) f (length args) + length args \<le> length m"
  obtains out' m' hdr where "encode_closure out p f args m = Ok (out', m', hdr)"
  using assms(5) that unfolding encode_closure_eq[OF assms(1-4)] by (auto simp: Let_def)

lemma encoded_call:
  assumes "wf_writer out m" "wf_fn f" "length args < 2 ^ 63"
    and "encode_closure out p f args m = Ok (out', m', hdr)"
    and "vtables (fn_vtable f) = Some (VTABLE (fn_size f) (fn_align f) code)"
  shows "decode_and_call vtables (base out) m' hdr x = code (fn_env f) x \<and>
         read_at (unat (args_offset hdr)) (unat (args_len hdr)) m' = Some args"
proof -
  note mem = encode_closure_memory[OF assms(1-4)]
  let ?c = "unat (cursor out)"
  have L: "length m \<le> 2 ^ 31" using assms(1) by (simp add: wf_writer_def)
  have r: "read_at (env_pos ?c f) (unat (fn_size f)) m' = Some (fn_env f)"
    and a: "args_pos ?c f (length args) + length args \<le> length m"
    using mem(1) by (auto simp: encoded_in_def Let_def)
  have "env_pos ?c f < 2 ^ 64" using a L args_pos_ge[of ?c f "length args"] by simp
  then show ?thesis
    using decode_and_call_encoded[where vtables = vtables and f = f and code = code, OF assms(2) encode_ok_aligned[OF assms(1,2,4)] assms(5) r]
      args_slice_encoded[OF mem(1) L] mem(2) by simp
qed

text \<open>C32. Encoding then calling: a header produced by the encoder, called on the memory it was
  encoded into through the vtable of its closure type, runs the closure's code on exactly the
  captures it was given, and the argument slice found through the header is exactly the
  argument bytes.\<close>

theorem encode_then_call:
  assumes "wf_writer out m" "wf_fn f" "length args < 2 ^ 63"
    and "encode_closure out p f args m = Ok (out', m', hdr)"
    and "vtables (fn_vtable f) = Some (VTABLE (fn_size f) (fn_align f) code)"
  shows "decode_and_call vtables (base out) m' hdr x = code (fn_env f) x \<and>
         read_at (unat (args_offset hdr)) (unat (args_len hdr)) m' = Some args"
  using assms by (rule encoded_call[where vtables = vtables and f = f])

theorem encode_then_call_witness:
  "\<exists>out' m' hdr. encode_closure sample_writer CallMutOutPtr sample_fn [7, 9] sample_mem = Ok (out', m', hdr) \<and>
     decode_and_call (\<lambda>a. if a = 0x5000 then Some (VTABLE 8 8 (\<lambda>env x. Ok (env, x :: nat))) else None)
       0x10000 m' hdr 5 = Ok ([1, 2, 3, 4, 5, 6, 7, 8], 5) \<and>
     read_at (unat (args_offset hdr)) (unat (args_len hdr)) m' = Some [7, 9]"
proof -
  obtain out' m' hdr where ok:
      "encode_closure sample_writer CallMutOutPtr sample_fn [7, 9] sample_mem = Ok (out', m', hdr)"
    by (rule sample_encodes)
  let ?vt = "\<lambda>a. if a = 0x5000 then Some (VTABLE 8 8 (\<lambda>env x. Ok (env, x :: nat))) else None"
  have "?vt (fn_vtable sample_fn) = Some (VTABLE (fn_size sample_fn) (fn_align sample_fn) (\<lambda>env x. Ok (env, x :: nat)))"
    by (simp add: sample_fn_def)
  from encode_then_call[where vtables = ?vt, OF sample_wf(2,1) _ ok this, of 5] ok show ?thesis
    by (simp add: sample_fn_def sample_writer_def)
qed

text \<open>C35. Where the encoder writes: captures and arguments lie after the cursor and inside the
  slot, do not overlap, do not straddle the block boundary, the captures are at a multiple of
  their alignment from the slot's start, and everything before the cursor - the record header
  and the flag word - keeps its bytes.\<close>

theorem encode_closure_regions:
  assumes "wf_writer out m" "wf_fn f" "length args < 2 ^ 63"
    and "encode_closure out p f args m = Ok (out', m', hdr)"
  shows "\<exists>e a. unat (cursor out) \<le> e \<and> e + unat (fn_size f) \<le> a \<and>
     a + length args = unat (cursor out') \<and> unat (cursor out') \<le> length m \<and> length m' = length m \<and>
     unat (fn_align f) dvd e \<and>
     (e + unat (fn_size f) \<le> 128 \<or> 128 \<le> e) \<and> (a + length args \<le> 128 \<or> 128 \<le> a) \<and>
     read_at e (unat (fn_size f)) m' = Some (fn_env f) \<and> read_at a (length args) m' = Some args \<and>
     (\<forall>off k. off + k \<le> unat (cursor out) \<longrightarrow> read_at off k m' = read_at off k m) \<and>
     (4 \<le> unat (cursor out) \<longrightarrow> load_flags m' = load_flags m)"
proof -
  note mem = encode_closure_memory[OF assms]
  let ?c = "unat (cursor out)" let ?e = "env_pos ?c f" let ?a = "args_pos ?c f (length args)"
  have al: "0 < unat (fn_align f)" using assms(2) by (simp add: wf_fn_def)
  have e: "admissible_offset ?c (unat (fn_size f)) (unat (fn_align f)) ?e"
    unfolding env_pos_def by (rule boundary_offset_admissible[OF al])
  have a: "admissible_offset (?e + unat (fn_size f)) (length args) 1 ?a"
    unfolding args_pos_def by (rule boundary_offset_admissible) simp
  show ?thesis
    using e a mem(1,3) unfolding admissible_offset_def encoded_in_def Let_def
    by (intro exI[of _ ?e] exI[of _ ?a]) simp
qed

theorem encode_closure_regions_witness:
  "\<exists>out' m' hdr e a. encode_closure sample_writer CallMutOutPtr sample_fn [7, 9] sample_mem = Ok (out', m', hdr) \<and>
     48 \<le> e \<and> e + 8 \<le> a \<and> a + 2 = unat (cursor out') \<and> load_flags m' = load_flags sample_mem"
proof -
  obtain out' m' hdr where ok:
      "encode_closure sample_writer CallMutOutPtr sample_fn [7, 9] sample_mem = Ok (out', m', hdr)"
    by (rule sample_encodes)
  have l: "length [7, 9 :: u8] < 2 ^ 63" by simp
  have s: "unat (fn_size sample_fn) = 8" "unat (cursor sample_writer) = 48"
    by (simp_all add: sample_fn_def sample_writer_def)
  from encode_closure_regions[OF sample_wf(2,1) l ok] ok s show ?thesis by auto
qed

text \<open>A slot can hold several closures: after a second closure is encoded with the writer
  the first encoding returned, the first one still runs on its own captures.\<close>

lemma encode_two_closures:
  assumes "wf_writer out m" "wf_fn f" "length args < 2 ^ 63"
    and "encode_closure out p f args m = Ok (out1, m1, hdr1)"
    and "wf_fn g" "length args' < 2 ^ 63"
    and "encode_closure out1 q g args' m1 = Ok (out2, m2, hdr2)"
    and "vtables (fn_vtable f) = Some (VTABLE (fn_size f) (fn_align f) code)"
  shows "decode_and_call vtables (base out) m2 hdr1 x = code (fn_env f) x"
proof -
  note mem = encode_closure_memory[OF assms(1-4)]
  note mem2 = encode_closure_memory[OF encoded_writer_wf(1)[OF assms(1-4)] assms(5-7)]
  let ?c = "unat (cursor out)" let ?e = "env_pos ?c f" let ?s = "unat (fn_size f)"
  have L: "length m \<le> 2 ^ 31" using assms(1) by (simp add: wf_writer_def)
  have a: "args_pos ?c f (length args) + length args \<le> length m"
    and r: "read_at ?e ?s m1 = Some (fn_env f)"
    using mem(1) by (auto simp: encoded_in_def Let_def)
  have "?e + ?s \<le> unat (cursor out1)" using mem(3) args_pos_ge[of ?c f "length args"] by linarith
  then have "read_at ?e ?s m2 = read_at ?e ?s m1"
    using mem2(1) by (simp add: encoded_in_def Let_def)
  moreover have "?e < 2 ^ 64" using a L args_pos_ge[of ?c f "length args"] by simp
  ultimately show ?thesis
    using decode_and_call_encoded[where vtables = vtables and f = f and code = code,
        OF assms(2) encode_ok_aligned[OF assms(1,2,4)] assms(8)] r mem(2) by simp
qed

text \<open>The argument bytes start right behind the captures unless they would straddle the
  block boundary there, in which case they start the trailing block: the documented layout
  ("immediately following env") does not hold for them.\<close>

lemma args_placement:
  assumes "wf_writer out m" "wf_fn f" "length args < 2 ^ 63"
    and "encode_closure out p f args m = Ok (out', m', hdr)"
    and "fn_size f \<noteq> 0"
  shows "unat (args_offset hdr) =
     (let e = unat (data (closure hdr) - base out) + unat (fn_size f)
      in if e < 128 \<and> 128 < e + length args then 128 else e)"
proof -
  note mem = encode_closure_memory[OF assms(1-4)]
  let ?c = "unat (cursor out)"
  have "length m \<le> 2 ^ 31" "args_pos ?c f (length args) + length args \<le> length m"
    using mem(1) assms(1) by (auto simp: encoded_in_def Let_def wf_writer_def)
  then have "env_pos ?c f < 2 ^ 64" "args_pos ?c f (length args) < 2 ^ 32"
    using args_pos_ge[of ?c f "length args"] by simp_all
  then have "unat (data (closure hdr) - base out) = env_pos ?c f"
    "unat (args_offset hdr) = args_pos ?c f (length args)"
    using mem(2) assms(5) by (simp_all add: encoded_header_def unsigned_of_nat take_bit_nat_eq_self)
  then show ?thesis by (simp add: args_pos_def boundary_offset_def Let_def)
qed

end
