(* ===== verification/Seg_Queue.thy ===== *)
theory Seg_Queue
  imports Prelude
begin

text \<open>
  The concurrent queue of the crossbeam-queue crate, through which handles reach the worker
  and idle fibers return to their pool. The crate is not part of the repository: its queue
  is a parameter of the model, and what the runtime relies on is the contract below (an
  unbounded first-in first-out queue; \<open>items\<close> is its content, oldest first).
\<close>

locale seg_queue =
  fixes items :: "'q \<Rightarrow> 'a list"
    and push :: "'a \<Rightarrow> 'q \<Rightarrow> 'q"
    and pop :: "'q \<Rightarrow> ('a \<times> 'q) option"
  assumes items_push: "items (push x q) = items q @ [x]"
    and pop_None: "pop q = None \<Longrightarrow> items q = []"
    and pop_Some: "pop q = Some (x, q') \<Longrightarrow> items q = x # items q'"
begin

lemma pop_None_iff: "pop q = None \<longleftrightarrow> items q = []"
  by (cases "pop q") (auto dest: pop_None pop_Some)

lemma pop_Cons: "items q = x # xs \<Longrightarrow> \<exists>q'. pop q = Some (x, q') \<and> items q' = xs"
  by (cases "pop q") (auto dest: pop_None pop_Some)

lemma pop_decreases: "pop q = Some (x, q') \<Longrightarrow> length (items q') < length (items q)"
  by (auto dest: pop_Some)

text \<open>Popping at most \<open>k\<close> items into a list, as a consumer's bounded loop does.\<close>

end

fun take_up_to :: "('q \<Rightarrow> ('a \<times> 'q) option) \<Rightarrow> nat \<Rightarrow> 'q \<Rightarrow> 'a list \<times> 'q" where
  "take_up_to pop 0 q = ([], q)"
| "take_up_to pop (Suc k) q =
     (case pop q of None \<Rightarrow> ([], q)
      | Some (x, q') \<Rightarrow> (let (xs, r) = take_up_to pop k q' in (x # xs, r)))"

lemma take_up_to_None [simp]: "pop q = None \<Longrightarrow> take_up_to pop k q = ([], q)"
  by (cases k) simp_all

context seg_queue
begin

lemma take_up_to_items:
  "take_up_to pop k q = (xs, r) \<Longrightarrow> xs = take k (items q) \<and> items r = drop k (items q)"
proof (induction k arbitrary: q xs r)
  case 0
  then show ?case by simp
next
  case (Suc k)
  show ?case
  proof (cases "pop q")
    case None
    then show ?thesis using Suc.prems pop_None by auto
  next
    case (Some a)
    obtain x q' where a: "a = (x, q')" by force
    obtain ys r' where t: "take_up_to pop k q' = (ys, r')" by force
    have q: "items q = x # items q'" using Some a pop_Some by blast
    show ?thesis using Suc.prems Suc.IH[OF t] Some a t q by auto
  qed
qed

end

text \<open>The contract can be met: a list as the queue.\<close>

definition list_push :: "'a \<Rightarrow> 'a list \<Rightarrow> 'a list" where
  "list_push x q = q @ [x]"

fun list_pop :: "'a list \<Rightarrow> ('a \<times> 'a list) option" where
  "list_pop [] = None"
| "list_pop (x # q) = Some (x, q)"

interpretation list_queue: seg_queue "\<lambda>q. q" list_push list_pop
  by unfold_locales (auto simp: list_push_def elim: list_pop.elims)

end
