(* ===== verification/Runtime_Worker.thy ===== *)
theory Runtime_Worker
  imports Serialization Seg_Queue
begin

text \<open>
  The trustee's worker loop (src/runtime/runtime.rs): registration of channels, the
  round-robin scan over the clients, the execution of request records by kind, launched
  fibers, and the ways the worker ends. One record holds what the worker shares with its
  clients and what is local to it; every operation takes and returns it.
\<close>

section \<open>State\<close>

record ClientPair =
  cp_chan :: nat
  pending_launch :: bool
  launch_req_ready :: bool

text \<open>What the boxed job of a launch captures: the channel whose response it writes, the
  header copied from the record, and the ready bit to answer with.\<close>

record launch_job =
  job_chan :: nat
  job_hdr :: RequestRecordHeader
  job_req_ready :: bool

datatype Job = Execute launch_job | Shutdown

record fiber =
  inbox :: "Job list"
  exited :: bool

text \<open>\<open>Running\<close> is the loop, \<open>Terminating\<close> the join of the fibers after a terminate
  record, \<open>Exited\<close> the end of the worker's closure and \<open>Unwound\<close> its end by a
  panic.\<close>

datatype worker_status = Running | Terminating | Exited | Unwound

record ('t, 'q, 'p) rt =
  chans :: "nat \<Rightarrow> ChannelPair"
  n_chans :: nat
  reg :: 'q
  fiber_pool :: 'p
  fibers :: "nat \<Rightarrow> fiber"
  n_fibers :: nat
  trustee_id :: usize
  trustee_prop :: bool
  prop_cell :: 't
  prop_arcs :: nat
  prop_drops :: nat
  prop_moves :: nat
  clients :: "ClientPair list"
  start_idx :: nat
  idle_rounds :: nat
  loop_counter :: usize
  fiber_handles :: "nat list"
  status :: worker_status

text \<open>A closure run by the trustee gets the property and the memory behind the response
  pointer; it leaves both, and whether it panicked.\<close>

type_synonym 't after = "'t \<times> u8 list \<times> bool"

text \<open>The world outside the sources: the vtables of the program image by address and by
  the argument types they are called with, the bytes of a value of the property's type,
  and the two queues.\<close>

record ('t, 'q, 'p) world =
  vt_mut :: "u64 \<Rightarrow> ('t, 't \<times> bool) ErasedVTable option"
  vt_out :: "u64 \<Rightarrow> ('t \<times> u8 list, 't after) ErasedVTable option"
  vt_args :: "u64 \<Rightarrow> ('t \<times> u8 list \<times> u8 list, 't after) ErasedVTable option"
  prop_bytes :: "'t \<Rightarrow> u8 list"
  reg_push :: "ClientPair \<Rightarrow> 'q \<Rightarrow> 'q"
  reg_pop :: "'q \<Rightarrow> (ClientPair \<times> 'q) option"
  pool_push :: "nat \<Rightarrow> 'p \<Rightarrow> 'p"
  pool_pop :: "'p \<Rightarrow> (nat \<times> 'p) option"

text \<open>Control flow inside the loop body: go on, leave the worker (the state's status says
  how), undefined behaviour, or a search that never ends.\<close>

datatype 's flow = Next 's | Halt 's | Undefined ub | Diverge

section \<open>Memory of a channel as the worker uses it\<close>

definition resp_data :: "ChannelPair \<Rightarrow> u8 list" where
  "resp_data c = drop (unat HEADER_BYTES) (response c)"

definition set_resp_data :: "u8 list \<Rightarrow> ChannelPair \<Rightarrow> ChannelPair" where
  "set_resp_data d c = c\<lparr> response := take (unat HEADER_BYTES) (response c) @ d \<rparr>"

definition set_resp_flags :: "u32 \<Rightarrow> ChannelPair \<Rightarrow> ChannelPair" where
  "set_resp_flags w c = c\<lparr> response := store_flags w (response c) \<rparr>"

definition set_req_flags :: "u32 \<Rightarrow> ChannelPair \<Rightarrow> ChannelPair" where
  "set_req_flags w c = c\<lparr> request := store_flags w (request c) \<rparr>"

definition upd_chan :: "nat \<Rightarrow> (ChannelPair \<Rightarrow> ChannelPair) \<Rightarrow> ('t, 'q, 'p) rt \<Rightarrow> ('t, 'q, 'p) rt" where
  "upd_chan i g s = s\<lparr> chans := (chans s)(i := g (chans s i)) \<rparr>"

definition upd_client ::
    "nat \<Rightarrow> (ClientPair \<Rightarrow> ClientPair) \<Rightarrow> ('t, 'q, 'p) rt \<Rightarrow> ('t, 'q, 'p) rt" where
  "upd_client idx g s = s\<lparr> clients := (clients s)[idx := g (clients s ! idx)] \<rparr>"

section \<open>Registration\<close>

definition new_client_pair :: "nat \<Rightarrow> ClientPair" where
  "new_client_pair c = \<lparr> cp_chan = c, pending_launch = False, launch_req_ready = False \<rparr>"

definition register :: "('t, 'q, 'p) world \<Rightarrow> nat \<Rightarrow> ('t, 'q, 'p) rt \<Rightarrow> ('t, 'q, 'p) rt" where
  "register X c s = s\<lparr> reg := reg_push X (new_client_pair c) (reg s) \<rparr>"

fun drain :: "('t, 'q, 'p) world \<Rightarrow> nat \<Rightarrow> ('t, 'q, 'p) rt \<Rightarrow> ('t, 'q, 'p) rt" where
  "drain X 0 s = s"
| "drain X (Suc k) s =
     (case reg_pop X (reg s) of
        Some (cp, q) \<Rightarrow> drain X k (s\<lparr> reg := q, clients := clients s @ [cp] \<rparr>)
      | None \<Rightarrow> s)"

definition DRAIN_CHUNK :: nat where "DRAIN_CHUNK = 256"

section \<open>Ownership of the property\<close>

text \<open>Dropping one strong reference to the property; the last one runs the destructor of
  the value.\<close>

definition drop_prop_arc :: "('t, 'q, 'p) rt \<Rightarrow> ('t, 'q, 'p) rt" where
  "drop_prop_arc s =
     (let s' = s\<lparr> prop_arcs := prop_arcs s - 1 \<rparr>
      in if prop_arcs s = 1 then s'\<lparr> prop_drops := Suc (prop_drops s) \<rparr> else s')"

definition clone_prop_arc :: "('t, 'q, 'p) rt \<Rightarrow> ('t, 'q, 'p) rt" where
  "clone_prop_arc s = s\<lparr> prop_arcs := Suc (prop_arcs s) \<rparr>"

text \<open>Leaving the worker's closure drops its locals, the property's reference among them.\<close>

definition leave_worker :: "worker_status \<Rightarrow> ('t, 'q, 'p) rt \<Rightarrow> ('t, 'q, 'p) rt" where
  "leave_worker st s = (drop_prop_arc s)\<lparr> status := st, clients := [], fiber_handles := [] \<rparr>"

definition unwind :: "('t, 'q, 'p) rt \<Rightarrow> ('t, 'q, 'p) rt" where
  "unwind s = leave_worker Unwound s"

section \<open>Executing records\<close>

fun repeat_call ::
    "('t, 'q, 'p) world \<Rightarrow> RequestRecordHeader \<Rightarrow> ChannelPair \<Rightarrow> nat \<Rightarrow> 't \<Rightarrow> ('t \<times> bool) outcome" where
  "repeat_call X hdr c 0 t = Ok (t, False)"
| "repeat_call X hdr c (Suc n) t =
     obind (decode_and_call (vt_mut X) (request_base c) (request c) hdr t)
       (\<lambda>(t', panicked). if panicked then Ok (t', True) else repeat_call X hdr c n t')"

definition serve_CallMutRetUnit ::
    "('t, 'q, 'p) world \<Rightarrow> nat \<Rightarrow> RequestRecordHeader \<Rightarrow> ('t, 'q, 'p) rt \<Rightarrow>
     (('t, 'q, 'p) rt \<times> bool) flow" where
  "serve_CallMutRetUnit X i hdr s =
     (case repeat_call X hdr (chans s i) (unat (repeat_count hdr)) (prop_cell s) of
        Ok (t, panicked) \<Rightarrow>
          (let s' = s\<lparr> prop_cell := t \<rparr> in if panicked then Halt (unwind s', False) else Next (s', False))
      | Panic p \<Rightarrow> Halt (unwind s, False)
      | UB u \<Rightarrow> Undefined u)"

text \<open>The end of a call that may write the response: its effects are kept, and a panic
  unwinds the worker.\<close>

definition after_call ::
    "nat \<Rightarrow> ('t, 'q, 'p) rt \<Rightarrow> 't after outcome \<Rightarrow> (('t, 'q, 'p) rt \<times> bool) flow" where
  "after_call i s r =
     (case r of
        Ok (t, d, panicked) \<Rightarrow>
          (let s' = upd_chan i (set_resp_data d) (s\<lparr> prop_cell := t \<rparr>)
           in if panicked then Halt (unwind s', False) else Next (s', False))
      | Panic p \<Rightarrow> Halt (unwind s, False)
      | UB u \<Rightarrow> Undefined u)"

definition serve_CallMutOutPtr ::
    "('t, 'q, 'p) world \<Rightarrow> nat \<Rightarrow> RequestRecordHeader \<Rightarrow> ('t, 'q, 'p) rt \<Rightarrow>
     (('t, 'q, 'p) rt \<times> bool) flow" where
  "serve_CallMutOutPtr X i hdr s =
     (let c = chans s i
      in after_call i s
           (decode_and_call (vt_out X) (request_base c) (request c) hdr (prop_cell s, resp_data c)))"

definition serve_CallMutArgsOutPtr ::
    "('t, 'q, 'p) world \<Rightarrow> nat \<Rightarrow> RequestRecordHeader \<Rightarrow> ('t, 'q, 'p) rt \<Rightarrow>
     (('t, 'q, 'p) rt \<times> bool) flow" where
  "serve_CallMutArgsOutPtr X i hdr s =
     (let c = chans s i
      in after_call i s
           (obind (of_option OutOfBounds
                     (read_at (unat (args_offset hdr)) (unat (args_len hdr)) (request c)))
              (\<lambda>bytes. decode_and_call (vt_args X) (request_base c) (request c) hdr
                         (prop_cell s, resp_data c, bytes))))"

definition serve_IntoInner ::
    "('t, 'q, 'p) world \<Rightarrow> nat \<Rightarrow> ('t, 'q, 'p) rt \<Rightarrow> (('t, 'q, 'p) rt \<times> bool) flow" where
  "serve_IntoInner X i s =
     (case write_at 0 (prop_bytes X (prop_cell s)) (resp_data (chans s i)) of
        None \<Rightarrow> Undefined OutOfBounds
      | Some d \<Rightarrow>
          (let s' = upd_chan i (set_resp_data d) (s\<lparr> prop_moves := Suc (prop_moves s) \<rparr>);
               req_ready_now = ready (load_flags (request (chans s' i)));
               new_word = pack_ready_count req_ready_now 1
           in Halt (leave_worker Exited (upd_chan i (set_resp_flags new_word) s'), False)))"

section \<open>Launches\<close>

text \<open>The channel of a fiber is a first-in first-out queue of jobs.\<close>

definition inbox_push :: "Job \<Rightarrow> fiber \<Rightarrow> fiber" where
  "inbox_push job f = f\<lparr> inbox := inbox f @ [job] \<rparr>"

definition inbox_pop :: "fiber \<Rightarrow> (Job \<times> fiber) option" where
  "inbox_pop f = (case inbox f of [] \<Rightarrow> None | job # rest \<Rightarrow> Some (job, f\<lparr> inbox := rest \<rparr>))"

interpretation fiber_inbox: seg_queue inbox inbox_push inbox_pop
  by unfold_locales (auto simp: inbox_push_def inbox_pop_def split: list.splits)

definition send_job :: "nat \<Rightarrow> Job \<Rightarrow> ('t, 'q, 'p) rt \<Rightarrow> ('t, 'q, 'p) rt option" where
  "send_job tx job s =
     (if exited (fibers s tx) then None
      else Some (s\<lparr> fibers := (fibers s)(tx := inbox_push job (fibers s tx)) \<rparr>))"

definition spawn_fiber :: "Job \<Rightarrow> ('t, 'q, 'p) rt \<Rightarrow> ('t, 'q, 'p) rt" where
  "spawn_fiber job s =
     s\<lparr> fibers := (fibers s)(n_fibers s := \<lparr> inbox = [job], exited = False \<rparr>),
        n_fibers := Suc (n_fibers s),
        fiber_handles := fiber_handles s @ [n_fibers s] \<rparr>"

partial_function (option) dispatch_job ::
    "('t, 'q, 'p) world \<Rightarrow> Job \<Rightarrow> ('t, 'q, 'p) rt \<Rightarrow> ('t, 'q, 'p) rt option" where
  "dispatch_job X job s =
     (case pool_pop X (fiber_pool s) of
        Some (tx, p) \<Rightarrow>
          (let s1 = s\<lparr> fiber_pool := p \<rparr>
           in (case send_job tx job s1 of
                 Some s2 \<Rightarrow> Some s2
               | None \<Rightarrow> dispatch_job X job s1))
      | None \<Rightarrow> Some (spawn_fiber job s))"

definition serve_Launch ::
    "('t, 'q, 'p) world \<Rightarrow> nat \<Rightarrow> nat \<Rightarrow> bool \<Rightarrow> RequestRecordHeader \<Rightarrow> ('t, 'q, 'p) rt \<Rightarrow>
     (('t, 'q, 'p) rt \<times> bool) flow" where
  "serve_Launch X idx i req_ready hdr s =
     (let s1 = upd_client idx (\<lambda>cp. cp\<lparr> pending_launch := True, launch_req_ready := req_ready \<rparr>) s;
          s2 = clone_prop_arc s1;
          job = Execute \<lparr> job_chan = i, job_hdr = hdr, job_req_ready = req_ready \<rparr>
      in case dispatch_job X job s2 of
           Some s3 \<Rightarrow> Next (s3, True)
         | None \<Rightarrow> Diverge)"

text \<open>A terminate record: the worker leaves the loop for the join of its fibers.\<close>

definition serve_Terminate :: "('t, 'q, 'p) rt \<Rightarrow> (('t, 'q, 'p) rt \<times> bool) flow" where
  "serve_Terminate s = Halt (s\<lparr> status := Terminating \<rparr>, False)"

definition dispatch_record ::
    "('t, 'q, 'p) world \<Rightarrow> nat \<Rightarrow> nat \<Rightarrow> bool \<Rightarrow> RequestRecordHeader \<Rightarrow> ('t, 'q, 'p) rt \<Rightarrow>
     (('t, 'q, 'p) rt \<times> bool) flow" where
  "dispatch_record X idx i req_ready hdr s =
     (case property_ptr hdr of
        CallMutRetUnit \<Rightarrow> serve_CallMutRetUnit X i hdr s
      | CallMutOutPtr \<Rightarrow> serve_CallMutOutPtr X i hdr s
      | CallMutArgsOutPtr \<Rightarrow> serve_CallMutArgsOutPtr X i hdr s
      | IntoInner \<Rightarrow> serve_IntoInner X i s
      | Launch \<Rightarrow> serve_Launch X idx i req_ready hdr s
      | Terminate \<Rightarrow> serve_Terminate s)"

text \<open>The loop over the records of a request: each header is read at the next offset that
  fits it, and the cursor moves past the header.\<close>

fun process_records ::
    "('t, 'q, 'p) world \<Rightarrow> nat \<Rightarrow> nat \<Rightarrow> bool \<Rightarrow> nat \<Rightarrow> usize \<Rightarrow> nat \<Rightarrow> bool \<Rightarrow> ('t, 'q, 'p) rt \<Rightarrow>
     (('t, 'q, 'p) rt \<times> nat \<times> bool) flow" where
  "process_records X idx i req_ready 0 header_cursor processed deferred s =
     Next (s, processed, deferred)"
| "process_records X idx i req_ready (Suc k) header_cursor processed deferred s =
     (let cur = next_boundary_offset header_cursor size_of_hdr align_of_hdr
      in case read_unaligned (unat size_of_hdr) hdr_of_bytes (unat cur) (request (chans s i)) of
           UB u \<Rightarrow> Undefined u
         | Panic p \<Rightarrow> Halt (unwind s, processed, deferred)
         | Ok hdr \<Rightarrow>
             (case dispatch_record X idx i req_ready hdr s of
                Next (s', d) \<Rightarrow>
                  process_records X idx i req_ready k (cur + size_of_hdr) (Suc processed)
                    (deferred \<or> d) s'
              | Halt (s', d) \<Rightarrow> Halt (s', processed, deferred)
              | Undefined u \<Rightarrow> Undefined u
              | Diverge \<Rightarrow> Diverge))"

section \<open>Visiting a client\<close>

text \<open>What the pending-launch check decides before a request is considered: the client's
  new state, and whether to go on with the visit.\<close>

definition launch_gate :: "bool \<Rightarrow> bool \<Rightarrow> ClientPair \<Rightarrow> ClientPair \<times> bool" where
  "launch_gate req_ready resp_ready cp =
     (if pending_launch cp then
        (if req_ready = resp_ready then (cp\<lparr> pending_launch := False \<rparr>, True)
         else if req_ready \<noteq> launch_req_ready cp then (cp\<lparr> pending_launch := False \<rparr>, True)
         else (cp, False))
      else (cp, True))"

definition finish_request ::
    "nat \<Rightarrow> bool \<Rightarrow> nat \<Rightarrow> bool \<Rightarrow> ('t, 'q, 'p) rt \<Rightarrow> ('t, 'q, 'p) rt" where
  "finish_request i req_ready processed deferred s =
     (if deferred then s
      else upd_chan i (set_resp_flags (pack_ready_count req_ready (of_nat processed))) s)"

text \<open>One visit; the flag says whether a request was served.\<close>

definition visit ::
    "('t, 'q, 'p) world \<Rightarrow> nat \<Rightarrow> nat \<Rightarrow> ('t, 'q, 'p) rt \<Rightarrow> (('t, 'q, 'p) rt \<times> bool) flow" where
  "visit X n idx s =
     (if length (clients s) \<le> idx then Halt (unwind s, False)
      else
        let cp = clients s ! idx;
            i = cp_chan cp;
            req_word = load_flags (request (chans s i));
            resp_word = load_flags (response (chans s i));
            req_ready = ready req_word;
            resp_ready = ready resp_word;
            (cp', go) = launch_gate req_ready resp_ready cp;
            s1 = upd_client idx (\<lambda>_. cp') s
        in if \<not> go \<or> req_ready = resp_ready then Next (s1, False)
           else
             (case process_records X idx i req_ready (unat (count req_word)) HEADER_BYTES 0 False s1 of
                Next (s2, processed, deferred) \<Rightarrow>
                  Next ((finish_request i req_ready processed deferred s2)
                          \<lparr> start_idx := (idx + 1) mod n \<rparr>, True)
              | Halt (s2, _, _) \<Rightarrow> Halt (s2, False)
              | Undefined u \<Rightarrow> Undefined u
              | Diverge \<Rightarrow> Diverge))"

section \<open>A round of the loop\<close>

text \<open>The scan: offsets 0 to n - 1 from the current start index, which a served client
  moves on.\<close>

definition scan_index :: "nat \<Rightarrow> nat \<Rightarrow> nat \<Rightarrow> nat" where
  "scan_index n start offs = (let idx = start + offs in if n \<le> idx then idx - n else idx)"

fun scan ::
    "('t, 'q, 'p) world \<Rightarrow> nat \<Rightarrow> nat list \<Rightarrow> bool \<Rightarrow> ('t, 'q, 'p) rt \<Rightarrow>
     (('t, 'q, 'p) rt \<times> bool) flow" where
  "scan X n [] progressed s = Next (s, progressed)"
| "scan X n (offs # os) progressed s =
     (case visit X n (scan_index n (start_idx s) offs) s of
        Next (s', served) \<Rightarrow> scan X n os (progressed \<or> served) s'
      | Halt (s', _) \<Rightarrow> Halt (s', progressed)
      | Undefined u \<Rightarrow> Undefined u
      | Diverge \<Rightarrow> Diverge)"

definition IDLE_SPINS :: nat where "IDLE_SPINS = 8"

definition idle_step :: "('t, 'q, 'p) rt \<Rightarrow> ('t, 'q, 'p) rt" where
  "idle_step s =
     (if idle_rounds s < IDLE_SPINS then s\<lparr> idle_rounds := idle_rounds s + 1 \<rparr>
      else s\<lparr> idle_rounds := 0 \<rparr>)"

definition poll_registrations :: "('t, 'q, 'p) world \<Rightarrow> ('t, 'q, 'p) rt \<Rightarrow> ('t, 'q, 'p) rt" where
  "poll_registrations X s =
     (if clients s = [] \<or> unat (loop_counter s) mod 16 = 0 then drain X DRAIN_CHUNK s else s)"

definition worker_round ::
    "('t, 'q, 'p) world \<Rightarrow> ('t, 'q, 'p) rt \<Rightarrow> ('t, 'q, 'p) rt flow" where
  "worker_round X s =
     (let s1 = poll_registrations X (s\<lparr> loop_counter := loop_counter s + 1 \<rparr>)
      in if clients s1 = [] then Next (idle_step s1)
         else
           (let n = length (clients s1)
            in case scan X n [0..<n] False s1 of
                 Next (s2, progressed) \<Rightarrow>
                   Next (if progressed then s2\<lparr> idle_rounds := 0 \<rparr> else idle_step s2)
               | Halt (s2, _) \<Rightarrow> Halt s2
               | Undefined u \<Rightarrow> Undefined u
               | Diverge \<Rightarrow> Diverge))"

section \<open>Pooled fibers\<close>

text \<open>The boxed job: the closure is called on the header copied at dispatch with the
  captures still in the request slot; the completion guard stores the response word whether
  or not the closure panicked, and the job's reference to the property is dropped.\<close>

definition run_launch_job ::
    "('t, 'q, 'p) world \<Rightarrow> launch_job \<Rightarrow> ('t, 'q, 'p) rt \<Rightarrow> ub + (('t, 'q, 'p) rt \<times> bool)" where
  "run_launch_job X job s =
     (let i = job_chan job; c = chans s i;
          finish = (\<lambda>t d panicked.
            let s1 = upd_chan i (set_resp_data d) (s\<lparr> prop_cell := t \<rparr>);
                s2 = upd_chan i (set_resp_flags (pack_ready_count (job_req_ready job) 1)) s1
            in (drop_prop_arc s2, panicked))
      in case decode_and_call (vt_out X) (request_base c) (request c) (job_hdr job)
                (prop_cell s, resp_data c) of
           Ok (t, d, panicked) \<Rightarrow> Inr (finish t d panicked)
         | Panic p \<Rightarrow> Inr (finish (prop_cell s) (resp_data c) True)
         | UB u \<Rightarrow> Inl u)"

definition upd_fiber :: "nat \<Rightarrow> (fiber \<Rightarrow> fiber) \<Rightarrow> ('t, 'q, 'p) rt \<Rightarrow> ('t, 'q, 'p) rt" where
  "upd_fiber f g s = s\<lparr> fibers := (fibers s)(f := g (fibers s f)) \<rparr>"

text \<open>One turn of a pooled fiber's loop: blocked without a message, otherwise the job is
  run and the fiber offers itself to the pool again, or ends on a shutdown or a panic.\<close>

definition fiber_turn ::
    "('t, 'q, 'p) world \<Rightarrow> nat \<Rightarrow> ('t, 'q, 'p) rt \<Rightarrow> ub + ('t, 'q, 'p) rt" where
  "fiber_turn X f s =
     (case inbox_pop (fibers s f) of
        None \<Rightarrow> Inr s
      | Some (msg, fb') \<Rightarrow>
          if exited (fibers s f) then Inr s
          else
            (let s1 = upd_fiber f (\<lambda>_. fb') s
             in case msg of
                  Shutdown \<Rightarrow> Inr (upd_fiber f (\<lambda>fb. fb\<lparr> exited := True \<rparr>) s1)
                | Execute job \<Rightarrow>
                    (case run_launch_job X job s1 of
                       Inl u \<Rightarrow> Inl u
                     | Inr (s2, panicked) \<Rightarrow>
                         if panicked then Inr (upd_fiber f (\<lambda>fb. fb\<lparr> exited := True \<rparr>) s2)
                         else Inr (s2\<lparr> fiber_pool := pool_push X f (fiber_pool s2) \<rparr>))))"

end
