(* ===== verification/Runtime_Facts.thy ===== *)
theory Runtime_Facts
  imports Runtime_Worker
begin

text \<open>
  Facts about the worker loop: what a record's execution leaves alone, what a visit does
  with an idle client, with a launch in flight and with a posted request, and how the
  scan finds a client to serve.
\<close>

section \<open>Frames\<close>

text \<open>What serving client \<open>idx\<close> on channel \<open>i\<close> cannot change while the worker stays in
  its loop.\<close>

definition frame :: "nat \<Rightarrow> nat \<Rightarrow> ('t, 'q, 'p) rt \<Rightarrow> ('t, 'q, 'p) rt \<Rightarrow> bool" where
  "frame idx i s s' \<longleftrightarrow>
     (\<forall>j. j \<noteq> i \<longrightarrow> chans s' j = chans s j) \<and>
     request (chans s' i) = request (chans s i) \<and>
     request_base (chans s' i) = request_base (chans s i) \<and>
     n_chans s' = n_chans s \<and> reg s' = reg s \<and>
     trustee_id s' = trustee_id s \<and> trustee_prop s' = trustee_prop s \<and>
     length (clients s') = length (clients s) \<and>
     (\<forall>k. k \<noteq> idx \<longrightarrow> clients s' ! k = clients s ! k) \<and>
     (idx < length (clients s) \<longrightarrow> cp_chan (clients s' ! idx) = cp_chan (clients s ! idx)) \<and>
     start_idx s' = start_idx s \<and> idle_rounds s' = idle_rounds s \<and>
     loop_counter s' = loop_counter s \<and> status s' = status s"

lemma frame_refl [simp]: "frame idx i s s"
  by (simp add: frame_def)

lemma frame_trans: "frame idx i s s' \<Longrightarrow> frame idx i s' s'' \<Longrightarrow> frame idx i s s''"
  by (auto simp: frame_def)

lemma frame_upd_resp [simp]:
  "frame idx i s (upd_chan i (set_resp_data d) (s\<lparr> prop_cell := t \<rparr>))"
  "frame idx i s (s\<lparr> prop_cell := t \<rparr>)"
  "frame idx i s (upd_chan i (set_resp_flags w) s)"
  "frame idx i s (clone_prop_arc s)"
  "frame idx i s (drop_prop_arc s)"
  by (simp_all add: frame_def upd_chan_def set_resp_data_def set_resp_flags_def
      clone_prop_arc_def drop_prop_arc_def Let_def)

lemma frame_upd_client [simp]:
  "(\<And>cp. cp_chan (g cp) = cp_chan cp) \<Longrightarrow> frame idx i s (upd_client idx g s)"
  by (auto simp: frame_def upd_client_def)

text \<open>Handing a job to a fiber changes the fibers and their pool only.\<close>

lemma send_job_frame:
  "send_job tx job s = Some s' \<Longrightarrow> \<exists>f. s' = s\<lparr> fibers := f \<rparr>"
  by (auto simp: send_job_def split: if_splits)

lemma dispatch_job_frame:
  assumes "dispatch_job X job s = Some s'"
  shows "\<exists>p f n h. s' = s\<lparr> fiber_pool := p, fibers := f, n_fibers := n, fiber_handles := h \<rparr>"
proof (rule dispatch_job.raw_induct
    [where P = "\<lambda>X job s s'. \<exists>p f n h. s' = s\<lparr> fiber_pool := p, fibers := f, n_fibers := n, fiber_handles := h \<rparr>",
      OF _ assms])
  fix disp :: "('t, 'q, 'p) world \<Rightarrow> Job \<Rightarrow> ('t, 'q, 'p) rt \<Rightarrow> ('t, 'q, 'p) rt option"
  fix X :: "('t, 'q, 'p) world" and job s s'
  assume IH: "\<And>X job s s'. disp X job s = Some s' \<Longrightarrow>
      \<exists>p f n h. s' = s\<lparr> fiber_pool := p, fibers := f, n_fibers := n, fiber_handles := h \<rparr>"
    and eq: "(case pool_pop X (fiber_pool s) of
         None \<Rightarrow> Some (spawn_fiber job s)
       | Some (tx, p) \<Rightarrow>
           let s1 = s\<lparr> fiber_pool := p \<rparr>
           in case send_job tx job s1 of None \<Rightarrow> disp X job s1 | Some x \<Rightarrow> Some x) = Some s'"
  show "\<exists>p f n h. s' = s\<lparr> fiber_pool := p, fibers := f, n_fibers := n, fiber_handles := h \<rparr>"
  proof (cases "pool_pop X (fiber_pool s)")
    case None
    then have "s' = s\<lparr> fiber_pool := fiber_pool s, fibers := fibers s', n_fibers := n_fibers s',
        fiber_handles := fiber_handles s' \<rparr>"
      using eq by (auto simp: spawn_fiber_def)
    then show ?thesis by blast
  next
    case (Some a)
    obtain tx p where a: "a = (tx, p)" by force
    let ?s1 = "s\<lparr> fiber_pool := p \<rparr>"
    show ?thesis
    proof (cases "send_job tx job ?s1")
      case None
      then have "disp X job ?s1 = Some s'" using eq Some a by simp
      from IH[OF this] obtain p' f n h
        where "s' = ?s1\<lparr> fiber_pool := p', fibers := f, n_fibers := n, fiber_handles := h \<rparr>"
        by blast
      then show ?thesis by (intro exI[of _ p'] exI[of _ f] exI[of _ n] exI[of _ h]) simp
    next
      case (Some x)
      then have "s' = x" using eq \<open>pool_pop X (fiber_pool s) = Some a\<close> a by simp
      moreover obtain f where "x = ?s1\<lparr> fibers := f \<rparr>" using send_job_frame[OF Some] by blast
      ultimately have "s' = s\<lparr> fiber_pool := p, fibers := f, n_fibers := n_fibers s,
          fiber_handles := fiber_handles s \<rparr>" by simp
      then show ?thesis by blast
    qed
  qed
qed

lemma dispatch_job_frame': "dispatch_job X job s = Some s' \<Longrightarrow> frame idx i s s'"
  using dispatch_job_frame by (fastforce simp: frame_def)

lemma after_call_frame: "after_call i s r = Next (s', d) \<Longrightarrow> frame idx i s s'"
  by (auto simp: after_call_def Let_def split: outcome.splits if_splits)

lemma dispatch_record_frame:
  assumes "dispatch_record X idx i b hdr s = Next (s', d)"
  shows "frame idx i s s'"
proof (cases "property_ptr hdr")
  case CallMutRetUnit
  then show ?thesis using assms
    by (auto simp: dispatch_record_def serve_CallMutRetUnit_def Let_def split: outcome.splits if_splits)
next
  case CallMutOutPtr
  then show ?thesis using assms after_call_frame
    by (fastforce simp: dispatch_record_def serve_CallMutOutPtr_def Let_def)
next
  case CallMutArgsOutPtr
  then show ?thesis using assms after_call_frame
    by (fastforce simp: dispatch_record_def serve_CallMutArgsOutPtr_def Let_def)
next
  case IntoInner
  then show ?thesis using assms
    by (auto simp: dispatch_record_def serve_IntoInner_def Let_def split: option.splits)
next
  case Launch
  let ?s1 = "upd_client idx (\<lambda>cp. cp\<lparr> pending_launch := True, launch_req_ready := b \<rparr>) s"
  obtain job where "dispatch_job X job (clone_prop_arc ?s1) = Some s'"
    using assms Launch by (auto simp: dispatch_record_def serve_Launch_def Let_def split: option.splits)
  then have "frame idx i (clone_prop_arc ?s1) s'" by (rule dispatch_job_frame')
  moreover have "frame idx i s ?s1" by simp
  ultimately show ?thesis by (meson frame_trans frame_upd_resp(4))
next
  case Terminate
  then show ?thesis using assms by (simp add: dispatch_record_def serve_Terminate_def)
qed

lemma process_records_frame:
  "process_records X idx i b k cur pr df s = Next (s', pr', df') \<Longrightarrow> frame idx i s s'"
proof (induction k arbitrary: cur pr df s)
  case 0
  then show ?case by simp
next
  case (Suc k)
  then show ?case
    by (auto simp: Let_def split: outcome.splits flow.splits prod.splits
        intro: frame_trans dispatch_record_frame)
qed

text \<open>The number of records counted is the number read, and a request is answered at once
  unless one of its records was a launch.\<close>

lemma process_records_count:
  "process_records X idx i b k cur pr df s = Next (s', pr', df') \<Longrightarrow> pr' = pr + k"
  by (induction k arbitrary: cur pr df s)
    (fastforce simp: Let_def split: outcome.splits flow.splits prod.splits)+

section \<open>Visits\<close>

definition idle_chan :: "ChannelPair \<Rightarrow> bool" where
  "idle_chan c \<longleftrightarrow> ready (load_flags (request c)) = ready (load_flags (response c))"

text \<open>The client's request is to be served by this visit.\<close>

definition servable :: "('t, 'q, 'p) rt \<Rightarrow> nat \<Rightarrow> bool" where
  "servable s idx \<longleftrightarrow>
     (let cp = clients s ! idx; c = chans s (cp_chan cp)
      in \<not> idle_chan c \<and>
         (pending_launch cp \<longrightarrow> ready (load_flags (request c)) \<noteq> launch_req_ready cp))"

text \<open>A visit without service clears a launch that has been answered and changes nothing
  else.\<close>

definition skip_client :: "nat \<Rightarrow> ('t, 'q, 'p) rt \<Rightarrow> ('t, 'q, 'p) rt" where
  "skip_client idx s =
     (if idle_chan (chans s (cp_chan (clients s ! idx)))
      then upd_client idx (\<lambda>cp. cp\<lparr> pending_launch := False \<rparr>) s else s)"

lemma upd_client_same: "idx < length (clients s) \<Longrightarrow> g (clients s ! idx) = clients s ! idx \<Longrightarrow> upd_client idx g s = s"
  by (simp add: upd_client_def list_update_same_conv[THEN iffD2])

lemma clear_pending_id: "\<not> pending_launch cp \<Longrightarrow> cp\<lparr> pending_launch := False \<rparr> = cp"
  by (cases cp) simp

lemma visit_unserved:
  assumes "idx < length (clients s)" "\<not> servable s idx"
  shows "visit X n idx s = Next (skip_client idx s, False)"
proof -
  have [simp]: "upd_client idx (\<lambda>_. clients s ! idx) s = s"
    by (rule upd_client_same) (use assms in auto)
  have [simp]: "upd_client idx (\<lambda>_. (clients s ! idx)\<lparr> pending_launch := False \<rparr>) s
      = upd_client idx (\<lambda>cp. cp\<lparr> pending_launch := False \<rparr>) s"
    by (simp add: upd_client_def)
  show ?thesis
  proof (cases "pending_launch (clients s ! idx)")
    case True
    then show ?thesis using assms
      by (auto simp: visit_def Let_def launch_gate_def skip_client_def servable_def idle_chan_def)
  next
    case False
    have "upd_client idx (\<lambda>cp. cp\<lparr> pending_launch := False \<rparr>) s = s"
      by (rule upd_client_same) (use assms False in \<open>auto simp: clear_pending_id\<close>)
    then show ?thesis using assms False
      by (auto simp: visit_def Let_def launch_gate_def skip_client_def servable_def idle_chan_def)
  qed
qed

text \<open>The record count and the flag of a request are those of one posted record.\<close>

definition posted :: "ChannelPair \<Rightarrow> bool \<Rightarrow> RequestRecordHeader \<Rightarrow> bool" where
  "posted c b hdr \<longleftrightarrow>
     load_flags (request c) = pack_ready_count b 1 \<and>
     ready (load_flags (response c)) = (\<not> b) \<and>
     read_at 8 40 (request c) = Some (hdr_bytes hdr)"

lemma first_header_offset [simp]:
  "next_boundary_offset HEADER_BYTES 40 8 = 8"
  by (simp add: next_boundary_offset_def HEADER_BYTES_def PRIMARY_BYTES_def)

lemma posted_not_idle: "posted c b hdr \<Longrightarrow> \<not> idle_chan c"
  by (simp add: posted_def idle_chan_def)

definition clear_pending :: "nat \<Rightarrow> ('t, 'q, 'p) rt \<Rightarrow> ('t, 'q, 'p) rt" where
  "clear_pending idx s = upd_client idx (\<lambda>cp. cp\<lparr> pending_launch := False \<rparr>) s"

lemma chans_upd_client [simp]: "chans (upd_client idx g s) = chans s"
  by (simp add: upd_client_def)

lemma chans_clear_pending [simp]: "chans (clear_pending idx s) = chans s"
  by (simp add: clear_pending_def)

lemma process_one:
  assumes "read_at 8 40 (request (chans s i)) = Some (hdr_bytes hdr)"
  shows "process_records X idx i b 1 HEADER_BYTES 0 False s =
    (case dispatch_record X idx i b hdr s of
       Next (s', d) \<Rightarrow> Next (s', 1, d)
     | Halt (s', d) \<Rightarrow> Halt (s', 0, False)
     | Undefined u \<Rightarrow> Undefined u
     | Diverge \<Rightarrow> Diverge)"
  using assms
  by (auto simp: Let_def read_unaligned_def hdr_layout.dec_enc split: flow.splits)

lemma visit_posted:
  assumes idx: "idx < length (clients s)" and i: "i = cp_chan (clients s ! idx)"
    and p: "posted (chans s i) b hdr" and sv: "servable s idx"
  shows "visit X n idx s =
    (case dispatch_record X idx i b hdr (clear_pending idx s) of
       Next (s', d) \<Rightarrow> Next ((finish_request i b 1 d s')\<lparr> start_idx := (idx + 1) mod n \<rparr>, True)
     | Halt (s', _) \<Rightarrow> Halt (s', False)
     | Undefined u \<Rightarrow> Undefined u
     | Diverge \<Rightarrow> Diverge)"
proof -
  let ?cp = "clients s ! idx"
  have fl: "load_flags (request (chans s i)) = pack_ready_count b 1"
    "ready (load_flags (response (chans s i))) = (\<not> b)"
    "read_at 8 40 (request (chans s i)) = Some (hdr_bytes hdr)"
    using p by (auto simp: posted_def)
  have g: "launch_gate b (\<not> b) ?cp = (?cp\<lparr> pending_launch := False \<rparr>, True)"
    using sv i fl by (auto simp: launch_gate_def servable_def Let_def clear_pending_id)
  have u: "upd_client idx (\<lambda>_. ?cp\<lparr> pending_launch := False \<rparr>) s = clear_pending idx s"
    by (simp add: clear_pending_def upd_client_def)
  have c: "chans (clear_pending idx s) i = chans s i"
    by simp
  show ?thesis
    using idx fl g u process_one[of "clear_pending idx s" i hdr X idx b] c
    by (simp add: visit_def Let_def i[symmetric] split: flow.splits)
qed

text \<open>A visit that serves says so, and leaves the client with nothing left to serve: the
  request is answered, or its launch is in flight.\<close>

lemma visit_servable:
  "servable s idx \<Longrightarrow> visit X n idx s = Next (s', b) \<Longrightarrow> b"
  by (auto simp: visit_def Let_def servable_def idle_chan_def launch_gate_def
      split: if_splits flow.splits prod.splits)

definition launched :: "nat \<Rightarrow> bool \<Rightarrow> ('t, 'q, 'p) rt \<Rightarrow> bool" where
  "launched idx b s \<longleftrightarrow> pending_launch (clients s ! idx) \<and> launch_req_ready (clients s ! idx) = b"

lemma dispatch_record_launched:
  assumes "dispatch_record X idx i b hdr s = Next (s', d)" "idx < length (clients s)"
    "launched idx b s \<or> d"
  shows "launched idx b s'"
proof -
  have keep: "launched idx b s' = launched idx b s" if "clients s' = clients s" for s'
    using that by (simp add: launched_def)
  have ac: "clients s' = clients s \<and> \<not> d" if "after_call i s r = Next (s', d)" for r s' d
    using that by (auto simp: after_call_def Let_def upd_chan_def split: outcome.splits if_splits)
  show ?thesis
  proof (cases "property_ptr hdr")
    case CallMutRetUnit
    then have "clients s' = clients s \<and> \<not> d" using assms
      by (auto simp: dispatch_record_def serve_CallMutRetUnit_def Let_def split: outcome.splits if_splits)
    then show ?thesis using assms(3) keep by metis
  next
    case CallMutOutPtr
    then have "clients s' = clients s \<and> \<not> d" using assms ac
      by (auto simp: dispatch_record_def serve_CallMutOutPtr_def Let_def)
    then show ?thesis using assms(3) keep by metis
  next
    case CallMutArgsOutPtr
    then have "clients s' = clients s \<and> \<not> d" using assms ac
      by (auto simp: dispatch_record_def serve_CallMutArgsOutPtr_def Let_def)
    then show ?thesis using assms(3) keep by metis
  next
    case IntoInner
    then show ?thesis using assms
      by (auto simp: dispatch_record_def serve_IntoInner_def Let_def split: option.splits)
  next
    case Launch
    let ?s1 = "upd_client idx (\<lambda>cp. cp\<lparr> pending_launch := True, launch_req_ready := b \<rparr>) s"
    obtain job where j: "dispatch_job X job (clone_prop_arc ?s1) = Some s'"
      using assms Launch by (auto simp: dispatch_record_def serve_Launch_def Let_def split: option.splits)
    have "clients s' = clients ?s1"
      using dispatch_job_frame[OF j] by (auto simp: clone_prop_arc_def)
    then show ?thesis using assms(2) by (simp add: launched_def upd_client_def)
  next
    case Terminate
    then show ?thesis using assms by (simp add: dispatch_record_def serve_Terminate_def)
  qed
qed

lemma process_records_launched:
  assumes "process_records X idx i b k cur pr df s = Next (s', pr', df')"
    "idx < length (clients s)" "df \<Longrightarrow> launched idx b s" "df'"
  shows "launched idx b s'"
  using assms
proof (induction k arbitrary: cur pr df s)
  case 0
  then show ?case by simp
next
  case (Suc k)
  from Suc.prems(1) obtain hdr s1 d cur1 pr1
    where d: "dispatch_record X idx i b hdr s = Next (s1, d)"
      and r: "process_records X idx i b k cur1 pr1 (df \<or> d) s1 = Next (s', pr', df')"
    by (auto simp: Let_def split: outcome.splits flow.splits prod.splits)
  have len: "idx < length (clients s1)"
    using dispatch_record_frame[OF d] Suc.prems(2) by (simp add: frame_def)
  have "launched idx b s1" if "df \<or> d"
    using dispatch_record_launched[OF d Suc.prems(2)] Suc.prems(3) that by blast
  with Suc.IH[OF r len] Suc.prems(4) show ?case by blast
qed

text \<open>A served visit in one piece: what it leaves, on the client's channel and beyond.\<close>

lemma visit_served_cases:
  assumes v: "visit X n idx s = Next (s', True)" and i: "i = cp_chan (clients s ! idx)"
  obtains s2 k d where
    "idx < length (clients s)"
    "process_records X idx i (ready (load_flags (request (chans s i))))
       (unat (count (load_flags (request (chans s i))))) HEADER_BYTES 0 False (clear_pending idx s)
       = Next (s2, k, d)"
    "s' = (finish_request i (ready (load_flags (request (chans s i)))) k d s2)
            \<lparr> start_idx := (idx + 1) mod n \<rparr>"
proof -
  have idx: "idx < length (clients s)"
    using v by (auto simp: visit_def split: if_splits)
  have sv: "servable s idx"
    using v visit_unserved[OF idx] by fastforce
  let ?cp = "clients s ! idx"
  have g: "launch_gate (ready (load_flags (request (chans s i))))
      (ready (load_flags (response (chans s i)))) ?cp = (?cp\<lparr> pending_launch := False \<rparr>, True)"
    using sv by (auto simp: servable_def Let_def launch_gate_def i clear_pending_id)
  have u: "upd_client idx (\<lambda>_. ?cp\<lparr> pending_launch := False \<rparr>) s = clear_pending idx s"
    by (simp add: clear_pending_def upd_client_def)
  have ni: "ready (load_flags (request (chans s i))) \<noteq> ready (load_flags (response (chans s i)))"
    using sv by (simp add: servable_def idle_chan_def i Let_def)
  show ?thesis
    using v idx g u ni that
    by (auto simp: visit_def Let_def i[symmetric] split: flow.splits prod.splits)
qed

lemma visit_served_frame:
  assumes v: "visit X n idx s = Next (s', True)" and i: "i = cp_chan (clients s ! idx)"
  shows "frame idx i s (s'\<lparr> start_idx := start_idx s \<rparr>)" and "start_idx s' = (idx + 1) mod n"
proof -
  obtain s2 k d where
    pr: "process_records X idx i (ready (load_flags (request (chans s i))))
       (unat (count (load_flags (request (chans s i))))) HEADER_BYTES 0 False (clear_pending idx s)
       = Next (s2, k, d)"
    and s': "s' = (finish_request i (ready (load_flags (request (chans s i)))) k d s2)
            \<lparr> start_idx := (idx + 1) mod n \<rparr>"
    using visit_served_cases[OF v i] by metis
  show "start_idx s' = (idx + 1) mod n" by (simp add: s')
  have "frame idx i s (clear_pending idx s)" by (simp add: clear_pending_def)
  then have "frame idx i s s2" using process_records_frame[OF pr] frame_trans by blast
  moreover have "frame idx i s2 (finish_request i (ready (load_flags (request (chans s i)))) k d s2)"
    by (simp add: finish_request_def)
  ultimately have f: "frame idx i s (finish_request i (ready (load_flags (request (chans s i)))) k d s2)"
    using frame_trans by blast
  then show "frame idx i s (s'\<lparr> start_idx := start_idx s \<rparr>)"
    by (simp add: frame_def s')
qed

lemma visit_served_done:
  assumes v: "visit X n idx s = Next (s', True)"
  shows "\<not> servable s' idx"
proof -
  define i where "i = cp_chan (clients s ! idx)"
  let ?b = "ready (load_flags (request (chans s i)))"
  obtain s2 k d where idx: "idx < length (clients s)"
    and pr: "process_records X idx i ?b
       (unat (count (load_flags (request (chans s i))))) HEADER_BYTES 0 False (clear_pending idx s)
       = Next (s2, k, d)"
    and s': "s' = (finish_request i ?b k d s2)\<lparr> start_idx := (idx + 1) mod n \<rparr>"
    using visit_served_cases[OF v i_def] by metis
  have fr: "frame idx i (clear_pending idx s) s2" by (rule process_records_frame[OF pr])
  then have req: "request (chans s2 i) = request (chans s i)"
    by (simp add: frame_def)
  have cp: "cp_chan (clients s2 ! idx) = i"
    using fr idx by (simp add: frame_def i_def clear_pending_def upd_client_def)
  show ?thesis
  proof (cases d)
    case False
    then have "idle_chan (chans s' i)"
      using req by (simp add: s' finish_request_def upd_chan_def set_resp_flags_def idle_chan_def
          load_store_flags)
    moreover have "cp_chan (clients s' ! idx) = i"
      using cp by (simp add: s' finish_request_def upd_chan_def)
    ultimately show ?thesis by (simp add: servable_def Let_def)
  next
    case True
    have "launched idx ?b s2"
      by (rule process_records_launched[OF pr]) (use idx True in \<open>auto simp: clear_pending_def upd_client_def\<close>)
    then show ?thesis
      using True req cp by (simp add: s' finish_request_def servable_def launched_def Let_def)
  qed
qed

end
