(* ===== verification/Runtime_Loop.thy ===== *)
theory Runtime_Loop
  imports Runtime_Facts
begin

text \<open>
  The scan over the clients and the rounds of the worker loop: the indices stay in range,
  a round serves a client whenever one can be served, and what the update of the start
  index inside the scan does to the order of service.
\<close>

section \<open>Skipped clients\<close>

lemma skip_client_simps [simp]:
  "chans (skip_client idx s) = chans s" "length (clients (skip_client idx s)) = length (clients s)"
  "start_idx (skip_client idx s) = start_idx s"
  by (simp_all add: skip_client_def upd_client_def)

lemma cp_chan_skip [simp]: "cp_chan (clients (skip_client j s) ! k) = cp_chan (clients s ! k)"
  unfolding skip_client_def upd_client_def by (auto intro: nth_update_field)

lemma servable_skip [simp]: "servable (skip_client j s) k = servable s k"
proof (cases "j = k \<and> j < length (clients s)")
  case True
  then show ?thesis
    by (auto simp: servable_def Let_def skip_client_def upd_client_def)
next
  case False
  then have "clients (skip_client j s) ! k = clients s ! k"
    by (cases "j = k") (simp_all add: skip_client_def upd_client_def list_update_beyond)
  then show ?thesis by (simp add: servable_def)
qed

definition skip_clients :: "nat list \<Rightarrow> ('t, 'q, 'p) rt \<Rightarrow> ('t, 'q, 'p) rt" where
  "skip_clients js s = fold skip_client js s"

lemma skip_clients_simps [simp]:
  "chans (skip_clients js s) = chans s" "length (clients (skip_clients js s)) = length (clients s)"
  "start_idx (skip_clients js s) = start_idx s"
  "cp_chan (clients (skip_clients js s) ! k) = cp_chan (clients s ! k)"
  "servable (skip_clients js s) k = servable s k"
  by (induction js arbitrary: s) (simp_all add: skip_clients_def)

section \<open>Indices\<close>

lemma scan_index_lt: "start < n \<Longrightarrow> offs < n \<Longrightarrow> scan_index n start offs < n"
  unfolding scan_index_def Let_def by auto

lemma scan_index_mod: "start < n \<Longrightarrow> offs < n \<Longrightarrow> scan_index n start offs = (start + offs) mod n"
  by (simp add: scan_index_def Let_def mod_if)

lemma scan_index_surj:
  assumes "start < n" "k < n" obtains offs where "offs < n" "scan_index n start offs = k"
proof
  show "(if start \<le> k then k - start else k + n - start) < n" using assms by auto
  show "scan_index n start (if start \<le> k then k - start else k + n - start) = k"
    using assms by (auto simp: scan_index_def Let_def)
qed

lemma visit_keeps:
  assumes "visit X n idx s = Next (s', b)" "n = length (clients s)" "start_idx s < n"
  shows "n = length (clients s')" "start_idx s' < n"
proof -
  have idx: "idx < length (clients s)"
    using assms(1) by (auto simp: visit_def split: if_splits)
  show "n = length (clients s')" "start_idx s' < n"
  proof (atomize(full), cases b)
    case True
    have "(idx + 1) mod n < n" using assms(3) by simp
    then show "n = length (clients s') \<and> start_idx s' < n"
      using True visit_served_frame[of X n idx s s' "cp_chan (clients s ! idx)"] assms(1,2)
      by (simp add: frame_def)
  next
    case False
    then have "\<not> servable s idx" using visit_servable assms(1) by metis
    then show "n = length (clients s') \<and> start_idx s' < n"
      using visit_unserved[OF idx] assms by auto
  qed
qed

lemma scan_keeps:
  assumes "scan X n os pr s = Next (s', pr')" "n = length (clients s)" "start_idx s < n"
  shows "n = length (clients s') \<and> start_idx s' < n"
  using assms
proof (induction os arbitrary: pr s)
  case Nil
  then show ?case by simp
next
  case (Cons x os)
  from Cons.prems(1) obtain s1 b where v: "visit X n (scan_index n (start_idx s) x) s = Next (s1, b)"
    and r: "scan X n os (pr \<or> b) s1 = Next (s', pr')"
    by (auto split: flow.splits)
  show ?case using Cons.IH[OF r] visit_keeps[OF v Cons.prems(2,3)] by blast
qed

section \<open>Finding a client to serve\<close>

lemma scan_append:
  "scan X n (os @ os') pr s =
     (case scan X n os pr s of
        Next (s1, pr1) \<Rightarrow> scan X n os' pr1 s1
      | Halt r \<Rightarrow> Halt r
      | Undefined u \<Rightarrow> Undefined u
      | Diverge \<Rightarrow> Diverge)"
  by (induction os arbitrary: pr s) (auto split: flow.splits)

lemma scan_unserved:
  assumes "\<forall>x \<in> set os. x < n \<and> \<not> servable s (scan_index n (start_idx s) x)"
    "n = length (clients s)" "start_idx s < n"
  shows "scan X n os pr s = Next (skip_clients (map (scan_index n (start_idx s)) os) s, pr)"
  using assms
proof (induction os arbitrary: s)
  case Nil
  then show ?case by (simp add: skip_clients_def)
next
  case (Cons x os)
  let ?j = "scan_index n (start_idx s) x"
  have "visit X n ?j s = Next (skip_client ?j s, False)"
    using Cons.prems by (intro visit_unserved) (auto simp: scan_index_lt)
  then show ?case
    using Cons.IH[of "skip_client ?j s"] Cons.prems by (simp add: skip_clients_def)
qed

text \<open>The first client that can be served, counted from the start index.\<close>

definition first_servable :: "('t, 'q, 'p) rt \<Rightarrow> nat \<Rightarrow> bool" where
  "first_servable s k \<longleftrightarrow>
     k < length (clients s) \<and>
     servable s (scan_index (length (clients s)) (start_idx s) k) \<and>
     (\<forall>x < k. \<not> servable s (scan_index (length (clients s)) (start_idx s) x))"

lemma first_servable_exists:
  assumes "start_idx s < length (clients s)" "idx < length (clients s)" "servable s idx"
  shows "\<exists>k. first_servable s k"
proof -
  let ?P = "\<lambda>k. k < length (clients s) \<and> servable s (scan_index (length (clients s)) (start_idx s) k)"
  obtain k0 where "?P k0" using scan_index_surj[OF assms(1,2)] assms(3) by metis
  then obtain k where k: "?P k" "\<forall>x < k. \<not> ?P x" using exists_least_iff[of ?P] by blast
  then have "\<forall>x < k. \<not> servable s (scan_index (length (clients s)) (start_idx s) x)"
    using less_trans by blast
  with k(1) have "first_servable s k" unfolding first_servable_def by blast
  then show ?thesis by blast
qed

lemma scan_first:
  assumes "first_servable s k" "n = length (clients s)" "start_idx s < n"
  shows "scan X n [0..<n] False s =
    (let s0 = skip_clients (map (scan_index n (start_idx s)) [0..<k]) s
     in case visit X n (scan_index n (start_idx s) k) s0 of
          Next (s1, b) \<Rightarrow> scan X n [Suc k..<n] True s1
        | Halt (s1, _) \<Rightarrow> Halt (s1, False)
        | Undefined u \<Rightarrow> Undefined u
        | Diverge \<Rightarrow> Diverge)"
proof -
  let ?s0 = "skip_clients (map (scan_index n (start_idx s)) [0..<k]) s"
  have k: "k < n" "servable s (scan_index n (start_idx s) k)"
    and before: "\<forall>x < k. \<not> servable s (scan_index n (start_idx s) x)"
    using assms(1) unfolding first_servable_def assms(2)[symmetric] by blast+
  have split: "[0..<n] = [0..<k] @ k # [Suc k..<n]"
    using upt_add_eq_append[of 0 k "n - k"] upt_conv_Cons[of k n] k(1) by simp
  have pre: "scan X n [0..<k] False s = Next (?s0, False)"
    by (rule scan_unserved) (use k(1) before assms(2,3) in auto)
  have sv: "servable ?s0 (scan_index n (start_idx s) k)" using k by simp
  have "b" if "visit X n (scan_index n (start_idx s) k) ?s0 = Next (s1, b)" for s1 b
    using visit_servable[OF sv that] .
  then show ?thesis
    unfolding split scan_append pre
    by (auto simp: Let_def split: flow.splits)
qed

lemma scan_progressed: "scan X n os True s = Next (s', pr) \<Longrightarrow> pr"
  by (induction os arbitrary: s) (auto split: flow.splits)

end
