(* ===== verification/Wait_Budget.thy ===== *)
theory Wait_Budget
  imports Prelude
begin

text \<open>
  Spin-wait budgets (src/util/wait.rs): bounded spinning, then bounded yielding, then
  spinning for good, and the helper that retries an acquisition under such a budget.
\<close>

section \<open>The budget\<close>

record WaitBudget =
  spins :: u32
  yields :: u32
  spin_cap :: u32
  yield_cap :: u32

definition hot :: WaitBudget where
  "hot = \<lparr> spins = 0, yields = 0, spin_cap = 128, yield_cap = 8 \<rparr>"

definition WaitBudget_default :: WaitBudget where
  "WaitBudget_default = \<lparr> spins = 0, yields = 0, spin_cap = 64, yield_cap = 4 \<rparr>"

definition reset :: "WaitBudget \<Rightarrow> WaitBudget" where
  "reset b = b\<lparr> spins := 0, yields := 0 \<rparr>"

datatype wait_action = SpinLoop | YieldNow

definition step :: "WaitBudget \<Rightarrow> wait_action \<times> WaitBudget" where
  "step b =
     (if spins b < spin_cap b then (SpinLoop, b\<lparr> spins := spins b + 1 \<rparr>)
      else if yields b < yield_cap b then (YieldNow, b\<lparr> yields := yields b + 1 \<rparr>)
      else (SpinLoop, b))"

definition wf_budget :: "WaitBudget \<Rightarrow> bool" where
  "wf_budget b \<longleftrightarrow> spins b \<le> spin_cap b \<and> yields b \<le> yield_cap b \<and>
     (yields b = 0 \<or> spins b = spin_cap b)"

lemma wf_budget_start [simp]: "wf_budget hot" "wf_budget WaitBudget_default" "wf_budget (reset b)"
  by (simp_all add: wf_budget_def hot_def WaitBudget_default_def reset_def)

lemma unat_Suc_lt: "x < (y :: u32) \<Longrightarrow> unat (x + 1) = Suc (unat x)"
  using unsigned_less[of y, where ?'a = nat] by (simp add: unat_word_ariths word_less_nat_alt)

lemma step_unat:
  "unat (spins (snd (step b))) =
     (if spins b < spin_cap b then Suc (unat (spins b)) else unat (spins b))"
  "unat (yields (snd (step b))) =
     (if \<not> spins b < spin_cap b \<and> yields b < yield_cap b then Suc (unat (yields b))
      else unat (yields b))"
  by (auto simp: step_def unat_Suc_lt)

lemma step_caps [simp]: "spin_cap (snd (step b)) = spin_cap b" "yield_cap (snd (step b)) = yield_cap b"
  by (simp_all add: step_def)

lemma wf_budget_step: "wf_budget b \<Longrightarrow> wf_budget (snd (step b))"
  by (auto simp: wf_budget_def step_def inc_le)

text \<open>A run of \<open>n\<close> steps and the actions it takes.\<close>

fun steps :: "nat \<Rightarrow> WaitBudget \<Rightarrow> wait_action list \<times> WaitBudget" where
  "steps 0 b = ([], b)"
| "steps (Suc n) b =
     (let (a, b') = step b; (as, b'') = steps n b' in (a # as, b''))"

definition spins_left :: "WaitBudget \<Rightarrow> nat" where
  "spins_left b = unat (spin_cap b) - unat (spins b)"

definition yields_left :: "WaitBudget \<Rightarrow> nat" where
  "yields_left b = unat (yield_cap b) - unat (yields b)"

lemma step_cases:
  assumes "wf_budget b"
  shows "0 < spins_left b \<Longrightarrow> \<exists>b'. step b = (SpinLoop, b') \<and> wf_budget b' \<and>
           spins_left b = Suc (spins_left b') \<and> yields_left b' = yields_left b"
    and "spins_left b = 0 \<Longrightarrow> 0 < yields_left b \<Longrightarrow> \<exists>b'. step b = (YieldNow, b') \<and> wf_budget b' \<and>
           spins_left b' = 0 \<and> yields_left b = Suc (yields_left b')"
    and "spins_left b = 0 \<Longrightarrow> yields_left b = 0 \<Longrightarrow> step b = (SpinLoop, b)"
  using assms wf_budget_step[OF assms]
  by (auto simp: step_def spins_left_def yields_left_def unat_Suc_lt word_less_nat_alt)

text \<open>The actions of a run, in closed form: what is left of the spins, then what is left of
  the yields, then spins again.\<close>

lemma steps_actions:
  "wf_budget b \<Longrightarrow>
   fst (steps n b) =
     replicate (min n (spins_left b)) SpinLoop @
     replicate (min (n - spins_left b) (yields_left b)) YieldNow @
     replicate (n - spins_left b - yields_left b) SpinLoop"
proof (induction n arbitrary: b)
  case 0
  then show ?case by simp
next
  case (Suc n)
  consider "0 < spins_left b" | "spins_left b = 0" "0 < yields_left b"
    | "spins_left b = 0" "yields_left b = 0" by blast
  then show ?case
  proof cases
    case 1
    then obtain b' where "step b = (SpinLoop, b')" "wf_budget b'"
        "spins_left b = Suc (spins_left b')" "yields_left b' = yields_left b"
      using step_cases(1)[OF Suc.prems] by blast
    then show ?thesis using Suc.IH[of b'] by (simp add: split_beta)
  next
    case 2
    then obtain b' where "step b = (YieldNow, b')" "wf_budget b'"
        "spins_left b' = 0" "yields_left b = Suc (yields_left b')"
      using step_cases(2)[OF Suc.prems] by blast
    then show ?thesis using Suc.IH[of b'] 2 by (simp add: split_beta)
  next
    case 3
    then show ?thesis using Suc.IH[of b] Suc.prems step_cases(3)[OF Suc.prems]
      by (simp add: split_beta)
  qed
qed

section \<open>Acquiring under a budget\<close>

text \<open>One call of the acquisition closure gives \<open>Ok\<close> or \<open>Err\<close> with a value, which is
  dropped at the end of the match arm it is bound in: \<open>drop_value\<close> is what that does to
  the state. The loop need not end.\<close>

partial_function (option) acquire_lock_loop ::
    "('s \<Rightarrow> ('e + 'r) \<times> 's) \<Rightarrow> ('r \<Rightarrow> 's \<Rightarrow> 's) \<Rightarrow> ('e \<Rightarrow> 's \<Rightarrow> 's) \<Rightarrow> WaitBudget \<Rightarrow> 's \<Rightarrow>
     (WaitBudget \<times> 's) option" where
  "acquire_lock_loop acquire drop_value drop_err b s =
     (case acquire s of
        (Inr v, s') \<Rightarrow> Some (b, drop_value v s')
      | (Inl e, s') \<Rightarrow>
          acquire_lock_loop acquire drop_value drop_err (snd (step b)) (drop_err e s'))"

definition acquire_lock_with_budget ::
    "('s \<Rightarrow> ('e + 'r) \<times> 's) \<Rightarrow> ('r \<Rightarrow> 's \<Rightarrow> 's) \<Rightarrow> ('e \<Rightarrow> 's \<Rightarrow> 's) \<Rightarrow> 's \<Rightarrow> 's option" where
  "acquire_lock_with_budget acquire drop_value drop_err s =
     map_option snd (acquire_lock_loop acquire drop_value drop_err hot s)"

text \<open>Failing attempts: the states an acquisition goes through while it answers \<open>Err\<close>.\<close>

fun after_failures :: "('s \<Rightarrow> ('e + 'r) \<times> 's) \<Rightarrow> ('e \<Rightarrow> 's \<Rightarrow> 's) \<Rightarrow> nat \<Rightarrow> 's \<Rightarrow> 's option" where
  "after_failures acquire drop_err 0 s = Some s"
| "after_failures acquire drop_err (Suc n) s =
     (case acquire s of
        (Inl e, s') \<Rightarrow> after_failures acquire drop_err n (drop_err e s')
      | (Inr v, s') \<Rightarrow> None)"

lemma acquire_lock_loop_after:
  assumes "after_failures acquire drop_err n s = Some s1" "acquire s1 = (Inr v, s2)"
  shows "acquire_lock_loop acquire dv drop_err b s = Some (snd (steps n b), dv v s2)"
  using assms
proof (induction n arbitrary: b s)
  case 0
  then show ?case by (simp add: acquire_lock_loop.simps)
next
  case (Suc n)
  from Suc.prems(1) obtain e s' where e: "acquire s = (Inl e, s')"
      "after_failures acquire drop_err n (drop_err e s') = Some s1"
    by (auto split: prod.splits sum.splits)
  show ?case
    using Suc.IH[OF e(2) Suc.prems(2), of "snd (step b)"] e(1)
    by (subst acquire_lock_loop.simps) (simp add: split_beta)
qed

section \<open>Properties\<close>

text \<open>The schedule of the budget every client waits with: of any number of waits, the first
  128 spin, the next 8 yield and all later ones spin - the waiter never parks and the counters
  never pass their caps.\<close>

lemma hot_schedule:
  "fst (steps n hot) =
     replicate (min n 128) SpinLoop @ replicate (min (n - 128) 8) YieldNow @ replicate (n - 136) SpinLoop \<and>
   wf_budget (snd (steps n hot))"
proof
  have "spins_left hot = 128" "yields_left hot = 8" by (simp_all add: spins_left_def yields_left_def hot_def)
  then show "fst (steps n hot) =
     replicate (min n 128) SpinLoop @ replicate (min (n - 128) 8) YieldNow @ replicate (n - 136) SpinLoop"
    using steps_actions[of hot n] by (simp add: diff_diff_add)
  have "wf_budget b \<Longrightarrow> wf_budget (snd (steps n b))" for b
    by (induction n arbitrary: b) (auto simp: split_beta wf_budget_step)
  then show "wf_budget (snd (steps n hot))" by simp
qed

text \<open>C36. The acquisition helper returns as soon as an attempt succeeds, whatever number of
  attempts failed before it - and what the successful attempt returned has been dropped by
  then: a lock guard handed out by the closure is released before the helper's caller goes
  on.\<close>

theorem acquire_drops_value:
  assumes "after_failures acquire drop_err n s = Some s1" "acquire s1 = (Inr v, s2)"
  shows "acquire_lock_with_budget acquire drop_value drop_err s = Some (drop_value v s2)"
  using acquire_lock_loop_after[OF assms, of drop_value hot] by (simp add: acquire_lock_with_budget_def)

text \<open>A lock that becomes free after a number of attempts: the state is the attempts left and
  whether the lock is held by us.\<close>

definition sample_try_lock :: "nat \<times> bool \<Rightarrow> (unit + unit) \<times> (nat \<times> bool)" where
  "sample_try_lock s = (case s of (k, held) \<Rightarrow> if k = 0 then (Inr (), (0, True)) else (Inl (), (k - 1, held)))"

theorem acquire_drops_value_witness:
  "acquire_lock_with_budget sample_try_lock (\<lambda>_ (k, _). (k, False)) (\<lambda>_ s. s) (3, False) = Some (0, False)"
proof -
  have a: "after_failures sample_try_lock (\<lambda>_ s. s) 3 (3, False) = Some (0, False)"
    by (simp add: sample_try_lock_def numeral_eq_Suc)
  have "sample_try_lock (0, False) = (Inr (), (0, True))" by (simp add: sample_try_lock_def)
  from acquire_drops_value[OF a this] show ?thesis by simp
qed

end
