(* ===== verification/Remote_Client.thy ===== *)
theory Remote_Client
  imports Runtime_Loop Wait_Budget
begin

text \<open>
  The client side of a remote trust (src/trust/remote.rs) and the runtime's constructors
  (src/runtime/runtime.rs): writing a request record into the channel's slot, publishing it
  with the ready bit, waiting for the bit to come back, reading the result, and the guards
  in front of it (the shortcut on the owning trustee's thread, the refusal to block any
  other trustee's thread).
\<close>

section \<open>Closures a client sends\<close>

text \<open>A closure over the property: its value (size, alignment, captures, vtable) and its
  code, which from the captures and the property computes the property it leaves and the
  result, or \<open>None\<close> when it panics.\<close>

record ('t, 'r) client_fn =
  fv :: fn_value
  body :: "u8 list \<Rightarrow> 't \<Rightarrow> 't \<times> 'r option"

definition call_fn :: "('t, 'r) client_fn \<Rightarrow> 't \<Rightarrow> 't \<times> 'r option" where
  "call_fn f t = body f (fn_env (fv f)) t"

record ('t, 'v, 'r) client_fn_with =
  fvw :: fn_value
  bodyw :: "u8 list \<Rightarrow> 't \<Rightarrow> 'v \<Rightarrow> 't \<times> 'r option"

definition call_fn_with :: "('t, 'v, 'r) client_fn_with \<Rightarrow> 't \<Rightarrow> 'v \<Rightarrow> 't \<times> 'r option" where
  "call_fn_with f t w = bodyw f (fn_env (fvw f)) t w"

text \<open>The memory representation of a result type: its size and how it is written and read.\<close>

record 'r ret_type =
  ret_size :: nat
  ret_enc :: "'r \<Rightarrow> u8 list"
  ret_dec :: "u8 list \<Rightarrow> 'r option"

definition wf_ret :: "'r ret_type \<Rightarrow> bool" where
  "wf_ret R \<longleftrightarrow> layout (ret_size R) (ret_enc R) (ret_dec R)"

text \<open>The adapter closures encoded in place of the client's: run it on the property and
  write what it returns through the response pointer.\<close>

definition finish_adapter ::
    "'r ret_type \<Rightarrow> u8 list \<Rightarrow> 't \<times> 'r option \<Rightarrow> 't after outcome" where
  "finish_adapter R out x =
     (case x of
        (t, None) \<Rightarrow> Ok (t, out, True)
      | (t, Some r) \<Rightarrow>
          obind (write_unaligned (ret_enc R) 0 r out) (\<lambda>out'. Ok (t, out', False)))"

definition apply_adapter ::
    "'r ret_type \<Rightarrow> (u8 list \<Rightarrow> 't \<Rightarrow> 't \<times> 'r option) \<Rightarrow> u8 list \<Rightarrow> 't \<times> u8 list \<Rightarrow> 't after outcome" where
  "apply_adapter R code env = (\<lambda>(p, out). finish_adapter R out (code env p))"

text \<open>With an argument: the bytes are deserialised first, and a failure to do so panics
  before the closure runs.\<close>

definition apply_with_adapter ::
    "'r ret_type \<Rightarrow> (u8 list \<Rightarrow> 'v option) \<Rightarrow> (u8 list \<Rightarrow> 't \<Rightarrow> 'v \<Rightarrow> 't \<times> 'r option) \<Rightarrow>
     u8 list \<Rightarrow> 't \<times> u8 list \<times> u8 list \<Rightarrow> 't after outcome" where
  "apply_with_adapter R deserialize code env = (\<lambda>(p, out, bytes).
     (case deserialize bytes of
        None \<Rightarrow> Ok (p, out, True)
      | Some v \<Rightarrow> finish_adapter R out (code env p v)))"

definition batch_adapter :: "(u8 list \<Rightarrow> 't \<Rightarrow> 't \<times> unit option) \<Rightarrow> u8 list \<Rightarrow> 't \<Rightarrow> ('t \<times> bool) outcome" where
  "batch_adapter code env p = (case code env p of (p', r) \<Rightarrow> Ok (p', r = None))"

section \<open>Writing a request\<close>

text \<open>Every operation writes one record: captures and arguments behind the header, then the
  header itself; \<open>fix_hdr\<close> is what an operation changes in the header before writing it.\<close>

definition hdr_offset :: usize where
  "hdr_offset = next_boundary_offset HEADER_BYTES size_of_hdr align_of_hdr"

definition payload_offset :: usize where
  "payload_offset = hdr_offset + size_of_hdr"

definition request_writer :: "ChannelPair \<Rightarrow> SlotWriter" where
  "request_writer c = \<lparr> base = request_base c, len = SLOT_BYTES, cursor = payload_offset \<rparr>"

definition write_request ::
    "PropertyPtr \<Rightarrow> fn_value \<Rightarrow> u8 list \<Rightarrow> (RequestRecordHeader \<Rightarrow> RequestRecordHeader) \<Rightarrow>
     ChannelPair \<Rightarrow> ChannelPair outcome" where
  "write_request p f args fix_hdr c =
     obind (encode_closure (request_writer c) p f args (request c)) (\<lambda>(w, m, hdr).
     obind (write_unaligned hdr_bytes (unat hdr_offset) (fix_hdr hdr) m) (\<lambda>m'.
       Ok (c\<lparr> request := m' \<rparr>)))"

text \<open>Publishing: the ready bit is the opposite of the response's, the count is one.\<close>

definition publish :: "ChannelPair \<Rightarrow> bool \<times> ChannelPair" where
  "publish c =
     (let resp_word = load_flags (response c);
          req_ready = (\<not> ready resp_word);
          word = pack_ready_count req_ready 1
      in (req_ready, set_req_flags word c))"

definition response_ready :: "bool \<Rightarrow> ChannelPair \<Rightarrow> bool" where
  "response_ready req_ready c \<longleftrightarrow> ready (load_flags (response c)) = req_ready"

definition read_response :: "nat \<Rightarrow> (u8 list \<Rightarrow> 'r option) \<Rightarrow> ChannelPair \<Rightarrow> 'r outcome" where
  "read_response n dec c = read_unaligned n dec (unat HEADER_BYTES) (response c)"

section \<open>Waiting\<close>

text \<open>While a client waits, the worker runs rounds and the fibers, on threads of their own, run their
  jobs. \<open>system_step\<close> is one schedule for them: a round and then the time for every fiber to finish
  the job it has. It serves for operations run one at a time; every other schedule, with launched
  closures that take any time, is the subject of Concurrent. A worker that has left its loop does
  nothing more.\<close>

fun fibers_turn :: "('t, 'q, 'p) world \<Rightarrow> nat list \<Rightarrow> ('t, 'q, 'p) rt \<Rightarrow> ub + ('t, 'q, 'p) rt" where
  "fibers_turn X [] s = Inr s"
| "fibers_turn X (f # fs) s =
     (case fiber_turn X f s of Inl u \<Rightarrow> Inl u | Inr s' \<Rightarrow> fibers_turn X fs s')"

definition after_round :: "('t, 'q, 'p) world \<Rightarrow> ('t, 'q, 'p) rt flow \<Rightarrow> ('t, 'q, 'p) rt flow" where
  "after_round X r =
     (case r of
        Next s1 \<Rightarrow>
          (case fibers_turn X [0..<n_fibers s1] s1 of
             Inl u \<Rightarrow> Undefined u
           | Inr s2 \<Rightarrow> Next s2)
      | Halt s1 \<Rightarrow> Next s1
      | Undefined u \<Rightarrow> Undefined u
      | Diverge \<Rightarrow> Diverge)"

definition system_step :: "('t, 'q, 'p) world \<Rightarrow> ('t, 'q, 'p) rt \<Rightarrow> ('t, 'q, 'p) rt flow" where
  "system_step X s = after_round X (if status s = Running then worker_round X s else Next s)"

datatype 's wait_result = Arrived 's | StillWaiting 's | WaitUB ub

text \<open>The wait loop: the response is polled, and between two polls the budget steps while
  the rest of the system moves.\<close>

fun await_response ::
    "('t, 'q, 'p) world \<Rightarrow> nat \<Rightarrow> WaitBudget \<Rightarrow> nat \<Rightarrow> bool \<Rightarrow> ('t, 'q, 'p) rt \<Rightarrow>
     ('t, 'q, 'p) rt wait_result" where
  "await_response X 0 budget i req_ready s = StillWaiting s"
| "await_response X (Suc fuel) budget i req_ready s =
     (if response_ready req_ready (chans s i) then Arrived s
      else
        (case system_step X s of
           Next s' \<Rightarrow> await_response X fuel (snd (step budget)) i req_ready s'
         | Halt s' \<Rightarrow> StillWaiting s'
         | Undefined u \<Rightarrow> WaitUB u
         | Diverge \<Rightarrow> StillWaiting s))"

section \<open>The operations\<close>

record remote =
  r_chan :: nat
  r_owner :: bool

text \<open>The calling thread: its id and whether it is marked as a trustee's.\<close>

record caller =
  caller_id :: usize
  caller_trustee :: bool

datatype 'a reply =
    Returned 'a
  | CallerPanics panic
  | NoReply
  | UndefinedBehaviour ub

definition on_owning_trustee :: "caller \<Rightarrow> ('t, 'q, 'p) rt \<Rightarrow> bool" where
  "on_owning_trustee th s \<longleftrightarrow>
     trustee_id s \<noteq> 0 \<and> trustee_id s = caller_id th \<and> trustee_prop s"

fun reply_of :: "'a outcome \<Rightarrow> 'a reply" where
  "reply_of (Ok x) = Returned x"
| "reply_of (Panic p) = CallerPanics p"
| "reply_of (UB u) = UndefinedBehaviour u"

text \<open>A closure run in the caller's own thread.\<close>

definition run_inline :: "('t \<times> 'r option) \<Rightarrow> ('t, 'q, 'p) rt \<Rightarrow> 'r reply \<times> ('t, 'q, 'p) rt" where
  "run_inline x s =
     (case x of
        (t, Some r) \<Rightarrow> (Returned r, s\<lparr> prop_cell := t \<rparr>)
      | (t, None) \<Rightarrow> (CallerPanics ClosurePanicked, s\<lparr> prop_cell := t \<rparr>))"

text \<open>The end of a wait: the response is read once it has arrived.\<close>

fun deliver ::
    "nat \<Rightarrow> (ChannelPair \<Rightarrow> 'r outcome) \<Rightarrow> ('t, 'q, 'p) rt \<Rightarrow> ('t, 'q, 'p) rt wait_result \<Rightarrow>
     'r reply \<times> ('t, 'q, 'p) rt" where
  "deliver i read s1 (Arrived s2) = (reply_of (read (chans s2 i)), s2)"
| "deliver i read s1 (StillWaiting s2) = (NoReply, s2)"
| "deliver i read s1 (WaitUB u) = (UndefinedBehaviour u, s1)"

text \<open>Write, publish, wait and read, on the handle's channel. A slot overflow panics before the
  header is written, with what the encoder has written up to there.\<close>

definition delegate ::
    "('t, 'q, 'p) world \<Rightarrow> nat \<Rightarrow> nat \<Rightarrow> PropertyPtr \<Rightarrow> fn_value \<Rightarrow> u8 list \<Rightarrow>
     (RequestRecordHeader \<Rightarrow> RequestRecordHeader) \<Rightarrow> (ChannelPair \<Rightarrow> 'r outcome) \<Rightarrow>
     ('t, 'q, 'p) rt \<Rightarrow> 'r reply \<times> ('t, 'q, 'p) rt" where
  "delegate X fuel i p f args fix_hdr read s =
     (case write_request p f args fix_hdr (chans s i) of
        Ok c1 \<Rightarrow>
          (let (req_ready, c2) = publish c1; s1 = s\<lparr> chans := (chans s)(i := c2) \<rparr>
           in deliver i read s1 (await_response X fuel hot i req_ready s1))
      | Panic e \<Rightarrow>
          (CallerPanics e, s\<lparr> chans := (chans s)(i := (chans s i)\<lparr> request :=
             encode_leaves (request_writer (chans s i)) f (request (chans s i)) \<rparr>) \<rparr>)
      | UB u \<Rightarrow> (UndefinedBehaviour u, s))"

definition remote_apply ::
    "('t, 'q, 'p) world \<Rightarrow> nat \<Rightarrow> caller \<Rightarrow> remote \<Rightarrow> 'r ret_type \<Rightarrow> ('t, 'r) client_fn \<Rightarrow>
     ('t, 'q, 'p) rt \<Rightarrow> 'r reply \<times> ('t, 'q, 'p) rt" where
  "remote_apply X fuel th r R f s =
     (if on_owning_trustee th s then run_inline (call_fn f (prop_cell s)) s
      else if caller_trustee th then (CallerPanics BlockingDelegation, s)
      else delegate X fuel (r_chan r) CallMutOutPtr (fv f) [] (\<lambda>h. h)
             (read_response (ret_size R) (ret_dec R)) s)"

text \<open>The argument is serialised by the caller; its failure panics there.\<close>

definition remote_apply_with ::
    "('t, 'q, 'p) world \<Rightarrow> nat \<Rightarrow> caller \<Rightarrow> remote \<Rightarrow> 'r ret_type \<Rightarrow> ('v \<Rightarrow> u8 list option) \<Rightarrow>
     ('t, 'v, 'r) client_fn_with \<Rightarrow> 'v \<Rightarrow> ('t, 'q, 'p) rt \<Rightarrow> 'r reply \<times> ('t, 'q, 'p) rt" where
  "remote_apply_with X fuel th r R serialize f w s =
     (if on_owning_trustee th s then run_inline (call_fn_with f (prop_cell s) w) s
      else if caller_trustee th then (CallerPanics BlockingDelegation, s)
      else
        (case serialize w of
           None \<Rightarrow> (CallerPanics BincodeSerialize, s)
         | Some args \<Rightarrow>
             delegate X fuel (r_chan r) CallMutArgsOutPtr (fvw f) args (\<lambda>h. h)
               (read_response (ret_size R) (ret_dec R)) s))"

text \<open>\<open>with\<close> has the shortcut but no refusal.\<close>

definition remote_with ::
    "('t, 'q, 'p) world \<Rightarrow> nat \<Rightarrow> caller \<Rightarrow> remote \<Rightarrow> 'r ret_type \<Rightarrow> ('t, 'r) client_fn \<Rightarrow>
     ('t, 'q, 'p) rt \<Rightarrow> 'r reply \<times> ('t, 'q, 'p) rt" where
  "remote_with X fuel th r R f s =
     (if on_owning_trustee th s then run_inline (call_fn f (prop_cell s)) s
      else delegate X fuel (r_chan r) CallMutOutPtr (fv f) [] (\<lambda>h. h)
             (read_response (ret_size R) (ret_dec R)) s)"

text \<open>The inline loop of a batch stops at the first panic.\<close>

fun repeat_inline :: "('t \<Rightarrow> 't \<times> unit option) \<Rightarrow> nat \<Rightarrow> 't \<Rightarrow> 't \<times> unit option" where
  "repeat_inline g 0 t = (t, Some ())"
| "repeat_inline g (Suc n) t =
     (case g t of (t', None) \<Rightarrow> (t', None) | (t', Some _) \<Rightarrow> repeat_inline g n t')"

definition remote_apply_batch_mut ::
    "('t, 'q, 'p) world \<Rightarrow> nat \<Rightarrow> caller \<Rightarrow> remote \<Rightarrow> ('t, unit) client_fn \<Rightarrow> u8 \<Rightarrow>
     ('t, 'q, 'p) rt \<Rightarrow> unit reply \<times> ('t, 'q, 'p) rt" where
  "remote_apply_batch_mut X fuel th r f n s =
     (if on_owning_trustee th s
      then run_inline (repeat_inline (call_fn f) (unat n) (prop_cell s)) s
      else if caller_trustee th then (CallerPanics BlockingDelegation, s)
      else delegate X fuel (r_chan r) CallMutRetUnit (fv f) []
             (\<lambda>h. h\<lparr> repeat_count := ucast n \<rparr>) (\<lambda>c. Ok ()) s)"

text \<open>The unit closure that accompanies an into-inner record: nothing captured, never called.\<close>

definition into_inner_fn :: "u64 \<Rightarrow> fn_value" where
  "into_inner_fn vt = \<lparr> fn_size = 0, fn_align = 1, fn_env = [], fn_vtable = vt \<rparr>"

definition remote_into_inner ::
    "('t, 'q, 'p) world \<Rightarrow> nat \<Rightarrow> caller \<Rightarrow> remote \<Rightarrow> 't ret_type \<Rightarrow> u64 \<Rightarrow>
     ('t, 'q, 'p) rt \<Rightarrow> 't reply \<times> ('t, 'q, 'p) rt" where
  "remote_into_inner X fuel th r T vt s =
     (if caller_trustee th then (CallerPanics BlockingDelegation, s)
      else if \<not> r_owner r then (CallerPanics RequiresOwnedRuntime, s)
      else delegate X fuel (r_chan r) IntoInner (into_inner_fn vt) [] (\<lambda>h. h)
             (read_response (ret_size T) (ret_dec T)) s)"

text \<open>A launch has neither the shortcut nor the refusal.\<close>

definition remote_launch ::
    "('t, 'q, 'p) world \<Rightarrow> nat \<Rightarrow> remote \<Rightarrow> 'r ret_type \<Rightarrow> ('t, 'r) client_fn \<Rightarrow>
     ('t, 'q, 'p) rt \<Rightarrow> 'r reply \<times> ('t, 'q, 'p) rt" where
  "remote_launch X fuel r R f s =
     delegate X fuel (r_chan r) Launch (fv f) [] (\<lambda>h. h)
       (read_response (ret_size R) (ret_dec R)) s"

text \<open>The continuation variants run the continuation on what the call returns; a caller that
  panics or never gets a reply does not reach it.\<close>

fun then_run :: "'r reply \<times> 's \<Rightarrow> ('r \<Rightarrow> 'k) \<Rightarrow> 'k reply \<times> 's" where
  "then_run (Returned r, s) k = (Returned (k r), s)"
| "then_run (CallerPanics p, s) k = (CallerPanics p, s)"
| "then_run (NoReply, s) k = (NoReply, s)"
| "then_run (UndefinedBehaviour u, s) k = (UndefinedBehaviour u, s)"

definition remote_apply_then ::
    "('t, 'q, 'p) world \<Rightarrow> nat \<Rightarrow> caller \<Rightarrow> remote \<Rightarrow> 'r ret_type \<Rightarrow> ('t, 'r) client_fn \<Rightarrow>
     ('r \<Rightarrow> 'k) \<Rightarrow> ('t, 'q, 'p) rt \<Rightarrow> 'k reply \<times> ('t, 'q, 'p) rt" where
  "remote_apply_then X fuel th r R f k s = then_run (remote_apply X fuel th r R f s) k"

definition remote_launch_then ::
    "('t, 'q, 'p) world \<Rightarrow> nat \<Rightarrow> remote \<Rightarrow> 'r ret_type \<Rightarrow> ('t, 'r) client_fn \<Rightarrow>
     ('r \<Rightarrow> 'k) \<Rightarrow> ('t, 'q, 'p) rt \<Rightarrow> 'k reply \<times> ('t, 'q, 'p) rt" where
  "remote_launch_then X fuel r R f k s = then_run (remote_launch X fuel r R f s) k"

section \<open>Runtimes and handles\<close>

text \<open>A channel is allocated in an \<open>Arc\<close>, at a multiple of eight the allocator chooses: the
  counters in front of it are words of eight bytes.\<close>

definition arc_address :: "u64 \<Rightarrow> u64" where
  "arc_address b = b div 8 * 8"

definition new_chan :: "u64 \<Rightarrow> ('t, 'q, 'p) rt \<Rightarrow> nat \<times> ('t, 'q, 'p) rt" where
  "new_chan b s =
     (n_chans s, s\<lparr> chans := (chans s)(n_chans s := ChannelPair_default (arc_address b)), n_chans := Suc (n_chans s) \<rparr>)"

lemma unat_arc_address: "unat (arc_address b) = 8 * (unat b div 8)"
proof -
  have "unat b < 2 ^ 64" using unsigned_less[of b, where ?'a = nat] by simp
  then have "unat b div 8 * 8 < 2 ^ 64" by (rule le_less_trans[OF div_times_less_eq_dividend])
  then show ?thesis by (simp add: arc_address_def unat_word_ariths unat_div)
qed

lemma arc_address_dvd [simp]: "8 dvd unat (arc_address b)"
  by (simp add: unat_arc_address)


text \<open>The state when the worker's closure starts, with its published thread id and property
  pointer, before the first round.\<close>

definition worker_start :: "'t \<Rightarrow> usize \<Rightarrow> 'q \<Rightarrow> 'p \<Rightarrow> ('t, 'q, 'p) rt" where
  "worker_start value tid q p =
     \<lparr> chans = (\<lambda>_. ChannelPair_default 0), n_chans = 0, reg = q, fiber_pool = p,
       fibers = (\<lambda>_. \<lparr> inbox = [], exited = False \<rparr>), n_fibers = 0,
       trustee_id = tid, trustee_prop = True,
       prop_cell = value, prop_arcs = 1, prop_drops = 0, prop_moves = 0,
       clients = [], start_idx = 0, idle_rounds = 0, loop_counter = 0, fiber_handles = [],
       status = Running \<rparr>"

definition entrust_handle ::
    "('t, 'q, 'p) world \<Rightarrow> u64 \<Rightarrow> bool \<Rightarrow> ('t, 'q, 'p) rt \<Rightarrow> remote \<times> ('t, 'q, 'p) rt" where
  "entrust_handle X b owner s =
     (let (i, s1) = new_chan b s in (\<lparr> r_chan = i, r_owner = owner \<rparr>, register X i s1))"

text \<open>\<open>Runtime::entrust\<close> gives a handle that does not own the runtime.\<close>

definition runtime_entrust ::
    "('t, 'q, 'p) world \<Rightarrow> u64 \<Rightarrow> ('t, 'q, 'p) rt \<Rightarrow> remote \<times> ('t, 'q, 'p) rt" where
  "runtime_entrust X b s = entrust_handle X b False s"

definition spawn_with_pin ::
    "('t, 'q, 'p) world \<Rightarrow> 't \<Rightarrow> usize \<Rightarrow> u64 \<Rightarrow> 'q \<Rightarrow> 'p \<Rightarrow> remote \<times> ('t, 'q, 'p) rt" where
  "spawn_with_pin X value tid b q p = entrust_handle X b True (worker_start value tid q p)"

definition remote_entrust ::
    "('t, 'q, 'p) world \<Rightarrow> 't \<Rightarrow> usize \<Rightarrow> u64 \<Rightarrow> 'q \<Rightarrow> 'p \<Rightarrow> remote \<times> ('t, 'q, 'p) rt" where
  "remote_entrust X value tid b q p =
     (let (handle, s) = spawn_with_pin X value tid b q p
      in (\<lparr> r_chan = r_chan handle, r_owner = True \<rparr>, s))"

text \<open>A clone has its own channel and shares the ownership of the runtime.\<close>

definition remote_clone ::
    "('t, 'q, 'p) world \<Rightarrow> u64 \<Rightarrow> remote \<Rightarrow> ('t, 'q, 'p) rt \<Rightarrow> remote \<times> ('t, 'q, 'p) rt" where
  "remote_clone X b r s = entrust_handle X b (r_owner r) s"

text \<open>Dropping the runtime that holds the worker's join handle registers one more channel
  with a terminate record in it.\<close>

definition terminate_header :: RequestRecordHeader where
  "terminate_header =
     \<lparr> closure = \<lparr> data = 0, vtable = 0 \<rparr>, property_ptr = Terminate,
       captured_len = 0, args_len = 0, args_offset = 0, repeat_count = 0 \<rparr>"

definition runtime_drop ::
    "('t, 'q, 'p) world \<Rightarrow> u64 \<Rightarrow> ('t, 'q, 'p) rt \<Rightarrow> ('t, 'q, 'p) rt outcome" where
  "runtime_drop X b s =
     (let (i, s1) = new_chan b s; s2 = register X i s1
      in obind (write_unaligned hdr_bytes (unat hdr_offset) terminate_header (request (chans s2 i)))
           (\<lambda>m. let (req_ready, c) = publish ((chans s2 i)\<lparr> request := m \<rparr>)
                in Ok (s2\<lparr> chans := (chans s2)(i := c) \<rparr>)))"

end
