(* ===== verification/Local_Trust.thy ===== *)
theory Local_Trust
  imports Remote_Client
begin

text \<open>
  Trusts without a thread: the local trust (src/trust/local.rs), the single-threaded latch
  (src/single_thread/latch.rs) and the latched operations on a local trust
  (src/single_thread/launch.rs). A closure is a function from the value it is given to the
  value it leaves and its result, \<open>None\<close> when it panics.
\<close>

section \<open>The local trust\<close>

record 't Local =
  inner :: 't

definition local_entrust :: "'t \<Rightarrow> 't Local" where
  "local_entrust value = \<lparr> inner = value \<rparr>"

text \<open>A call of a closure on the inner value; a panic passes through to the caller.\<close>

definition local_call :: "'t \<times> 'r option \<Rightarrow> 't Local \<Rightarrow> 'r reply \<times> 't Local" where
  "local_call x l =
     (case x of
        (t, Some r) \<Rightarrow> (Returned r, l\<lparr> inner := t \<rparr>)
      | (t, None) \<Rightarrow> (CallerPanics ClosurePanicked, l\<lparr> inner := t \<rparr>))"

definition local_apply :: "('t \<Rightarrow> 't \<times> 'r option) \<Rightarrow> 't Local \<Rightarrow> 'r reply \<times> 't Local" where
  "local_apply f l = local_call (f (inner l)) l"

definition local_apply_then :: "('t \<Rightarrow> 't \<times> 'r option) \<Rightarrow> ('r \<Rightarrow> 'k) \<Rightarrow> 't Local \<Rightarrow> 'k reply \<times> 't Local" where
  "local_apply_then f k l = then_run (local_apply f l) k"

definition local_apply_with :: "('t \<Rightarrow> 'v \<Rightarrow> 't \<times> 'r option) \<Rightarrow> 'v \<Rightarrow> 't Local \<Rightarrow> 'r reply \<times> 't Local" where
  "local_apply_with f w l = local_call (f (inner l) w) l"

text \<open>A shared reference does not keep a closure from changing the value (\<open>Cell\<close>, atomics), so the
  closures of \<open>with\<close> and \<open>launch\<close> have the same type as those of \<open>apply\<close>.\<close>

definition local_with :: "('t \<Rightarrow> 't \<times> 'r option) \<Rightarrow> 't Local \<Rightarrow> 'r reply \<times> 't Local" where
  "local_with f l = local_call (f (inner l)) l"

definition local_apply_batch_mut :: "('t \<Rightarrow> 't \<times> unit option) \<Rightarrow> u8 \<Rightarrow> 't Local \<Rightarrow> unit reply \<times> 't Local" where
  "local_apply_batch_mut f n l = local_call (repeat_inline f (unat n) (inner l)) l"

definition local_into_inner :: "'t Local \<Rightarrow> 't" where
  "local_into_inner l = inner l"

text \<open>A launch spawns a scoped fiber and joins it at once.\<close>

definition local_launch :: "('t \<Rightarrow> 't \<times> 'r option) \<Rightarrow> 't Local \<Rightarrow> 'r reply \<times> 't Local" where
  "local_launch f l = local_call (f (inner l)) l"

definition local_launch_then :: "('t \<Rightarrow> 't \<times> 'r option) \<Rightarrow> ('r \<Rightarrow> 'k) \<Rightarrow> 't Local \<Rightarrow> 'k reply \<times> 't Local" where
  "local_launch_then f k l = then_run (local_launch f l) k"

section \<open>The latch\<close>

record 'u Latch =
  locked :: bool
  latched :: 'u

definition latch_new :: "'u \<Rightarrow> 'u Latch" where
  "latch_new value = \<lparr> locked = False, latched = value \<rparr>"

text \<open>The flag says whether a guard was handed out.\<close>

definition try_lock :: "'u Latch \<Rightarrow> bool \<times> 'u Latch" where
  "try_lock l = (if locked l then (False, l) else (True, l\<lparr> locked := True \<rparr>))"

definition lock :: "'u Latch \<Rightarrow> 'u Latch outcome" where
  "lock l = (case try_lock l of (True, l') \<Rightarrow> Ok l' | (False, l') \<Rightarrow> Panic LatchAlreadyLocked)"

definition latch_get_mut :: "('u \<Rightarrow> 'u) \<Rightarrow> 'u Latch \<Rightarrow> 'u Latch" where
  "latch_get_mut g l = l\<lparr> latched := g (latched l) \<rparr>"

definition latch_into_inner :: "'u Latch \<Rightarrow> 'u" where
  "latch_into_inner l = latched l"

definition is_locked :: "'u Latch \<Rightarrow> bool" where
  "is_locked l = locked l"

text \<open>Dropping the guard; its debug assertion holds whenever a guard exists.\<close>

definition latch_guard_drop :: "'u Latch \<Rightarrow> 'u Latch" where
  "latch_guard_drop l = l\<lparr> locked := False \<rparr>"

section \<open>Latched operations\<close>

text \<open>The code that runs in the critical section, given the latch it is in: the inner value is
  reached through the guard, and captured handles may reach the latch itself.\<close>

type_synonym ('u, 'r) section_code = "'u Latch \<Rightarrow> 'u Latch \<times> 'r option"

definition through_guard :: "('u \<Rightarrow> 'u \<times> 'r option) \<Rightarrow> ('u, 'r) section_code" where
  "through_guard f l = (case f (latched l) of (u, r) \<Rightarrow> (l\<lparr> latched := u \<rparr>, r))"

text \<open>The guard is dropped at the end of the section, by a return or by unwinding.\<close>

definition lock_apply :: "('u, 'r) section_code \<Rightarrow> 'u Latch Local \<Rightarrow> 'r reply \<times> 'u Latch Local" where
  "lock_apply g l =
     (case lock (inner l) of
        Ok l1 \<Rightarrow>
          (case g l1 of
             (l2, Some r) \<Rightarrow> (Returned r, l\<lparr> inner := latch_guard_drop l2 \<rparr>)
           | (l2, None) \<Rightarrow> (CallerPanics ClosurePanicked, l\<lparr> inner := latch_guard_drop l2 \<rparr>))
      | Panic p \<Rightarrow> (CallerPanics p, l)
      | UB u \<Rightarrow> (UndefinedBehaviour u, l))"

fun enqueue_then :: "'r reply \<times> 's \<Rightarrow> ('r \<Rightarrow> 'k) \<Rightarrow> 'k reply \<times> 's" where
  "enqueue_then (Returned r, s) k = (Returned (k r), s)"
| "enqueue_then (CallerPanics p, s) k = (CallerPanics p, s)"
| "enqueue_then (NoReply, s) k = (NoReply, s)"
| "enqueue_then (UndefinedBehaviour u, s) k = (UndefinedBehaviour u, s)"

definition lock_apply_then ::
    "('u, 'r) section_code \<Rightarrow> ('r \<Rightarrow> 'k) \<Rightarrow> 'u Latch Local \<Rightarrow> 'k reply \<times> 'u Latch Local" where
  "lock_apply_then g k l = enqueue_then (lock_apply g l) k"

definition lock_apply_with ::
    "('v \<Rightarrow> ('u, 'r) section_code) \<Rightarrow> 'v \<Rightarrow> 'u Latch Local \<Rightarrow> 'r reply \<times> 'u Latch Local" where
  "lock_apply_with g w l =
     (case lock (inner l) of
        Ok l1 \<Rightarrow>
          (case g w l1 of
             (l2, Some r) \<Rightarrow> (Returned r, l\<lparr> inner := latch_guard_drop l2 \<rparr>)
           | (l2, None) \<Rightarrow> (CallerPanics ClosurePanicked, l\<lparr> inner := latch_guard_drop l2 \<rparr>))
      | Panic p \<Rightarrow> (CallerPanics p, l)
      | UB u \<Rightarrow> (UndefinedBehaviour u, l))"

text \<open>Inspection: the section gets a shared reference, through which it may still change a value
  with interior mutability.\<close>

definition lock_with :: "('u, 'r) section_code \<Rightarrow> 'u Latch Local \<Rightarrow> 'r reply \<times> 'u Latch Local" where
  "lock_with g l =
     (case lock (inner l) of
        Ok l1 \<Rightarrow>
          (case g l1 of
             (l2, Some r) \<Rightarrow> (Returned r, l\<lparr> inner := latch_guard_drop l2 \<rparr>)
           | (l2, None) \<Rightarrow> (CallerPanics ClosurePanicked, l\<lparr> inner := latch_guard_drop l2 \<rparr>))
      | Panic p \<Rightarrow> (CallerPanics p, l)
      | UB u \<Rightarrow> (UndefinedBehaviour u, l))"

text \<open>Code of a section that enters the same latch again, as a captured handle allows.\<close>

definition reenter :: "('u, 'r) section_code \<Rightarrow> ('u, 'r) section_code" where
  "reenter g l =
     (case lock_apply g \<lparr> inner = l \<rparr> of
        (Returned r, l') \<Rightarrow> (inner l', Some r)
      | (_, l') \<Rightarrow> (inner l', None))"

lemma lock_cases:
  "lock l = (if locked l then Panic LatchAlreadyLocked else Ok (l\<lparr> locked := True \<rparr>))"
  by (simp add: lock_def try_lock_def)

section \<open>The latch and its guards\<close>

text \<open>A latch with the number of guards alive. A guard is handed out by \<open>try_lock\<close> or \<open>lock\<close> - a
  latched operation starts with such a step and ends with the guard's drop - and the value is
  reached through a guard, or through the latch itself when there is none. A failed attempt
  hands nothing out.\<close>

inductive latch_step :: "'u Latch \<times> nat \<Rightarrow> 'u Latch \<times> nat \<Rightarrow> bool" where
  acquires: "try_lock l = (True, l') \<Longrightarrow> latch_step (l, k) (l', Suc k)"
| fails: "try_lock l = (False, l') \<Longrightarrow> latch_step (l, k) (l', k)"
| enters: "lock l = Ok l' \<Longrightarrow> latch_step (l, k) (l', Suc k)"
| accesses: "0 < k \<Longrightarrow> latch_step (l, k) (l\<lparr> latched := u \<rparr>, k)"
| drops: "latch_step (l, Suc k) (latch_guard_drop l, k)"
| mutates: "latch_step (l, 0) (latch_get_mut h l, 0)"

inductive latch_reachable :: "'u \<Rightarrow> 'u Latch \<times> nat \<Rightarrow> bool" for v where
  start: "latch_reachable v (latch_new v, 0)"
| step: "latch_reachable v s \<Longrightarrow> latch_step s s' \<Longrightarrow> latch_reachable v s'"

lemma latch_guards:
  "latch_reachable v s \<Longrightarrow> snd s \<le> 1 \<and> locked (fst s) = (snd s = 1)"
proof (induction rule: latch_reachable.induct)
  case start
  then show ?case by (simp add: latch_new_def)
next
  case (step s s')
  then show ?case
    by (cases rule: latch_step.cases[OF step.hyps(2)])
      (auto simp: try_lock_def lock_cases through_guard_def latch_guard_drop_def latch_get_mut_def
        split: if_splits prod.splits)
qed

text \<open>What a section's end is to the caller.\<close>

fun section_reply :: "'r option \<Rightarrow> 'r reply" where
  "section_reply (Some r) = Returned r"
| "section_reply None = CallerPanics ClosurePanicked"

lemma lock_apply_section:
  "lock_apply g l =
     (if locked (inner l) then (CallerPanics LatchAlreadyLocked, l)
      else (case g ((inner l)\<lparr> locked := True \<rparr>) of (l2, r) \<Rightarrow> (section_reply r, l\<lparr> inner := l2\<lparr> locked := False \<rparr> \<rparr>)))"
  by (auto simp: lock_apply_def lock_cases latch_guard_drop_def split: prod.split option.split)

lemma lock_variants: "lock_with g l = lock_apply g l" "lock_apply_with h w l = lock_apply (h w) l"
  by (simp_all add: lock_apply_def lock_with_def lock_apply_with_def)

section \<open>Properties\<close>

text \<open>C38. The latch excludes: over every sequence of acquisitions, failed attempts, accesses and
  drops, at most one guard is alive, the flag is set exactly while one is, and an attempt succeeds
  exactly when none is. A latched operation therefore panics, changing nothing, while a guard is
  alive; otherwise its section runs in the state with one guard alive, and when the section has
  kept that guard, the operation ends - by a return or by a panic - in the state with none, the
  value as the section left it.\<close>

theorem latch_excludes:
  assumes "latch_reachable v (l, k)" "g (l\<lparr> locked := True \<rparr>) = (l2, r)"
  shows "k \<le> 1 \<and> is_locked l = (k = 1) \<and> fst (try_lock l) = (k = 0) \<and>
     lock_apply g \<lparr> inner = l \<rparr> =
       (if k = 0 then (section_reply r, \<lparr> inner = l2\<lparr> locked := False \<rparr> \<rparr>)
        else (CallerPanics LatchAlreadyLocked, \<lparr> inner = l \<rparr>)) \<and>
     (k = 0 \<longrightarrow> latch_reachable v (l\<lparr> locked := True \<rparr>, 1)) \<and>
     (latch_reachable v (l2, 1) \<longrightarrow> latch_reachable v (l2\<lparr> locked := False \<rparr>, 0))"
proof -
  have g: "k \<le> 1" "locked l = (k = 1)" using latch_guards[OF assms(1)] by simp_all
  have "latch_reachable v (l\<lparr> locked := True \<rparr>, 1)" if "k = 0"
    using latch_reachable.step[OF assms(1) latch_step.enters[of l "l\<lparr> locked := True \<rparr>" k]] that g(2)
    by (simp add: lock_cases)
  moreover have "latch_reachable v (l2\<lparr> locked := False \<rparr>, 0)" if "latch_reachable v (l2, 1)"
    using latch_reachable.step[OF that] latch_step.drops[of l2 0] by (simp add: latch_guard_drop_def)
  moreover have "lock_apply g \<lparr> inner = l \<rparr> =
       (if k = 0 then (section_reply r, \<lparr> inner = l2\<lparr> locked := False \<rparr> \<rparr>)
        else (CallerPanics LatchAlreadyLocked, \<lparr> inner = l \<rparr>))"
    using g assms(2) by (auto simp: lock_apply_section le_Suc_eq)
  ultimately show ?thesis using g by (auto simp: is_locked_def try_lock_def)
qed

text \<open>A section that enters its own latch again.\<close>

theorem latch_excludes_witness:
  "lock_apply (reenter (through_guard (\<lambda>u. (u + 1, Some u)))) \<lparr> inner = latch_new (4 :: nat) \<rparr> =
     (CallerPanics ClosurePanicked, \<lparr> inner = latch_new 4 \<rparr>) \<and>
   \<not> fst (try_lock ((latch_new (4 :: nat))\<lparr> locked := True \<rparr>))"
proof -
  let ?g = "through_guard (\<lambda>u. (u + 1, Some u)) :: (nat, nat) section_code"
  let ?l = "latch_new (4 :: nat)" and ?h = "(latch_new (4 :: nat))\<lparr> locked := True \<rparr>"
  have s: "latch_reachable 4 (?l, 0)" by (rule latch_reachable.start)
  have i: "reenter ?g ?h = (?h, None)" by (simp add: reenter_def lock_apply_section)
  from latch_excludes[OF s, of "reenter ?g", OF i] have
    o: "lock_apply (reenter ?g) \<lparr> inner = ?l \<rparr> = (CallerPanics ClosurePanicked, \<lparr> inner = ?h\<lparr> locked := False \<rparr> \<rparr>)"
    and r: "latch_reachable 4 (?h, 1)" by simp_all
  have j: "reenter ?g (?h\<lparr> locked := True \<rparr>) = (?h, None)" using i by simp
  from latch_excludes[OF r, of "reenter ?g", OF j] o show ?thesis by (simp add: latch_new_def)
qed

text \<open>The section is not re-entrant: code that enters the latch it already holds panics
  before its own section runs, the inner value is untouched by the attempt, and the unwinding
  frees the latch for later operations.\<close>

lemma latch_not_reentrant:
  assumes "\<not> locked (inner l)"
  shows "lock_apply (reenter g) l =
     (CallerPanics ClosurePanicked, l\<lparr> inner := (inner l)\<lparr> locked := False \<rparr> \<rparr>)"
  using assms by (simp add: lock_apply_def lock_cases reenter_def latch_guard_drop_def)

end
