(* ===== verification/Runtime_Rounds.thy ===== *)
theory Runtime_Rounds
  imports Runtime_Loop
begin

text \<open>
  Rounds of the worker loop: what registration hands over and in which order, the loop's own
  invariant, which client a round serves, and the order of service under load.
\<close>

section \<open>Registrations\<close>

lemma drain_take_up_to:
  "drain X k s = s\<lparr> reg := snd (take_up_to (reg_pop X) k (reg s)),
                    clients := clients s @ fst (take_up_to (reg_pop X) k (reg s)) \<rparr>"
  by (induction X k s rule: drain.induct) (auto split: option.splits prod.splits)

lemma drain_simps [simp]:
  "chans (drain X k s) = chans s" "start_idx (drain X k s) = start_idx s"
  "idle_rounds (drain X k s) = idle_rounds s" "loop_counter (drain X k s) = loop_counter s"
  "status (drain X k s) = status s" "fibers (drain X k s) = fibers s" "n_fibers (drain X k s) = n_fibers s"
  "fiber_pool (drain X k s) = fiber_pool s" "prop_cell (drain X k s) = prop_cell s"
  by (simp_all add: drain_take_up_to)

lemma poll_registrations_cases:
  "poll_registrations X s = s \<or> poll_registrations X s = drain X DRAIN_CHUNK s"
  by (simp add: poll_registrations_def)

section \<open>The loop's invariant\<close>

text \<open>What every round relies on and restores: the start index names a client as soon as
  there is one, and the idle counter stays within its bound.\<close>

definition wf_loop :: "('t, 'q, 'p) rt \<Rightarrow> bool" where
  "wf_loop s \<longleftrightarrow>
     (if clients s = [] then start_idx s = 0 else start_idx s < length (clients s)) \<and>
     idle_rounds s \<le> IDLE_SPINS"

lemma wf_loop_drain: "wf_loop s \<Longrightarrow> wf_loop (drain X k s)"
  by (auto simp: wf_loop_def drain_take_up_to split: if_splits)

lemma wf_loop_poll: "wf_loop s \<Longrightarrow> wf_loop (poll_registrations X s)"
  using poll_registrations_cases[of X s] wf_loop_drain[of s X] by (metis (full_types))

lemma wf_loop_idle_step: "wf_loop s \<Longrightarrow> wf_loop (idle_step s)"
  by (auto simp: wf_loop_def idle_step_def IDLE_SPINS_def)

lemma visit_not_served:
  assumes "visit X n idx s = Next (s', False)"
  shows "s' = skip_client idx s"
proof -
  have idx: "idx < length (clients s)" using assms by (auto simp: visit_def split: if_splits)
  have "\<not> servable s idx" using visit_servable[OF _ assms] by blast
  from visit_unserved[OF idx this, of X n] assms show ?thesis by (metis flow.inject(1) prod.inject)
qed

lemma scan_ConsE:
  assumes "scan X n (x # os) pr s = Next r"
  obtains s1 b where "visit X n (scan_index n (start_idx s) x) s = Next (s1, b)"
    "scan X n os (pr \<or> b) s1 = Next r"
  using assms by (auto split: flow.splits)

lemma scan_frame_reg:
  "scan X n os pr s = Next (s', pr') \<Longrightarrow>
   reg s' = reg s \<and> loop_counter s' = loop_counter s \<and> idle_rounds s' = idle_rounds s \<and> status s' = status s"
proof (induction os arbitrary: pr s)
  case Nil
  then show ?case by simp
next
  case (Cons x os)
  from Cons.prems obtain s1 b where v: "visit X n (scan_index n (start_idx s) x) s = Next (s1, b)"
    and r: "scan X n os (pr \<or> b) s1 = Next (s', pr')"
    by (rule scan_ConsE)
  let ?idx = "scan_index n (start_idx s) x"
  have "reg s1 = reg s \<and> loop_counter s1 = loop_counter s \<and> idle_rounds s1 = idle_rounds s \<and> status s1 = status s"
  proof (cases b)
    case True
    then show ?thesis
      using visit_served_frame(1)[of X n ?idx s s1 "cp_chan (clients s ! ?idx)"] v
      by (simp add: frame_def)
  next
    case False
    then have "visit X n ?idx s = Next (s1, False)" using v by simp
    then have "s1 = skip_client ?idx s" by (rule visit_not_served)
    then show ?thesis by (simp add: skip_client_def upd_client_def)
  qed
  then show ?case using Cons.IH[OF r] by simp
qed

lemma wf_loop_start: "wf_loop (s\<lparr> loop_counter := c \<rparr>) = wf_loop s"
  by (simp add: wf_loop_def)

lemma worker_round_wf:
  assumes w: "wf_loop s" and r: "worker_round X s = Next s'"
  shows "wf_loop s'"
proof -
  let ?s1 = "poll_registrations X (s\<lparr> loop_counter := loop_counter s + 1 \<rparr>)"
  have w1: "wf_loop ?s1" by (intro wf_loop_poll) (simp add: wf_loop_start w)
  show ?thesis
  proof (cases "clients ?s1 = []")
    case True
    then have "s' = idle_step ?s1" using r by (simp add: worker_round_def Let_def)
    then show ?thesis using w1 wf_loop_idle_step by blast
  next
    case False
    then obtain s2 pr where sc: "scan X (length (clients ?s1)) [0..<length (clients ?s1)] False ?s1 = Next (s2, pr)"
      and s': "s' = (if pr then s2\<lparr> idle_rounds := 0 \<rparr> else idle_step s2)"
      using r by (auto simp: worker_round_def Let_def split: flow.splits prod.splits)
    have "start_idx ?s1 < length (clients ?s1)" using w1 False by (simp add: wf_loop_def)
    from scan_keeps[OF sc refl this] scan_frame_reg[OF sc] w1 False
    have "wf_loop s2" by (auto simp: wf_loop_def)
    moreover have "wf_loop (s2\<lparr> idle_rounds := 0 \<rparr>)" using calculation by (auto simp: wf_loop_def)
    ultimately show ?thesis using s' wf_loop_idle_step by auto
  qed
qed

section \<open>Service of one client, seen by the others\<close>

text \<open>With distinct channels, serving one client changes nothing another client is judged
  by.\<close>

lemma visit_served_others:
  assumes v: "visit X n idx s = Next (s', True)"
    and d: "distinct (map cp_chan (clients s))" and k: "k < length (clients s)" "k \<noteq> idx"
  shows "servable s' k = servable s k" and "chans s' (cp_chan (clients s ! k)) = chans s (cp_chan (clients s ! k))"
    and "clients s' ! k = clients s ! k"
proof -
  let ?i = "cp_chan (clients s ! idx)"
  have idx: "idx < length (clients s)" using v by (auto simp: visit_def split: if_splits)
  have fr: "frame idx ?i s (s'\<lparr> start_idx := start_idx s \<rparr>)" by (rule visit_served_frame(1)[OF v refl])
  have "cp_chan (clients s ! k) \<noteq> ?i"
    using d idx k by (metis length_map nth_eq_iff_index_eq nth_map)
  then show c: "chans s' (cp_chan (clients s ! k)) = chans s (cp_chan (clients s ! k))"
    using fr by (simp add: frame_def)
  show cl: "clients s' ! k = clients s ! k" using fr k by (simp add: frame_def)
  show "servable s' k = servable s k" using c cl by (simp add: servable_def)
qed

lemma visit_served_chans:
  assumes v: "visit X n idx s = Next (s', True)"
  shows "map cp_chan (clients s') = map cp_chan (clients s)"
proof -
  have fr: "frame idx (cp_chan (clients s ! idx)) s (s'\<lparr> start_idx := start_idx s \<rparr>)"
    by (rule visit_served_frame(1)[OF v refl])
  show ?thesis
  proof (rule nth_equalityI)
    show "length (map cp_chan (clients s')) = length (map cp_chan (clients s))"
      using fr by (simp add: frame_def)
    show "map cp_chan (clients s') ! k = map cp_chan (clients s) ! k"
      if "k < length (map cp_chan (clients s'))" for k
      using fr that by (cases "k = idx") (simp_all add: frame_def)
  qed
qed

lemma map_cp_chan_skip [simp]: "map cp_chan (clients (skip_client j s)) = map cp_chan (clients s)"
  by (rule nth_equalityI) simp_all

lemma visit_served_length: "visit X n idx s = Next (s', True) \<Longrightarrow> length (clients s') = length (clients s)"
  by (rule map_eq_imp_length_eq[OF visit_served_chans])

text \<open>A visit either serves or leaves every client's standing as it was; a client once served
  in a scan is not served a second time in it.\<close>

lemma visit_keeps_unservable:
  assumes v: "visit X n idx s = Next (s', b)" and d: "distinct (map cp_chan (clients s))"
    and k: "k < length (clients s)" "\<not> servable s k"
  shows "\<not> servable s' k" and "map cp_chan (clients s') = map cp_chan (clients s)"
proof -
  have idx: "idx < length (clients s)" using v by (auto simp: visit_def split: if_splits)
  show "\<not> servable s' k"
  proof (cases b)
    case True
    then have v': "visit X n idx s = Next (s', True)" using v by simp
    show ?thesis
      using visit_served_done[OF v'] visit_served_others(1)[OF v' d k(1)] k(2) by (cases "k = idx") auto
  next
    case False
    then have "visit X n idx s = Next (s', False)" using v by simp
    then have "s' = skip_client idx s" by (rule visit_not_served)
    then show ?thesis using k(2) by simp
  qed
  show "map cp_chan (clients s') = map cp_chan (clients s)"
  proof (cases b)
    case True
    then have "visit X n idx s = Next (s', True)" using v by simp
    then show ?thesis by (rule visit_served_chans)
  next
    case False
    then have "visit X n idx s = Next (s', False)" using v by simp
    then have "s' = skip_client idx s" by (rule visit_not_served)
    then show ?thesis by simp
  qed
qed

lemma scan_keeps_unservable:
  assumes "scan X n os pr s = Next (s', pr')" "distinct (map cp_chan (clients s))"
    "k < length (clients s)" "\<not> servable s k"
  shows "\<not> servable s' k"
  using assms
proof (induction os arbitrary: pr s)
  case Nil
  then show ?case by simp
next
  case (Cons x os)
  from Cons.prems(1) obtain s1 b where v: "visit X n (scan_index n (start_idx s) x) s = Next (s1, b)"
    and r: "scan X n os (pr \<or> b) s1 = Next (s', pr')"
    by (rule scan_ConsE)
  note keep = visit_keeps_unservable[OF v Cons.prems(2-4)]
  have "length (clients s1) = length (clients s)" using keep(2) by (metis length_map)
  then show ?case using Cons.IH[OF r _ _ keep(1)] Cons.prems(2,3) keep(2) by simp
qed

section \<open>Sample states\<close>

text \<open>A program whose only vtable, at address 0x5000, belongs to a closure that adds one to the
  property; channels that hold one posted record calling it; and a worker with such
  channels.\<close>

definition sample_world :: "(nat, ClientPair list, nat list) world" where
  "sample_world =
     \<lparr> vt_mut = (\<lambda>a. if a = 0x5000 then Some (VTABLE 0 1 (\<lambda>_ t. Ok (t + 1, False))) else None),
       vt_out = (\<lambda>_. None), vt_args = (\<lambda>_. None), prop_bytes = (\<lambda>_. []),
       reg_push = list_push, reg_pop = list_pop, pool_push = list_push, pool_pop = list_pop \<rparr>"

definition sample_hdr :: RequestRecordHeader where
  "sample_hdr =
     \<lparr> closure = \<lparr> data = 1, vtable = 0x5000 \<rparr>, property_ptr = CallMutRetUnit,
       captured_len = 0, args_len = 0, args_offset = 48, repeat_count = 1 \<rparr>"

definition sample_chan :: ChannelPair where
  "sample_chan =
     \<lparr> request_base = 0x10000,
       request = le_bytes 4 (pack_ready_count True 1) @ replicate 4 0 @ hdr_bytes sample_hdr @ replicate 1104 0,
       response = replicate 1152 0 \<rparr>"

definition sample_rt :: "nat \<Rightarrow> (nat, ClientPair list, nat list) rt" where
  "sample_rt k =
     \<lparr> chans = (\<lambda>_. sample_chan), n_chans = k, reg = [], fiber_pool = [],
       fibers = (\<lambda>_. \<lparr> inbox = [], exited = False \<rparr>), n_fibers = 0,
       trustee_id = 1, trustee_prop = True, prop_cell = 0, prop_arcs = 1, prop_drops = 0, prop_moves = 0,
       clients = map new_client_pair [0..<k], start_idx = 0, idle_rounds = 0, loop_counter = 0,
       fiber_handles = [], status = Running \<rparr>"

lemma sample_posted: "posted sample_chan True sample_hdr"
  unfolding posted_def
proof (intro conjI)
  show "load_flags (request sample_chan) = pack_ready_count True 1"
    by (simp add: load_flags_def sample_chan_def)
  have "load_flags (response sample_chan) = 0"
    by (simp add: load_flags_def sample_chan_def numeral_nat)
  then show "ready (load_flags (response sample_chan)) = (\<not> True)"
    by (simp add: header_word_defs)
  show "read_at 8 40 (request sample_chan) = Some (hdr_bytes sample_hdr)"
    by (simp add: read_at_def sample_chan_def hdr_layout.enc_length)
qed

lemma sample_rt_simps [simp]:
  "length (clients (sample_rt k)) = k" "start_idx (sample_rt k) = 0" "chans (sample_rt k) i = sample_chan"
  "j < k \<Longrightarrow> clients (sample_rt k) ! j = new_client_pair j"
  "map cp_chan (clients (sample_rt k)) = [0..<k]"
  by (simp_all add: sample_rt_def new_client_pair_def map_idI)

lemma sample_servable: "j < k \<Longrightarrow> servable (sample_rt k) j"
  using posted_not_idle[OF sample_posted] by (simp add: servable_def new_client_pair_def)

lemma sample_dispatch:
  "dispatch_record sample_world idx i b sample_hdr s = Next (s\<lparr> prop_cell := prop_cell s + 1 \<rparr>, False)"
  by (simp add: dispatch_record_def sample_hdr_def serve_CallMutRetUnit_def sample_world_def
      decode_and_call_def VTABLE_def call_once_shim_def Let_def)

lemma sample_visit:
  assumes "idx < length (clients s)" "cp_chan (clients s ! idx) = i" "chans s i = sample_chan" "servable s idx"
  shows "\<exists>s'. visit sample_world n idx s = Next (s', True) \<and> start_idx s' = (idx + 1) mod n \<and>
    prop_cell s' = prop_cell s + 1"
  using visit_posted[of idx s i True sample_hdr sample_world n] assms sample_posted
  by (simp add: sample_dispatch finish_request_def upd_chan_def clear_pending_def upd_client_def)

text \<open>Registrations reach the worker in the order they were made, at most a chunk at a time.\<close>

lemma drain_fifo:
  assumes "seg_queue items (reg_push X) (reg_pop X)"
  shows "clients (drain X k s) = clients s @ take k (items (reg s)) \<and>
         items (reg (drain X k s)) = drop k (items (reg s))"
  using seg_queue.take_up_to_items[OF assms, of k "reg s"]
  by (simp add: drain_take_up_to prod_eq_iff)

section \<open>Properties\<close>

text \<open>The loop's invariant survives every round, so every index of the next scan names a
  client: the slice access of the scan cannot panic, whatever registrations arrive.\<close>

lemma worker_round_invariant:
  assumes "wf_loop s" "worker_round X s = Next s'"
  shows "wf_loop s' \<and>
     (\<forall>offs < length (clients s'). scan_index (length (clients s')) (start_idx s') offs < length (clients s'))"
  using worker_round_wf[OF assms] by (auto simp: wf_loop_def scan_index_lt split: if_splits)

text \<open>A scan serves the first client that can be served, counting from the start index,
  and passes over the ones before it without touching any channel.\<close>

lemma scan_serves_first:
  assumes "first_servable s k" "start_idx s < length (clients s)"
  shows "let n = length (clients s); s0 = skip_clients (map (scan_index n (start_idx s)) [0..<k]) s
     in scan X n [0..<n] False s =
          (case visit X n (scan_index n (start_idx s) k) s0 of
             Next (s1, b) \<Rightarrow> scan X n [Suc k..<n] True s1
           | Halt (s1, _) \<Rightarrow> Halt (s1, False)
           | Undefined u \<Rightarrow> Undefined u
           | Diverge \<Rightarrow> Diverge) \<and>
        chans s0 = chans s"
  using scan_first[OF assms(1) refl assms(2)] by (simp add: Let_def)

text \<open>A request is executed once: after the visit that serves a client, the client is not
  servable again, and no later visit of the same scan makes it so - whether the request was
  answered or handed to a fiber.\<close>

lemma served_once_per_scan:
  assumes "visit X n idx s = Next (s1, True)" "scan X n os True s1 = Next (s2, pr)"
    and "distinct (map cp_chan (clients s))"
  shows "\<not> servable s1 idx \<and> \<not> servable s2 idx"
proof -
  have c: "map cp_chan (clients s1) = map cp_chan (clients s)" by (rule visit_served_chans[OF assms(1)])
  have "idx < length (clients s)" using assms(1) by (auto simp: visit_def split: if_splits)
  then have "idx < length (clients s1)" using c by (metis length_map)
  then show ?thesis
    using visit_served_done[OF assms(1)] scan_keeps_unservable[OF assms(2)] assms(3) c by simp
qed

text \<open>The order of service is not the round-robin order it is meant to be: the start index
  moves inside the scan while the offsets go on, so with three clients that all have a request
  posted, a scan from index 0 serves the clients 0 and 2, leaves the request of client 1 as it
  was and ends with the start index at 0 again. Clients 0 and 2 that keep posting starve
  client 1.\<close>

lemma scan_skips_second_of_three:
  assumes "length (clients s) = 3" "start_idx s = 0" "distinct (map cp_chan (clients s))"
    and "servable s 0" "servable s 1" "servable s 2"
    and "scan X 3 [0..<3] False s = Next (s', pr)"
  shows "start_idx s' = 0 \<and> \<not> servable s' 0 \<and> servable s' 1 \<and> \<not> servable s' 2 \<and>
     chans s' (cp_chan (clients s ! 1)) = chans s (cp_chan (clients s ! 1))"
proof -
  have i1: "scan_index 3 0 0 = 0" and i2: "scan_index 3 1 1 = 2" and i3: "scan_index 3 0 2 = 2"
    by (simp_all add: scan_index_def)
  have "[0..<3] = [0, 1, 2 :: nat]" by (simp add: upt_rec)
  then have sc: "scan X 3 [0, 1, 2] False s = Next (s', pr)" using assms(7) by simp
  obtain s1 b1 where v1: "visit X 3 0 s = Next (s1, b1)" and sc1: "scan X 3 [1, 2] (False \<or> b1) s1 = Next (s', pr)"
    by (rule scan_ConsE[OF sc, unfolded assms(2) i1])
  have b1: "b1" using visit_servable[OF assms(4) v1] .
  have v1': "visit X 3 0 s = Next (s1, True)" using v1 b1 by simp
  have c1: "map cp_chan (clients s1) = map cp_chan (clients s)" by (rule visit_served_chans[OF v1'])
  have l1: "length (clients s1) = 3" using visit_served_length[OF v1'] assms(1) by simp
  have d1: "distinct (map cp_chan (clients s1))" using c1 assms(3) by simp
  note o1 = visit_served_others[OF v1' assms(3)]
  have st1: "start_idx s1 = 1" using visit_served_frame(2)[OF v1' refl] by simp
  obtain s2 b2 where v2: "visit X 3 2 s1 = Next (s2, b2)" and sc2: "scan X 3 [2] ((False \<or> b1) \<or> b2) s2 = Next (s', pr)"
    by (rule scan_ConsE[OF sc1, unfolded st1 i2])
  have sv2: "servable s1 2" using o1(1)[of 2] assms(1,6) by simp
  have v2': "visit X 3 2 s1 = Next (s2, True)" using v2 visit_servable[OF sv2 v2] by simp
  note o2 = visit_served_others[OF v2' d1]
  have st2: "start_idx s2 = 0" using visit_served_frame(2)[OF v2' refl] by simp
  obtain b3 where v3: "visit X 3 2 s2 = Next (s', b3)"
    by (rule scan_ConsE[OF sc2, unfolded st2 i3]) simp
  have "\<not> servable s2 2" by (rule visit_served_done[OF v2'])
  moreover have "2 < length (clients s2)" using visit_served_length[OF v2'] l1 by simp
  ultimately have s': "s' = skip_client 2 s2" using visit_unserved[of 2 s2 X 3] v3 by simp
  have n0: "\<not> servable s2 0" using o2(1)[of 0] visit_served_done[OF v1'] l1 by simp
  have n1: "servable s2 1" using o2(1)[of 1] o1(1)[of 1] l1 assms(1,5) by simp
  have ch: "chans s2 (cp_chan (clients s ! 1)) = chans s (cp_chan (clients s ! 1))"
    using o2(2)[of 1] o1(2,3)[of 1] l1 assms(1) by simp
  show ?thesis using s' st2 n0 n1 ch visit_served_done[OF v2'] by simp
qed

end
