(* ===== verification/Remote_Request.thy ===== *)
theory Remote_Request
  imports Remote_Client Runtime_Rounds
begin

text \<open>
  A written request as the worker sees it: the record a client publishes is the one posted
  record of its channel, the closure and the argument bytes behind it are the client's, and
  the adapters run the client's code.
\<close>

section \<open>Offsets\<close>

lemma hdr_offset_8 [simp]: "hdr_offset = 8"
  by (simp add: hdr_offset_def)

lemma payload_offset_48 [simp]: "payload_offset = 48"
  by (simp add: payload_offset_def)

lemma request_writer_simps [simp]:
  "base (request_writer c) = request_base c" "cursor (request_writer c) = 48"
  "len (request_writer c) = SLOT_BYTES"
  by (simp_all add: request_writer_def)

lemma wf_request_writer: "wf_chan c \<Longrightarrow> wf_writer (request_writer c) (request c)"
  by (simp add: wf_writer_def wf_chan_def)

section \<open>Publishing a request\<close>

text \<open>The request fits: captures and arguments end inside the slot, and the captures need no more
  than the alignment every channel has.\<close>

definition fits :: "fn_value \<Rightarrow> nat \<Rightarrow> bool" where
  "fits f n \<longleftrightarrow> wf_fn f \<and> args_pos 48 f n + n \<le> 1152 \<and> unat (fn_align f) dvd 8"

lemma fits_aligned: "wf_chan c \<Longrightarrow> fits f n \<Longrightarrow> base_aligned (request_writer c) f"
  by (auto simp: base_aligned_def wf_chan_def fits_def dest: dvd_trans)

text \<open>A channel that holds a published request for \<open>f\<close> with argument bytes \<open>args\<close>.\<close>

definition request_of ::
    "ChannelPair \<Rightarrow> PropertyPtr \<Rightarrow> fn_value \<Rightarrow> u8 list \<Rightarrow> (RequestRecordHeader \<Rightarrow> RequestRecordHeader) \<Rightarrow>
     bool \<Rightarrow> ChannelPair \<Rightarrow> bool" where
  "request_of c p f args fix_hdr b c' \<longleftrightarrow>
     wf_chan c' \<and> request_base c' = request_base c \<and> response c' = response c \<and>
     posted c' b (fix_hdr (encoded_header (request_writer c) p f (length args))) \<and>
     read_at (env_pos 48 f) (unat (fn_size f)) (request c') = Some (fn_env f) \<and>
     read_at (args_pos 48 f (length args)) (length args) (request c') = Some args"

lemma write_publish:
  assumes c: "wf_chan c" and f: "fits f (length args)"
  obtains c1 c2 where "write_request p f args fix_hdr c = Ok c1"
    "publish c1 = (\<not> ready (load_flags (response c)), c2)"
    "request_of c p f args fix_hdr (\<not> ready (load_flags (response c))) c2"
proof -
  let ?w = "request_writer c" and ?n = "length args" and ?b = "\<not> ready (load_flags (response c))"
  have wf: "wf_fn f" and a: "args_pos 48 f ?n + ?n \<le> 1152" using f by (auto simp: fits_def)
  have L: "length (request c) = 1152" "length (response c) = 1152" using c by (auto simp: wf_chan_def)
  have n: "?n < 2 ^ 63" using a by simp
  note w = wf_request_writer[OF c]
  obtain out' m hdr where enc: "encode_closure ?w p f args (request c) = Ok (out', m, hdr)"
    using encode_closure_eq[OF w wf n fits_aligned[OF c f], of p] a L by (auto simp: Let_def)
  note mem = encode_closure_memory[OF w wf n enc]
  have m: "length m = 1152"
    and e1: "read_at (env_pos 48 f) (unat (fn_size f)) m = Some (fn_env f)"
    and a1: "read_at (args_pos 48 f ?n) ?n m = Some args"
    using mem(1) L by (auto simp: encoded_in_def Let_def)
  let ?h = "fix_hdr hdr"
  have hl: "length (hdr_bytes ?h) = 40" by (rule hdr_layout.enc_length)
  obtain m' where m': "write_at 8 (hdr_bytes ?h) m = Some m'"
    using write_at_Some_iff[of 8 "hdr_bytes ?h" m] hl m by auto
  let ?c1 = "c\<lparr> request := m' \<rparr>"
  have wr: "write_request p f args fix_hdr c = Ok ?c1"
    using enc m' by (simp add: write_request_def write_unaligned_def)
  have lm: "length m' = 1152" using write_at_length[OF m'] m by simp
  have ep: "48 \<le> env_pos 48 f" "env_pos 48 f \<le> args_pos 48 f ?n"
    using env_pos_ge[OF wf, of 48] args_pos_ge[of 48 f ?n] by auto
  let ?c2 = "set_req_flags (pack_ready_count ?b 1) ?c1"
  have pub: "publish ?c1 = (?b, ?c2)" by (simp add: publish_def Let_def)
  have "posted ?c2 ?b ?h"
    using read_at_write_same[OF m', of 40] hl lm
    by (simp add: posted_def set_req_flags_def load_store_flags read_at_store_flags)
  moreover have "read_at (env_pos 48 f) (unat (fn_size f)) (request ?c2) = Some (fn_env f)"
    using read_at_write_after[OF m', of "env_pos 48 f"] hl ep lm e1
    by (simp add: set_req_flags_def read_at_store_flags)
  moreover have "read_at (args_pos 48 f ?n) ?n (request ?c2) = Some args"
    using read_at_write_after[OF m', of "args_pos 48 f ?n"] hl ep lm a1
    by (simp add: set_req_flags_def read_at_store_flags)
  ultimately have "request_of c p f args fix_hdr ?b ?c2"
    using mem(2) lm c by (simp add: request_of_def wf_chan_def set_req_flags_def length_store_flags)
  then show ?thesis using that wr pub by blast
qed

lemma write_request_overflow:
  assumes c: "wf_chan c" and wf: "wf_fn f" and a: "1152 < args_pos 48 f (length args) + length args"
    and n: "length args < 2 ^ 63" and b: "unat (fn_align f) dvd 8"
  shows "write_request p f args fix_hdr c = Panic SlotOverflow"
proof -
  have "base_aligned (request_writer c) f"
    using c b by (auto simp: base_aligned_def wf_chan_def dest: dvd_trans)
  then show ?thesis
    using encode_closure_eq[OF wf_request_writer[OF c] wf n, of p] a c
    by (simp add: write_request_def Let_def wf_chan_def)
qed

section \<open>What the worker runs\<close>

lemma request_of_calls:
  assumes r: "request_of c p f args fix_hdr b c'" and wf: "fits f (length args)"
    and vt: "vtables (fn_vtable f) = Some (VTABLE (fn_size f) (fn_align f) code)"
    and h: "\<And>h. closure (fix_hdr h) = closure h"
  shows "decode_and_call vtables (request_base c') (request c')
           (fix_hdr (encoded_header (request_writer c) p f (length args))) x = code (fn_env f) x"
proof -
  have e: "env_pos 48 f < 2 ^ 64"
    using wf args_pos_ge[of 48 f "length args"] by (simp add: fits_def)
  have "8 dvd unat (request_base c)" using r by (auto simp: request_of_def wf_chan_def)
  then have b: "base_aligned (request_writer c) f"
    using wf by (auto simp: base_aligned_def fits_def dest: dvd_trans)
  have f: "wf_fn f" using wf by (simp add: fits_def)
  show ?thesis
    using decode_and_call_encoded[where vtables = vtables and f = f and code = code and out = "request_writer c"
        and m = "request c'" and x = x and hdr = "fix_hdr (encoded_header (request_writer c) p f (length args))",
        OF f b vt]
      r e h by (simp add: request_of_def)
qed

lemma request_of_args:
  assumes r: "request_of c p f args fix_hdr b c'" and wf: "fits f (length args)"
    and hd: "hdr = encoded_header (request_writer c) p f (length args)"
  shows "read_at (unat (args_offset hdr)) (unat (args_len hdr)) (request c') = Some args"
proof -
  have "args_pos 48 f (length args) + length args \<le> 1152" using wf by (simp add: fits_def)
  then have "unat (args_offset hdr) = args_pos 48 f (length args)" "unat (args_len hdr) = length args"
    by (simp_all add: hd encoded_header_def unsigned_of_nat take_bit_nat_eq_self)
  then show ?thesis using r by (simp add: request_of_def)
qed

lemma wf_ret_length: "wf_ret R \<Longrightarrow> length (ret_enc R x) = ret_size R"
  by (simp add: wf_ret_def layout_def)

lemma wf_ret_dec: "wf_ret R \<Longrightarrow> ret_dec R (ret_enc R x) = Some x"
  by (simp add: wf_ret_def layout_def)

text \<open>A result the type's representation carries.\<close>

definition codes :: "'r ret_type \<Rightarrow> 'r \<Rightarrow> bool" where
  "codes R r \<longleftrightarrow> length (ret_enc R r) = ret_size R \<and> ret_dec R (ret_enc R r) = Some r"

lemma wf_ret_codes: "wf_ret R \<Longrightarrow> codes R r"
  by (simp add: codes_def wf_ret_length wf_ret_dec)

text \<open>What an adapter that returns leaves behind the response pointer.\<close>

definition after_result :: "'r ret_type \<Rightarrow> u8 list \<Rightarrow> 'r \<Rightarrow> u8 list" where
  "after_result R d r = ret_enc R r @ drop (ret_size R) d"

lemma finish_adapter_Some:
  assumes "codes R r" "ret_size R \<le> length d"
  shows "finish_adapter R d (t, Some r) = Ok (t, after_result R d r, False)"
  using assms by (simp add: codes_def finish_adapter_def write_unaligned_def write_at_def after_result_def)

text \<open>The response slot after the worker has written the result and the flag word.\<close>

definition answered :: "bool \<Rightarrow> u8 list \<Rightarrow> ChannelPair \<Rightarrow> ChannelPair" where
  "answered b d c = set_resp_flags (pack_ready_count b 1) (set_resp_data d c)"

lemma answered_simps [simp]:
  "request (answered b d c) = request c" "request_base (answered b d c) = request_base c"
  "response (answered b d c) = store_flags (pack_ready_count b 1) (take 4 (response c) @ d)"
  by (simp_all add: answered_def set_resp_flags_def set_resp_data_def)

lemma answered_wf: "wf_chan c \<Longrightarrow> length d = 1148 \<Longrightarrow> wf_chan (answered b d c)"
  by (simp add: wf_chan_def length_store_flags)

lemma length_resp_data: "wf_chan c \<Longrightarrow> length (resp_data c) = 1148"
  by (simp add: resp_data_def wf_chan_def)

lemma answered_same: "wf_chan c \<Longrightarrow> answered b (resp_data c) c = set_resp_flags (pack_ready_count b 1) c"
  by (simp add: answered_def set_resp_data_def resp_data_def set_resp_flags_def wf_chan_def)

lemma length_after_result: "codes R r \<Longrightarrow> ret_size R \<le> length d \<Longrightarrow> length (after_result R d r) = length d"
  by (simp add: after_result_def codes_def)

lemma answered_ready [simp]: "ready (load_flags (response (answered b d c))) = b"
  by (simp add: load_store_flags)

lemma read_answered:
  assumes "wf_chan c" "codes R r" "ret_size R \<le> 1148"
  shows "read_response (ret_size R) (ret_dec R) (answered b (after_result R (resp_data c) r) c) = Ok r"
proof -
  let ?d = "after_result R (resp_data c) r"
  have l: "length (response c) = 1152" "length ?d = 1148"
    using assms by (simp_all add: wf_chan_def length_after_result length_resp_data)
  have "read_at 4 (ret_size R) (take 4 (response c) @ ?d) = Some (ret_enc R r)"
    using l assms(2,3) by (simp add: codes_def read_at_def after_result_def)
  then show ?thesis
    using l assms(2) by (simp add: codes_def read_response_def read_unaligned_def read_at_store_flags)
qed

end
