(* ===== verification/Remote_Rounds.thy ===== *)
theory Remote_Rounds
  imports Remote_Request
begin

text \<open>
  From a published request to its service: while nothing else asks for service, every round
  of the worker either brings the client's registration closer or serves the request, so a
  bounded number of rounds is enough. Stated for any registration queue that keeps its
  contract.
\<close>

section \<open>Waiting systems\<close>

text \<open>The channels the worker knows or will know, in order of registration.\<close>

definition registered :: "('q \<Rightarrow> ClientPair list) \<Rightarrow> ('t, 'q, 'p) rt \<Rightarrow> nat list" where
  "registered items s = map cp_chan (clients s @ items (reg s))"

text \<open>A launch remembered as pending is the one its channel last answered or still has to
  answer: it cannot hide the next request.\<close>

definition quiet :: "('q \<Rightarrow> ClientPair list) \<Rightarrow> ('t, 'q, 'p) rt \<Rightarrow> bool" where
  "quiet items s \<longleftrightarrow>
     (\<forall>cp \<in> set (clients s @ items (reg s)).
        pending_launch cp \<longrightarrow> launch_req_ready cp = ready (load_flags (response (chans s (cp_chan cp)))))"

text \<open>A running system in which the registered channels outside \<open>A\<close> are idle and no fiber has
  work.\<close>

definition resting :: "('q \<Rightarrow> ClientPair list) \<Rightarrow> nat set \<Rightarrow> ('t, 'q, 'p) rt \<Rightarrow> bool" where
  "resting items A s \<longleftrightarrow>
     status s = Running \<and> wf_loop s \<and> distinct (registered items s) \<and> quiet items s \<and>
     (\<forall>f. inbox (fibers s f) = []) \<and>
     (\<forall>c \<in> set (registered items s). c < n_chans s \<and> wf_chan (chans s c)) \<and>
     (\<forall>c \<in> set (registered items s) - A. idle_chan (chans s c))"

definition calm :: "('q \<Rightarrow> ClientPair list) \<Rightarrow> ('t, 'q, 'p) rt \<Rightarrow> bool" where
  "calm items s \<longleftrightarrow> resting items {} s"

text \<open>What the loop's own bookkeeping changes.\<close>

definition moved :: "('t, 'q, 'p) rt \<Rightarrow> ('t, 'q, 'p) rt \<Rightarrow> bool" where
  "moved s s' \<longleftrightarrow>
     chans s' = chans s \<and> n_chans s' = n_chans s \<and> fiber_pool s' = fiber_pool s \<and> fibers s' = fibers s \<and>
     n_fibers s' = n_fibers s \<and> trustee_id s' = trustee_id s \<and> trustee_prop s' = trustee_prop s \<and>
     prop_cell s' = prop_cell s \<and> prop_arcs s' = prop_arcs s \<and> prop_drops s' = prop_drops s \<and>
     prop_moves s' = prop_moves s \<and> fiber_handles s' = fiber_handles s \<and> status s' = status s"

lemma moved_refl [simp]: "moved s s"
  by (simp add: moved_def)

lemma moved_trans: "moved s s' \<Longrightarrow> moved s' s'' \<Longrightarrow> moved s s''"
  by (simp add: moved_def)

lemma moved_simps:
  assumes "moved s s'"
  shows "chans s' = chans s" "n_chans s' = n_chans s" "fiber_pool s' = fiber_pool s" "fibers s' = fibers s"
    "n_fibers s' = n_fibers s" "trustee_id s' = trustee_id s" "trustee_prop s' = trustee_prop s"
    "prop_cell s' = prop_cell s" "prop_arcs s' = prop_arcs s" "prop_drops s' = prop_drops s"
    "prop_moves s' = prop_moves s" "fiber_handles s' = fiber_handles s" "status s' = status s"
  using assms by (simp_all add: moved_def)

lemma moved_upd [simp]:
  "moved s (s\<lparr> clients := cs \<rparr>)" "moved s (s\<lparr> reg := q \<rparr>)" "moved s (s\<lparr> start_idx := st \<rparr>)"
  "moved s (s\<lparr> idle_rounds := ir \<rparr>)" "moved s (s\<lparr> loop_counter := lc \<rparr>)"
  by (simp_all add: moved_def)

lemma moved_upd_client [simp]: "moved s (upd_client idx g s)"
  by (simp add: upd_client_def)

lemma moved_skip_clients [simp]: "moved s (skip_clients js s)"
proof (induction js arbitrary: s)
  case Nil
  then show ?case by (simp add: skip_clients_def)
next
  case (Cons j js)
  have "moved s (skip_client j s)" by (simp add: skip_client_def)
  moreover have "skip_clients (j # js) s = skip_clients js (skip_client j s)" by (simp add: skip_clients_def)
  ultimately show ?case using Cons[of "skip_client j s"] moved_trans by metis
qed

lemma moved_idle_step [simp]: "moved s (idle_step s)"
  by (simp add: idle_step_def)

lemma moved_drain [simp]: "moved s (drain X k s)"
  using moved_trans[OF moved_upd(2) moved_upd(1)] by (simp add: drain_take_up_to)

lemma moved_poll [simp]: "moved s (poll_registrations X s)"
  by (simp add: poll_registrations_def)

text \<open>Bookkeeping that keeps the registrations and only clears pending flags keeps a resting
  system resting.\<close>

definition cleared :: "ClientPair \<Rightarrow> ClientPair \<Rightarrow> bool" where
  "cleared cp cp' \<longleftrightarrow> cp' = cp \<or> cp' = cp\<lparr> pending_launch := False \<rparr>"

definition tidied :: "('q \<Rightarrow> ClientPair list) \<Rightarrow> ('t, 'q, 'p) rt \<Rightarrow> ('t, 'q, 'p) rt \<Rightarrow> bool" where
  "tidied items s s' \<longleftrightarrow> moved s s' \<and>
     list_all2 cleared (clients s @ items (reg s)) (clients s' @ items (reg s'))"

lemma cleared_refl [simp]: "cleared cp cp"
  by (simp add: cleared_def)

lemma cleared_trans: "cleared a b \<Longrightarrow> cleared b c \<Longrightarrow> cleared a c"
  by (auto simp: cleared_def)

lemma tidied_refl [simp]: "tidied items s s"
  by (simp add: tidied_def list_all2_refl)

lemma tidied_trans: "tidied items s s' \<Longrightarrow> tidied items s' s'' \<Longrightarrow> tidied items s s''"
  unfolding tidied_def using moved_trans list_all2_trans[of cleared cleared cleared] cleared_trans by blast

lemma tidied_registered: "tidied items s s' \<Longrightarrow> registered items s' = registered items s"
proof -
  assume "tidied items s s'"
  then have "list_all2 cleared (clients s @ items (reg s)) (clients s' @ items (reg s'))"
    by (simp add: tidied_def)
  then show ?thesis unfolding registered_def
    by (induction rule: list_all2_induct) (auto simp: cleared_def)
qed

lemma tidied_quiet:
  assumes t: "tidied items s s'" and q: "quiet items s" shows "quiet items s'"
proof -
  let ?P = "\<lambda>cp. pending_launch cp \<longrightarrow> launch_req_ready cp = ready (load_flags (response (chans s (cp_chan cp))))"
  have c: "chans s' = chans s" using t moved_simps(1) by (auto simp: tidied_def)
  have "list_all2 cleared (clients s @ items (reg s)) (clients s' @ items (reg s'))"
    using t by (simp add: tidied_def)
  then have "\<forall>cp \<in> set (clients s @ items (reg s)). ?P cp \<Longrightarrow> \<forall>cp \<in> set (clients s' @ items (reg s')). ?P cp"
    by (induction rule: list_all2_induct) (auto simp: cleared_def)
  then show ?thesis using q c unfolding quiet_def by simp
qed

lemma tidied_resting:
  assumes "tidied items s s'" "resting items A s" "wf_loop s'" shows "resting items A s'"
  using assms tidied_registered[OF assms(1)] tidied_quiet[OF assms(1)] moved_simps[of s s']
  by (simp add: resting_def tidied_def)

lemma tidied_upd:
  "tidied items s (s\<lparr> start_idx := st \<rparr>)" "tidied items s (s\<lparr> idle_rounds := ir \<rparr>)"
  "tidied items s (s\<lparr> loop_counter := lc \<rparr>)"
  by (simp_all add: tidied_def list_all2_refl)

lemma tidied_idle_step: "tidied items s (idle_step s)"
  by (simp add: idle_step_def tidied_upd)

lemma tidied_upd_client:
  "idx < length (clients s) \<Longrightarrow> tidied items s (upd_client idx (\<lambda>cp. cp\<lparr> pending_launch := False \<rparr>) s)"
proof -
  assume "idx < length (clients s)"
  then have "list_all2 cleared (clients s)
      ((clients s)[idx := (clients s ! idx)\<lparr> pending_launch := False \<rparr>])"
    by (auto simp: list_all2_conv_all_nth nth_list_update cleared_def)
  then show ?thesis
    by (auto simp: tidied_def upd_client_def list_all2_refl intro!: list_all2_appendI)
qed

lemma tidied_skip_clients:
  "\<forall>j \<in> set js. j < length (clients s) \<Longrightarrow> tidied items s (skip_clients js s)"
proof (induction js arbitrary: s)
  case Nil
  then show ?case by (simp add: skip_clients_def)
next
  case (Cons j js)
  have "tidied items s (skip_client j s)"
    using Cons.prems by (simp add: skip_client_def tidied_upd_client)
  moreover have "tidied items (skip_client j s) (skip_clients js (skip_client j s))"
    by (rule Cons.IH) (use Cons.prems in simp)
  moreover have "skip_clients (j # js) s = skip_clients js (skip_client j s)" by (simp add: skip_clients_def)
  ultimately show ?case using tidied_trans by metis
qed

section \<open>The distance to service\<close>

text \<open>Rounds that may pass before the worker takes the last pending registration: each one
  costs at most sixteen rounds, and the counter says how far the next poll is.\<close>

definition distance :: "('q \<Rightarrow> ClientPair list) \<Rightarrow> ('t, 'q, 'p) rt \<Rightarrow> nat" where
  "distance items s = 16 * length (items (reg s)) + (16 - unat (loop_counter s) mod 16)"

lemma mod16_Suc: "unat (w + 1 :: usize) mod 16 = (unat w mod 16 + 1) mod 16"
proof -
  have "unat (w + 1) = (unat w + 1) mod 2 ^ 64" by (simp add: unat_word_ariths)
  moreover have "(unat w + 1) mod 2 ^ 64 mod 16 = (unat w + 1) mod (16 :: nat)"
    by (rule mod_mod_cancel) simp
  ultimately show ?thesis by (simp add: mod_simps)
qed

locale worker_queue = seg_queue items "reg_push X" "reg_pop X"
  for items :: "'q \<Rightarrow> ClientPair list" and X :: "('t, 'q, 'p) world"
begin

lemma drain_items:
  "clients (drain X k s) = clients s @ take k (items (reg s))"
  "items (reg (drain X k s)) = drop k (items (reg s))"
  using take_up_to_items[of k "reg s"] by (simp_all add: drain_take_up_to prod_eq_iff)

lemma poll_items:
  "clients (poll_registrations X s) @ items (reg (poll_registrations X s)) = clients s @ items (reg s)"
  by (simp add: poll_registrations_def drain_items)

lemma tidied_poll: "tidied items s (poll_registrations X s)"
  by (simp add: tidied_def poll_items list_all2_refl)

text \<open>The state in which a round scans.\<close>

definition polled :: "('t, 'q, 'p) rt \<Rightarrow> ('t, 'q, 'p) rt" where
  "polled s = poll_registrations X (s\<lparr> loop_counter := loop_counter s + 1 \<rparr>)"

lemma polled_tidied: "tidied items s (polled s)"
  unfolding polled_def by (rule tidied_trans[OF tidied_upd(3) tidied_poll])

lemma polled_wf: "wf_loop s \<Longrightarrow> wf_loop (polled s)"
  unfolding polled_def by (intro wf_loop_poll) (simp add: wf_loop_start)

lemma polled_loop_counter [simp]: "loop_counter (polled s) = loop_counter s + 1"
  by (simp add: polled_def poll_registrations_def)

lemma polled_distance:
  assumes i: "i \<in> set (registered items s)" "i \<notin> set (map cp_chan (clients (polled s)))"
  shows "distance items (polled s) < distance items s" and "clients (polled s) \<noteq> []"
proof -
  let ?s1 = "s\<lparr> loop_counter := loop_counter s + 1 \<rparr>"
  have reg: "i \<in> set (registered items (polled s))"
    using tidied_registered[OF polled_tidied] i(1) by metis
  then have left: "items (reg (polled s)) \<noteq> []" using i(2) by (auto simp: registered_def)
  have "clients (polled s) \<noteq> [] \<and> distance items (polled s) < distance items s"
  proof (cases "clients s = [] \<or> unat (loop_counter s + 1) mod 16 = 0")
    case True
    then have p: "polled s = drain X DRAIN_CHUNK ?s1" by (simp add: polled_def poll_registrations_def)
    then have it: "items (reg (polled s)) = drop 256 (items (reg s))"
      "clients (polled s) = clients s @ take 256 (items (reg s))"
      by (simp_all add: drain_items DRAIN_CHUNK_def)
    have len: "256 < length (items (reg s))" using left it(1) by auto
    then have "16 * length (items (reg (polled s))) + 16 < distance items s"
      by (simp add: it(1) distance_def)
    then show ?thesis using it(2) len by (auto simp: distance_def)
  next
    case False
    then have p: "polled s = ?s1" by (simp add: polled_def poll_registrations_def)
    have "unat (loop_counter s) mod 16 < 15"
      using False mod16_Suc[of "loop_counter s"] by (cases "unat (loop_counter s) mod 16 = 15") (auto simp: less_Suc_eq_le)
    then have "unat (loop_counter s + 1) mod 16 = unat (loop_counter s) mod 16 + 1"
      using mod16_Suc[of "loop_counter s"] by simp
    then show ?thesis using False p by (auto simp: distance_def)
  qed
  then show "distance items (polled s) < distance items s" "clients (polled s) \<noteq> []" by auto
qed

end

section \<open>Rounds without and with the client\<close>

lemma resting_not_servable:
  assumes "resting items A s" "idx < length (clients s)" "cp_chan (clients s ! idx) \<notin> A"
  shows "\<not> servable s idx"
proof -
  have "cp_chan (clients s ! idx) \<in> set (registered items s)"
    using assms(2) by (simp add: registered_def)
  then have "idle_chan (chans s (cp_chan (clients s ! idx)))"
    using assms(1,3) by (simp add: resting_def)
  then show ?thesis by (simp add: servable_def Let_def)
qed

lemma resting_servable:
  assumes r: "resting items {i} s" and idx: "idx < length (clients s)" and i: "cp_chan (clients s ! idx) = i"
    and p: "posted (chans s i) b hdr"
  shows "servable s idx"
proof -
  have "pending_launch (clients s ! idx) \<longrightarrow> launch_req_ready (clients s ! idx) = (\<not> b)"
    using r idx i p by (auto simp: resting_def quiet_def posted_def)
  then show ?thesis using p i by (auto simp: servable_def Let_def idle_chan_def posted_def)
qed

lemma skip_clients_loop [simp]:
  "loop_counter (skip_clients js s) = loop_counter s" "reg (skip_clients js s) = reg s"
  "idle_rounds (skip_clients js s) = idle_rounds s" "status (skip_clients js s) = status s"
  by (induction js arbitrary: s) (simp_all add: skip_clients_def skip_client_def upd_client_def)

lemma skip_clients_nil [simp]: "clients (skip_clients js s) = [] \<longleftrightarrow> clients s = []"
  by (metis length_0_conv skip_clients_simps(2))

lemma wf_loop_skip_clients: "wf_loop (skip_clients js s) = wf_loop s"
  by (simp add: wf_loop_def)

lemma distance_idle_step [simp]: "distance items (idle_step s) = distance items s"
  by (simp add: distance_def idle_step_def)

lemma distance_skip_clients [simp]: "distance items (skip_clients js s) = distance items s"
  by (simp add: distance_def)

lemma only_servable:
  assumes rp: "resting items {i} s" and idx: "idx < length (clients s)" "cp_chan (clients s ! idx) = i"
    and pp: "posted (chans s i) b hdr" and dist: "distinct (map cp_chan (clients s))"
  shows "\<forall>k < length (clients s). servable s k \<longleftrightarrow> k = idx"
proof (intro allI impI iffI)
  fix k assume k: "k < length (clients s)"
  { assume "servable s k"
    then have "cp_chan (clients s ! k) = i" using resting_not_servable[OF rp k] by blast
    then show "k = idx" using dist idx k by (metis length_map nth_eq_iff_index_eq nth_map) }
  assume "k = idx"
  then show "servable s k" using resting_servable[OF rp idx pp] by simp
qed

lemma scan_index_inj: "start < n \<Longrightarrow> x < n \<Longrightarrow> y < n \<Longrightarrow> scan_index n start x = scan_index n start y \<Longrightarrow> x = y"
  by (auto simp: scan_index_def Let_def split: if_splits)

lemma distinct_skip_clients: "distinct (map cp_chan (clients (skip_clients js s))) = distinct (map cp_chan (clients s))"
  by (induction js arbitrary: s) (simp_all add: skip_clients_def)

text \<open>A scan with one client to serve.\<close>

lemma scan_single:
  assumes idx: "idx < length (clients s)" and st: "start_idx s < length (clients s)"
    and dist: "distinct (map cp_chan (clients s))"
    and only: "\<forall>k < length (clients s). servable s k \<longleftrightarrow> k = idx"
  shows "\<exists>js0 js. (\<forall>j \<in> set js0. j < length (clients s)) \<and> (\<forall>j \<in> set js. j < length (clients s)) \<and>
    scan X (length (clients s)) [0..<length (clients s)] False s =
      (case visit X (length (clients s)) idx (skip_clients js0 s) of
         Next (s1, _) \<Rightarrow> Next (skip_clients js s1, True)
       | Halt (s1, _) \<Rightarrow> Halt (s1, False) | Undefined u \<Rightarrow> Undefined u | Diverge \<Rightarrow> Diverge)"
proof -
  let ?n = "length (clients s)" and ?st = "(idx + 1) mod length (clients s)"
  obtain k where k: "k < ?n" "scan_index ?n (start_idx s) k = idx" by (rule scan_index_surj[OF st idx])
  have before: "\<not> servable s (scan_index ?n (start_idx s) x)" if "x < k" for x
    using only scan_index_lt[OF st, of x] scan_index_inj[OF st, of x k] that k by fastforce
  have fs: "first_servable s k" unfolding first_servable_def using before k only idx by simp
  let ?before = "map (scan_index ?n (start_idx s)) [0..<k]" and ?after = "map (scan_index ?n ?st) [Suc k..<?n]"
  have "0 < ?n" using idx by linarith
  then have stn: "?st < ?n" by (rule mod_less_divisor)
  have rest: "scan X ?n [Suc k..<?n] True s1 = Next (skip_clients ?after s1, True)"
    if vs: "visit X ?n idx (skip_clients ?before s) = Next (s1, True)" for s1
  proof -
    have l1: "?n = length (clients s1)" using visit_served_length[OF vs] by simp
    have st1: "start_idx s1 = ?st" using visit_served_frame(2)[OF vs refl] .
    have dq: "distinct (map cp_chan (clients (skip_clients ?before s)))" using dist by (simp only: distinct_skip_clients)
    have un: "\<not> servable s1 j" if "j < ?n" for j
      using visit_served_done[OF vs] visit_served_others(1)[OF vs dq, of j] only that
      by (cases "j = idx") auto
    have "\<forall>x \<in> set [Suc k..<?n]. x < ?n \<and> \<not> servable s1 (scan_index ?n (start_idx s1) x)"
      using un scan_index_lt[OF stn] by (simp add: st1)
    from scan_unserved[OF this l1] show ?thesis using stn by (simp only: st1)
  qed
  have sv: "servable (skip_clients ?before s) idx" using only idx by simp
  have svd: "b" if "visit X ?n idx (skip_clients ?before s) = Next (s1, b)" for s1 b
    by (rule visit_servable[OF sv that])
  have "scan X ?n [0..<?n] False s =
      (case visit X ?n idx (skip_clients ?before s) of
         Next (s1, _) \<Rightarrow> Next (skip_clients ?after s1, True)
       | Halt (s1, _) \<Rightarrow> Halt (s1, False) | Undefined u \<Rightarrow> Undefined u | Diverge \<Rightarrow> Diverge)"
    unfolding scan_first[OF fs refl st] k(2) Let_def
    using rest svd by (auto split: flow.splits)
  moreover have "\<forall>j \<in> set ?before. j < ?n" "\<forall>j \<in> set ?after. j < ?n"
    using scan_index_lt[OF st] scan_index_lt[OF stn] k by auto
  ultimately show ?thesis by blast
qed

text \<open>The end of a round whose only service is the given one.\<close>

definition round_end ::
    "nat \<Rightarrow> bool \<Rightarrow> nat \<Rightarrow> nat \<Rightarrow> nat list \<Rightarrow> (('t, 'q, 'p) rt \<times> bool) flow \<Rightarrow> ('t, 'q, 'p) rt flow" where
  "round_end i b idx n js r =
     (case r of
        Next (s', d) \<Rightarrow>
          Next ((skip_clients js ((finish_request i b 1 d s')\<lparr> start_idx := (idx + 1) mod n \<rparr>))\<lparr> idle_rounds := 0 \<rparr>)
      | Halt (s', _) \<Rightarrow> Halt s'
      | Undefined u \<Rightarrow> Undefined u
      | Diverge \<Rightarrow> Diverge)"

context worker_queue
begin

text \<open>A round in which nothing can be served only keeps books.\<close>

lemma round_unserved:
  assumes r: "resting items {i} s" and i: "i \<in> set (registered items s)" "i \<notin> set (map cp_chan (clients (polled s)))"
  shows "\<exists>s'. worker_round X s = Next s' \<and> tidied items s s' \<and> resting items {i} s' \<and> distance items s' < distance items s"
proof -
  let ?p = "polled s" and ?n = "length (clients (polled s))"
  let ?js = "map (scan_index ?n (start_idx ?p)) [0..<?n]"
  let ?s' = "idle_step (skip_clients ?js ?p)"
  have d: "distance items ?p < distance items s" "clients ?p \<noteq> []" using polled_distance[OF i] by auto
  have wf: "wf_loop ?p" using r polled_wf by (simp add: resting_def)
  then have st: "start_idx ?p < ?n" using d(2) by (simp add: wf_loop_def)
  have rp: "resting items {i} ?p" by (rule tidied_resting[OF polled_tidied r wf])
  have uns: "\<not> servable ?p idx" if "idx < ?n" for idx
  proof (rule resting_not_servable[OF rp that])
    show "cp_chan (clients ?p ! idx) \<notin> {i}" using i(2) that by (metis in_set_conv_nth length_map nth_map singletonD)
  qed
  have sc: "scan X ?n [0..<?n] False ?p = Next (skip_clients ?js ?p, False)"
    by (rule scan_unserved) (use uns st scan_index_lt in auto)
  have "worker_round X s = Next ?s'"
    using sc d(2) by (simp add: worker_round_def polled_def[symmetric] Let_def)
  moreover have js: "\<forall>j \<in> set ?js. j < length (clients ?p)" using st scan_index_lt by auto
  have t: "tidied items s ?s'"
    by (rule tidied_trans[OF polled_tidied tidied_trans[OF tidied_skip_clients[OF js] tidied_idle_step]])
  moreover have "wf_loop ?s'" by (rule wf_loop_idle_step) (simp add: wf_loop_skip_clients wf)
  ultimately show ?thesis using tidied_resting[OF t r] d(1) by auto
qed

text \<open>A round that reaches the client executes its record once, in a state that differs from
  the one before the round by bookkeeping only.\<close>

lemma round_served:
  assumes r: "resting items {i} s" and i: "i \<in> set (map cp_chan (clients (polled s)))"
    and p: "posted (chans s i) b hdr"
  obtains idx n js s0 where "idx < length (clients s0)" "n = length (clients s0)"
    "cp_chan (clients s0 ! idx) = i" "\<not> pending_launch (clients s0 ! idx)"
    "tidied items s s0" "resting items {i} s0" "\<forall>j \<in> set js. j < n"
    "worker_round X s = round_end i b idx n js (dispatch_record X idx i b hdr s0)"
proof -
  let ?p = "polled s" and ?n = "length (clients (polled s))"
  have ne: "clients ?p \<noteq> []" using i by auto
  have wf: "wf_loop ?p" using r polled_wf by (simp add: resting_def)
  then have st: "start_idx ?p < ?n" using ne by (simp add: wf_loop_def)
  have rp: "resting items {i} ?p" by (rule tidied_resting[OF polled_tidied r wf])
  have pp: "posted (chans ?p i) b hdr" using p polled_tidied moved_simps(1) by (metis tidied_def)
  obtain idx where idx: "idx < ?n" "cp_chan (clients ?p ! idx) = i"
    using i by (metis in_set_conv_nth length_map nth_map)
  have dist: "distinct (map cp_chan (clients ?p))" using rp by (simp add: resting_def registered_def)
  obtain js0 js where js0: "\<forall>j \<in> set js0. j < ?n" and js: "\<forall>j \<in> set js. j < ?n"
    and scan: "scan X ?n [0..<?n] False ?p =
      (case visit X ?n idx (skip_clients js0 ?p) of
         Next (s1, _) \<Rightarrow> Next (skip_clients js s1, True)
       | Halt (s1, _) \<Rightarrow> Halt (s1, False) | Undefined u \<Rightarrow> Undefined u | Diverge \<Rightarrow> Diverge)"
    using scan_single[OF idx(1) st dist only_servable[OF rp idx pp dist]] by blast
  let ?q = "skip_clients js0 ?p"
  let ?t = "clear_pending idx ?q"
  have tq: "tidied items s ?q" by (rule tidied_trans[OF polled_tidied tidied_skip_clients[OF js0]])
  have t0: "tidied items s ?t"
    unfolding clear_pending_def by (rule tidied_trans[OF tq tidied_upd_client]) (use idx in simp)
  have wf0: "wf_loop ?t" using wf by (simp add: wf_loop_def clear_pending_def upd_client_def)
  have v: "visit X ?n idx ?q =
    (case dispatch_record X idx i b hdr ?t of
       Next (s', d) \<Rightarrow> Next ((finish_request i b 1 d s')\<lparr> start_idx := (idx + 1) mod ?n \<rparr>, True)
     | Halt (s', _) \<Rightarrow> Halt (s', False) | Undefined u \<Rightarrow> Undefined u | Diverge \<Rightarrow> Diverge)"
    by (rule visit_posted) (use idx pp resting_servable[OF rp idx pp] in simp_all)
  have wr: "worker_round X s = round_end i b idx ?n js (dispatch_record X idx i b hdr ?t)"
    unfolding worker_round_def polled_def[symmetric] Let_def scan v round_end_def
    using ne by (auto split: flow.splits)
  have c0: "\<not> pending_launch (clients ?t ! idx)" "cp_chan (clients ?t ! idx) = i"
    and l0: "?n = length (clients ?t)" and i0: "idx < length (clients ?t)"
    using idx by (simp_all add: clear_pending_def upd_client_def)
  show ?thesis by (rule that[OF i0 l0 c0(2,1) t0 tidied_resting[OF t0 r wf0] js wr])
qed

end

section \<open>Waiting long enough\<close>

lemma fibers_turn_idle: "\<forall>f \<in> set fs. inbox (fibers s f) = [] \<Longrightarrow> fibers_turn X fs s = Inr s"
  by (induction fs) (simp_all add: fiber_turn_def inbox_pop_def)

lemma after_round_idle: "\<forall>f. inbox (fibers s f) = [] \<Longrightarrow> after_round X (Next s) = Next s"
  by (simp add: after_round_def fibers_turn_idle)

lemma posted_not_answered: "posted c b hdr \<Longrightarrow> \<not> response_ready b c"
  by (simp add: posted_def response_ready_def)

text \<open>What a waiting client gets to see of a step.\<close>

definition await_step ::
    "('t, 'q, 'p) world \<Rightarrow> nat \<Rightarrow> WaitBudget \<Rightarrow> nat \<Rightarrow> bool \<Rightarrow> ('t, 'q, 'p) rt \<Rightarrow> ('t, 'q, 'p) rt flow \<Rightarrow>
     ('t, 'q, 'p) rt wait_result" where
  "await_step X fuel w i b s r =
     (case r of
        Next s' \<Rightarrow> await_response X fuel w i b s'
      | Halt s' \<Rightarrow> StillWaiting s'
      | Undefined u \<Rightarrow> WaitUB u
      | Diverge \<Rightarrow> StillWaiting s)"

lemma await_unanswered:
  "\<not> response_ready b (chans s i) \<Longrightarrow>
   await_response X (Suc fuel) w i b s = await_step X fuel (snd (step w)) i b s (system_step X s)"
  by (simp add: await_step_def)

context worker_queue
begin

lemma await_reaches:
  assumes "resting items {i} s" "i \<in> set (registered items s)" "posted (chans s i) b hdr"
  shows "\<exists>k s1 w1. k \<le> distance items s \<and> tidied items s s1 \<and> resting items {i} s1 \<and>
    i \<in> set (map cp_chan (clients (polled s1))) \<and>
    (\<forall>fuel. await_response X (k + fuel) w i b s = await_response X fuel w1 i b s1)"
  using assms
proof (induction "distance items s" arbitrary: s w rule: less_induct)
  case less
  show ?case
  proof (cases "i \<in> set (map cp_chan (clients (polled s)))")
    case True
    then show ?thesis using less.prems by (intro exI[of _ 0] exI[of _ s] exI[of _ w]) simp
  next
    case False
    obtain s' where w: "worker_round X s = Next s'" and t: "tidied items s s'"
      and r: "resting items {i} s'" and d: "distance items s' < distance items s"
      using round_unserved[OF less.prems(1,2) False] by blast
    have c: "chans s' = chans s" using t moved_simps(1) by (auto simp: tidied_def)
    have "system_step X s = Next s'"
      using w r less.prems(1) after_round_idle[of s' X] by (simp add: system_step_def resting_def)
    then have step: "await_response X (Suc fuel) w i b s = await_response X fuel (snd (step w)) i b s'" for fuel
      using posted_not_answered[OF less.prems(3)] by (simp add: await_unanswered await_step_def)
    have "i \<in> set (registered items s')" "posted (chans s' i) b hdr"
      using less.prems c tidied_registered[OF t] by simp_all
    from less.hyps[OF d r this, of "snd (step w)"] obtain k s1 w1 where
      k: "k \<le> distance items s'" "tidied items s' s1" "resting items {i} s1"
        "i \<in> set (map cp_chan (clients (polled s1)))"
        "\<forall>fuel. await_response X (k + fuel) (snd (step w)) i b s' = await_response X fuel w1 i b s1"
      by blast
    have "await_response X (Suc k + fuel) w i b s = await_response X fuel w1 i b s1" for fuel
      using step[of "k + fuel"] k(5) by simp
    then show ?thesis
      using k tidied_trans[OF t k(2)] d by (intro exI[of _ "Suc k"] exI[of _ s1] exI[of _ w1]) auto
  qed
qed

text \<open>A published request is executed after at most \<open>distance\<close> further rounds, in a state that
  differs from the one it was published in by bookkeeping only.\<close>

lemma await_served:
  assumes r: "resting items {i} s" and i: "i \<in> set (registered items s)" and p: "posted (chans s i) b hdr"
  obtains k w1 s1 idx n js s0 where
    "k \<le> distance items s" "idx < length (clients s0)" "n = length (clients s0)"
    "cp_chan (clients s0 ! idx) = i" "\<not> pending_launch (clients s0 ! idx)"
    "tidied items s s0" "resting items {i} s0" "\<forall>j \<in> set js. j < n"
    "\<forall>fuel. await_response X (k + Suc fuel) w i b s =
       await_step X fuel w1 i b s1 (after_round X (round_end i b idx n js (dispatch_record X idx i b hdr s0)))"
proof -
  obtain k s1 w1 where k: "k \<le> distance items s" "tidied items s s1" "resting items {i} s1"
      "i \<in> set (map cp_chan (clients (polled s1)))"
      "\<forall>fuel. await_response X (k + fuel) w i b s = await_response X fuel w1 i b s1"
    using await_reaches[OF r i p] by blast
  have p1: "posted (chans s1 i) b hdr" using p k(2) moved_simps(1) by (metis tidied_def)
  obtain idx n js s0 where s: "idx < length (clients s0)" "n = length (clients s0)"
    "cp_chan (clients s0 ! idx) = i" "\<not> pending_launch (clients s0 ! idx)"
    "tidied items s1 s0" "resting items {i} s0" "\<forall>j \<in> set js. j < n"
    "worker_round X s1 = round_end i b idx n js (dispatch_record X idx i b hdr s0)"
    by (rule round_served[OF k(3,4) p1])
  have run: "status s1 = Running" using k(3) by (simp add: resting_def)
  have ss: "system_step X s1 = after_round X (round_end i b idx n js (dispatch_record X idx i b hdr s0))"
    using run s(8) by (simp add: system_step_def)
  have "await_response X (k + Suc fuel) w i b s = await_step X fuel (snd (step w1)) i b s1
      (after_round X (round_end i b idx n js (dispatch_record X idx i b hdr s0)))" for fuel
    unfolding k(5)[rule_format] await_unanswered[OF posted_not_answered[OF p1]] ss by (rule refl)
  then show ?thesis using that[OF k(1) s(1-4) tidied_trans[OF k(2) s(5)] s(6,7)] by blast
qed

end

end
