(* ===== verification/Remote_Trust.thy ===== *)
theory Remote_Trust
  imports Remote_Rounds
begin

text \<open>
  What a remote handle promises: an operation delegated through the channel, byte for byte,
  ends with the result the closure computes on the property and leaves the property as the
  closure leaves it, in a system that is ready for the next operation.
\<close>

section \<open>Published and answered\<close>

lemma distinct_chan_unique:
  assumes "distinct (registered items s)" "cp \<in> set (clients s @ items (reg s))"
    "idx < length (clients s)" "cp_chan cp = cp_chan (clients s ! idx)"
  shows "cp = clients s ! idx"
proof -
  have "clients s ! idx \<in> set (clients s @ items (reg s))" using assms(3) by simp
  then show ?thesis using assms(1,2,4) unfolding registered_def distinct_map inj_on_def by blast
qed

text \<open>Publishing a request on an idle channel of a calm system.\<close>

lemma published_resting:
  assumes c: "calm items s" and i: "i \<in> set (registered items s)"
    and w: "wf_chan c2" and r: "response c2 = response (chans s i)"
  shows "resting items {i} (s\<lparr> chans := (chans s)(i := c2) \<rparr>)"
  using c w r by (auto simp: calm_def resting_def registered_def quiet_def wf_loop_def)

text \<open>Answering it, with whatever the closure did to the property and the worker noted about the
  client.\<close>

lemma answered_resting:
  assumes r: "resting items {i} s" and idx: "idx < length (clients s)" "cp_chan (clients s ! idx) = i"
    and cp: "cp_chan cp = i"
      "pending_launch cp \<longrightarrow> launch_req_ready cp = ready (load_flags (response c))"
    and c: "wf_chan c" "idle_chan c"
  shows "resting items {} (s\<lparr> prop_cell := t, clients := (clients s)[idx := cp], chans := (chans s)(i := c) \<rparr>)"
proof -
  let ?s = "s\<lparr> prop_cell := t, clients := (clients s)[idx := cp], chans := (chans s)(i := c) \<rparr>"
  have d: "distinct (registered items s)" using r by (simp add: resting_def)
  have reg: "registered items ?s = registered items s"
    using idx cp(1) by (simp add: registered_def map_update list_update_same_conv)
  have "quiet items ?s"
    unfolding quiet_def
  proof (intro ballI impI)
    fix x assume x: "x \<in> set (clients ?s @ items (reg ?s))" "pending_launch x"
    show "launch_req_ready x = ready (load_flags (response (chans ?s (cp_chan x))))"
    proof (cases "x = cp")
      case True
      then show ?thesis using cp x(2) by simp
    next
      case False
      have "x \<in> set (clients ?s @ items (reg ?s))" "cp = clients ?s ! idx" "idx < length (clients ?s)"
        using x(1) idx(1) by simp_all
      then have ci: "cp_chan x \<noteq> i"
        using False cp(1) distinct_chan_unique[of items ?s x idx] d reg by metis
      then have "x \<in> set (clients s @ items (reg s))"
        using x(1) False set_update_subset_insert[of "clients s" idx cp] by auto
      then show ?thesis using r x(2) ci by (simp add: resting_def quiet_def)
    qed
  qed
  then show ?thesis using r c reg by (auto simp: resting_def wf_loop_def)
qed

text \<open>The bookkeeping at the end of the serving round.\<close>

lemma round_tail_resting:
  assumes r: "resting items A s" and n: "n = length (clients s)" "0 < n" and js: "\<forall>j \<in> set js. j < n"
    and s'_def: "s' = (skip_clients js (s\<lparr> start_idx := k mod n \<rparr>))\<lparr> idle_rounds := 0 \<rparr>"
  shows "resting items A s'" and "tidied items s s'"
proof -
  let ?t = "s\<lparr> start_idx := k mod n \<rparr>"
  have j: "\<forall>j \<in> set js. j < length (clients ?t)" using js n by simp
  show t: "tidied items s s'"
    unfolding s'_def by (rule tidied_trans[OF tidied_upd(1) tidied_trans[OF tidied_skip_clients[OF j] tidied_upd(2)]])
  have "k mod n < n" using n(2) by (rule mod_less_divisor)
  then have "wf_loop s'" using n by (auto simp: s'_def wf_loop_def)
  then show "resting items A s'" using tidied_resting[OF t r] by blast
qed

text \<open>How an operation on channel \<open>i\<close> may change the system.\<close>

definition op_frame :: "('q \<Rightarrow> ClientPair list) \<Rightarrow> nat \<Rightarrow> ('t, 'q, 'p) rt \<Rightarrow> ('t, 'q, 'p) rt \<Rightarrow> bool" where
  "op_frame items i s s' \<longleftrightarrow>
     registered items s' = registered items s \<and> (\<forall>j. j \<noteq> i \<longrightarrow> chans s' j = chans s j) \<and>
     n_chans s' = n_chans s \<and> trustee_id s' = trustee_id s \<and> trustee_prop s' = trustee_prop s \<and>
     prop_arcs s' = prop_arcs s \<and> prop_drops s' = prop_drops s \<and> prop_moves s' = prop_moves s"

context worker_queue
begin

text \<open>A delegated operation up to the execution of its record: the state \<open>s0\<close> the record is
  executed in, and how the operation goes on from there.\<close>

lemma delegate_reaches:
  assumes c: "calm items s" and i: "i \<in> set (registered items s)" and f: "fits f (length args)"
    and b: "b = (\<not> ready (load_flags (response (chans s i))))"
    and hdr: "hdr = fix_hdr (encoded_header (request_writer (chans s i)) p f (length args))"
  obtains c2 k w1 s1 idx n js s0 where
    "request_of (chans s i) p f args fix_hdr b c2" "k \<le> distance items s"
    "idx < length (clients s0)" "n = length (clients s0)"
    "cp_chan (clients s0 ! idx) = i" "\<not> pending_launch (clients s0 ! idx)"
    "tidied items (s\<lparr> chans := (chans s)(i := c2) \<rparr>) s0" "resting items {i} s0" "\<forall>j \<in> set js. j < n"
    "\<forall>fuel. delegate X (k + Suc fuel) i p f args fix_hdr read s =
       deliver i read (s\<lparr> chans := (chans s)(i := c2) \<rparr>)
         (await_step X fuel w1 i b s1 (after_round X (round_end i b idx n js (dispatch_record X idx i b hdr s0))))"
proof -
  have wc: "wf_chan (chans s i)" using c i by (simp add: calm_def resting_def)
  obtain c1 c2 where w: "write_request p f args fix_hdr (chans s i) = Ok c1"
    and pub: "publish c1 = (b, c2)" and ro: "request_of (chans s i) p f args fix_hdr b c2"
    using write_publish[OF wc f, of p fix_hdr] b by blast
  let ?s = "s\<lparr> chans := (chans s)(i := c2) \<rparr>"
  have c2: "wf_chan c2" "response c2 = response (chans s i)" "posted c2 b hdr"
    using ro by (auto simp: request_of_def hdr)
  have rs: "resting items {i} ?s" by (rule published_resting[OF c i c2(1,2)])
  have ip: "i \<in> set (registered items ?s)" "posted (chans ?s i) b hdr" using i c2 by (simp_all add: registered_def)
  obtain k w1 s1 idx n js s0 where
    k: "k \<le> distance items ?s" and s0: "idx < length (clients s0)" "n = length (clients s0)"
      "cp_chan (clients s0 ! idx) = i" "\<not> pending_launch (clients s0 ! idx)"
      "tidied items ?s s0" "resting items {i} s0" "\<forall>j \<in> set js. j < n"
    and aw: "\<forall>fuel. await_response X (k + Suc fuel) hot i b ?s =
       await_step X fuel w1 i b s1 (after_round X (round_end i b idx n js (dispatch_record X idx i b hdr s0)))"
    by (rule await_served[OF rs ip, of hot])
  have k': "k \<le> distance items s" using k by (simp add: distance_def)
  have "\<forall>fuel. delegate X (k + Suc fuel) i p f args fix_hdr read s =
       deliver i read ?s
         (await_step X fuel w1 i b s1 (after_round X (round_end i b idx n js (dispatch_record X idx i b hdr s0))))"
    unfolding delegate_def w outcome.case pub Let_def prod.case aw[rule_format] by (intro allI refl)
  from that[OF ro k' s0 this] show ?thesis .
qed

text \<open>An operation answered in the round that executes its record.\<close>

lemma delegate_immediate:
  assumes c: "calm items s" and i: "i \<in> set (registered items s)" and f: "fits f (length args)"
    and b: "b = (\<not> ready (load_flags (response (chans s i))))"
    and serve: "\<And>c2 idx s0. request_of (chans s i) p f args fix_hdr b c2 \<Longrightarrow> chans s0 i = c2 \<Longrightarrow>
      prop_cell s0 = prop_cell s \<Longrightarrow>
      dispatch_record X idx i b (fix_hdr (encoded_header (request_writer (chans s i)) p f (length args))) s0 =
        Next (upd_chan i (set_resp_data d) (s0\<lparr> prop_cell := t \<rparr>), False)"
    and d: "length d = 1148" and fuel: "distance items s + 2 \<le> fuel"
  obtains s' c2 where "delegate X fuel i p f args fix_hdr read s = (reply_of (read (chans s' i)), s')"
    "prop_cell s' = t" "request_of (chans s i) p f args fix_hdr b c2" "chans s' i = answered b d c2"
    "calm items s'" "op_frame items i s s'"
proof -
  obtain c2 k w1 s1 idx n js s0 where
    ro: "request_of (chans s i) p f args fix_hdr b c2" and k: "k \<le> distance items s"
    and idx: "idx < length (clients s0)" "n = length (clients s0)"
      "cp_chan (clients s0 ! idx) = i" "\<not> pending_launch (clients s0 ! idx)"
    and t0: "tidied items (s\<lparr> chans := (chans s)(i := c2) \<rparr>) s0"
    and r0: "resting items {i} s0" and js: "\<forall>j \<in> set js. j < n"
    and del: "\<forall>fuel. delegate X (k + Suc fuel) i p f args fix_hdr read s =
       deliver i read (s\<lparr> chans := (chans s)(i := c2) \<rparr>)
         (await_step X fuel w1 i b s1 (after_round X (round_end i b idx n js
           (dispatch_record X idx i b (fix_hdr (encoded_header (request_writer (chans s i)) p f (length args))) s0))))"
    by (rule delegate_reaches[OF c i f b refl])
  have m0: "chans s0 = (chans s)(i := c2)" "prop_cell s0 = prop_cell s"
    using t0 moved_simps(1,8)[of "s\<lparr> chans := (chans s)(i := c2) \<rparr>" s0] by (auto simp: tidied_def)
  let ?c = "answered b d c2"
  let ?sd = "s0\<lparr> prop_cell := t, chans := (chans s0)(i := ?c) \<rparr>"
  have sd: "?sd = s0\<lparr> prop_cell := t, clients := (clients s0)[idx := clients s0 ! idx], chans := (chans s0)(i := ?c) \<rparr>"
    by simp
  let ?s' = "(skip_clients js (?sd\<lparr> start_idx := (idx + 1) mod n \<rparr>))\<lparr> idle_rounds := 0 \<rparr>"
  have re: "round_end i b idx n js (dispatch_record X idx i b
      (fix_hdr (encoded_header (request_writer (chans s i)) p f (length args))) s0) = Next ?s'"
    using serve[OF ro, of s0] m0 by (simp add: round_end_def finish_request_def upd_chan_def answered_def)
  have c2: "wf_chan c2" "idle_chan ?c" using ro by (simp_all add: request_of_def idle_chan_def posted_def load_store_flags)
  have rd: "resting items {} ?sd"
    unfolding sd by (rule answered_resting[OF r0 idx(1,3,3) _ answered_wf[OF c2(1) d] c2(2)]) (use idx(4) in simp)
  have nn: "n = length (clients ?sd)" "0 < n" using idx(1,2) by (simp, linarith)
  have rs': "resting items {} ?s'" and td: "tidied items ?sd ?s'"
    using round_tail_resting[OF rd nn js refl] by simp_all
  note m' = moved_simps[OF conjunct1[OF td[unfolded tidied_def]]]
  have ar: "after_round X (Next ?s') = Next ?s'"
    by (rule after_round_idle) (use rs' in \<open>simp add: resting_def\<close>)
  obtain fl where fl: "fuel = k + Suc (Suc fl)"
    using fuel k le_Suc_ex[of "k + 2" fuel] by auto
  have dl: "delegate X fuel i p f args fix_hdr read s = (reply_of (read (chans ?s' i)), ?s')"
    unfolding fl del[rule_format] re ar await_step_def using m'(1) by (simp add: response_ready_def load_store_flags)
  have fr: "op_frame items i s ?s'"
    using tidied_registered[OF td] tidied_registered[OF t0] t0 m' m0
      moved_simps[of "s\<lparr> chans := (chans s)(i := c2) \<rparr>" s0]
    by (simp add: op_frame_def registered_def tidied_def)
  show ?thesis
    by (rule that[OF dl _ ro _ _ fr]) (use m'(1,8) rs' in \<open>simp_all add: calm_def\<close>)
qed

end

section \<open>What the worker does with each kind of record\<close>

lemma dispatch_apply:
  assumes ro: "request_of c CallMutOutPtr (fv f) [] (\<lambda>h. h) b c2" and fit: "fits (fv f) 0"
    and vt: "vt_out X (fn_vtable (fv f)) = Some (VTABLE (fn_size (fv f)) (fn_align (fv f)) (apply_adapter R (body f)))"
    and R: "codes R r" "ret_size R \<le> 1148" and call: "call_fn f (prop_cell s) = (t, Some r)"
    and s: "chans s i = c2"
  shows "dispatch_record X idx i b (encoded_header (request_writer c) CallMutOutPtr (fv f) 0) s =
    Next (upd_chan i (set_resp_data (after_result R (resp_data c) r)) (s\<lparr> prop_cell := t \<rparr>), False)"
proof -
  have c2: "wf_chan c2" "resp_data c2 = resp_data c" using ro by (simp_all add: request_of_def resp_data_def)
  have d: "decode_and_call (vt_out X) (request_base c2) (request c2)
      (encoded_header (request_writer c) CallMutOutPtr (fv f) 0) (prop_cell s, resp_data c)
      = Ok (t, after_result R (resp_data c) r, False)"
    using request_of_calls[where vtables = "vt_out X" and code = "apply_adapter R (body f)", OF ro _ vt] fit
      finish_adapter_Some[OF R(1), of "resp_data c"] R(2) length_resp_data[OF c2(1)] c2(2) call
    by (simp add: apply_adapter_def call_fn_def)
  show ?thesis
    using d s c2 by (simp add: dispatch_record_def encoded_header_def serve_CallMutOutPtr_def after_call_def Let_def)
qed

lemma dispatch_apply_with:
  assumes ro: "request_of c CallMutArgsOutPtr (fvw f) args (\<lambda>h. h) b c2" and fit: "fits (fvw f) (length args)"
    and vt: "vt_args X (fn_vtable (fvw f)) =
      Some (VTABLE (fn_size (fvw f)) (fn_align (fvw f)) (apply_with_adapter R deserialize (bodyw f)))"
    and de: "deserialize args = Some v"
    and R: "codes R r" "ret_size R \<le> 1148" and call: "call_fn_with f (prop_cell s) v = (t, Some r)"
    and s: "chans s i = c2"
  shows "dispatch_record X idx i b (encoded_header (request_writer c) CallMutArgsOutPtr (fvw f) (length args)) s =
    Next (upd_chan i (set_resp_data (after_result R (resp_data c) r)) (s\<lparr> prop_cell := t \<rparr>), False)"
proof -
  let ?h = "encoded_header (request_writer c) CallMutArgsOutPtr (fvw f) (length args)"
  have c2: "wf_chan c2" "resp_data c2 = resp_data c" using ro by (simp_all add: request_of_def resp_data_def)
  have a: "read_at (unat (args_offset ?h)) (unat (args_len ?h)) (request c2) = Some args"
    by (rule request_of_args[OF ro fit refl])
  have d: "decode_and_call (vt_args X) (request_base c2) (request c2) ?h (prop_cell s, resp_data c, args)
      = Ok (t, after_result R (resp_data c) r, False)"
    using request_of_calls[where vtables = "vt_args X" and code = "apply_with_adapter R deserialize (bodyw f)", OF ro fit vt]
      finish_adapter_Some[OF R(1), of "resp_data c"] R(2) length_resp_data[OF c2(1)] c2(2) call de
    by (simp add: apply_with_adapter_def call_fn_with_def)
  have p: "property_ptr ?h = CallMutArgsOutPtr" by (simp add: encoded_header_def)
  show ?thesis
    unfolding dispatch_record_def p PropertyPtr.case serve_CallMutArgsOutPtr_def Let_def s a c2(2)
    using d by (simp add: after_call_def Let_def)
qed

lemma repeat_call_inline:
  assumes "\<And>x. decode_and_call (vt_mut X) (request_base c) (request c) hdr x = batch_adapter (body f) (fn_env (fv f)) x"
    and "repeat_inline (call_fn f) n t = (t', Some ())"
  shows "repeat_call X hdr c n t = Ok (t', False)"
  using assms(2)
proof (induction n arbitrary: t)
  case 0
  then show ?case by simp
next
  case (Suc n)
  obtain t1 r where c: "call_fn f t = (t1, r)" by force
  with Suc.prems obtain u where "r = Some u" by (cases r) auto
  then show ?case using Suc c assms(1) by (simp add: batch_adapter_def call_fn_def)
qed

lemma dispatch_batch:
  assumes ro: "request_of c CallMutRetUnit (fv f) [] (\<lambda>h. h\<lparr> repeat_count := ucast n \<rparr>) b c2"
    and fit: "fits (fv f) 0"
    and vt: "vt_mut X (fn_vtable (fv f)) = Some (VTABLE (fn_size (fv f)) (fn_align (fv f)) (batch_adapter (body f)))"
    and call: "repeat_inline (call_fn f) (unat (n :: u8)) (prop_cell s) = (t, Some ())"
    and s: "chans s i = c2"
  shows "dispatch_record X idx i b
      ((encoded_header (request_writer c) CallMutRetUnit (fv f) 0)\<lparr> repeat_count := ucast n \<rparr>) s =
    Next (upd_chan i (set_resp_data (resp_data c)) (s\<lparr> prop_cell := t \<rparr>), False)"
proof -
  let ?h = "(encoded_header (request_writer c) CallMutRetUnit (fv f) 0)\<lparr> repeat_count := ucast n \<rparr>"
  have d: "decode_and_call (vt_mut X) (request_base c2) (request c2) ?h x = batch_adapter (body f) (fn_env (fv f)) x" for x
    using request_of_calls[where vtables = "vt_mut X" and code = "batch_adapter (body f)", OF ro _ vt] fit by simp
  have n: "unat (repeat_count ?h) = unat n" by (simp add: unsigned_ucast_eq take_bit_nat_eq_self_iff order_less_le_trans[OF unsigned_less])
  have "upd_chan i (set_resp_data (resp_data c)) (s\<lparr> prop_cell := t \<rparr>) = s\<lparr> prop_cell := t \<rparr>"
    using ro s by (simp add: upd_chan_def set_resp_data_def resp_data_def request_of_def fun_upd_idem)
  then show ?thesis
    using repeat_call_inline[where X = X and f = f, OF d call] n s
    by (simp add: dispatch_record_def serve_CallMutRetUnit_def encoded_header_def Let_def)
qed

section \<open>Delegated calls\<close>

lemma read_after_call:
  assumes "request_of c p f args fix_hdr b' c2" "codes R r" "ret_size R \<le> 1148"
    "c' = answered b (after_result R (resp_data c) r) c2"
  shows "read_response (ret_size R) (ret_dec R) c' = Ok r"
proof -
  have "resp_data c2 = resp_data c" "wf_chan c2" using assms(1) by (simp_all add: request_of_def resp_data_def)
  then show ?thesis using read_answered[OF _ assms(2,3), of c2 b] assms(4) by simp
qed

context worker_queue
begin

lemma delegate_apply:
  assumes c: "calm items s" "i \<in> set (registered items s)" and f: "fits (fv f) 0"
    and R: "codes R r" "ret_size R \<le> 1148"
    and vt: "vt_out X (fn_vtable (fv f)) = Some (VTABLE (fn_size (fv f)) (fn_align (fv f)) (apply_adapter R (body f)))"
    and call: "call_fn f (prop_cell s) = (t, Some r)" and fuel: "distance items s + 2 \<le> fuel"
  shows "\<exists>s'. delegate X fuel i CallMutOutPtr (fv f) [] (\<lambda>h. h) (read_response (ret_size R) (ret_dec R)) s = (Returned r, s') \<and>
    prop_cell s' = t \<and> calm items s' \<and> op_frame items i s s'"
proof -
  let ?b = "\<not> ready (load_flags (response (chans s i)))" and ?d = "after_result R (resp_data (chans s i)) r"
  have wc: "wf_chan (chans s i)" using c by (simp add: calm_def resting_def)
  have d: "length ?d = 1148" using length_after_result[OF R(1)] length_resp_data[OF wc] R(2) by simp
  have fit: "fits (fv f) (length [])" using f by simp
  have sv: "dispatch_record X idx i ?b (encoded_header (request_writer (chans s i)) CallMutOutPtr (fv f) (length [])) s0 =
      Next (upd_chan i (set_resp_data ?d) (s0\<lparr> prop_cell := t \<rparr>), False)"
    if "request_of (chans s i) CallMutOutPtr (fv f) [] (\<lambda>h. h) ?b c2" "chans s0 i = c2" "prop_cell s0 = prop_cell s"
    for c2 idx s0
    using dispatch_apply[OF that(1) f vt R(1) R(2) _ that(2)] call that(3) by simp
  obtain s' c2 where del: "delegate X fuel i CallMutOutPtr (fv f) [] (\<lambda>h. h)
        (read_response (ret_size R) (ret_dec R)) s = (reply_of (read_response (ret_size R) (ret_dec R) (chans s' i)), s')"
      and s': "prop_cell s' = t" "calm items s'" "op_frame items i s s'"
      and ro: "request_of (chans s i) CallMutOutPtr (fv f) [] (\<lambda>h. h) ?b c2" "chans s' i = answered ?b ?d c2"
    by (rule delegate_immediate[where read = "read_response (ret_size R) (ret_dec R)" and fix_hdr = "\<lambda>h. h" and args = "[]",
          OF c fit refl sv d fuel])
  show ?thesis using del s' read_after_call[OF ro(1) R(1) R(2) ro(2)] by simp
qed

lemma delegate_apply_with:
  assumes c: "calm items s" "i \<in> set (registered items s)" and f: "fits (fvw f) (length args)"
    and R: "codes R r" "ret_size R \<le> 1148"
    and vt: "vt_args X (fn_vtable (fvw f)) = Some (VTABLE (fn_size (fvw f)) (fn_align (fvw f)) (apply_with_adapter R deserialize (bodyw f)))"
    and de: "deserialize args = Some v"
    and call: "call_fn_with f (prop_cell s) v = (t, Some r)" and fuel: "distance items s + 2 \<le> fuel"
  shows "\<exists>s'. delegate X fuel i CallMutArgsOutPtr (fvw f) args (\<lambda>h. h) (read_response (ret_size R) (ret_dec R)) s = (Returned r, s') \<and>
    prop_cell s' = t \<and> calm items s' \<and> op_frame items i s s'"
proof -
  let ?b = "\<not> ready (load_flags (response (chans s i)))" and ?d = "after_result R (resp_data (chans s i)) r"
  have wc: "wf_chan (chans s i)" using c by (simp add: calm_def resting_def)
  have d: "length ?d = 1148" using length_after_result[OF R(1)] length_resp_data[OF wc] R(2) by simp
  have sv: "dispatch_record X idx i ?b (encoded_header (request_writer (chans s i)) CallMutArgsOutPtr (fvw f) (length args)) s0 =
      Next (upd_chan i (set_resp_data ?d) (s0\<lparr> prop_cell := t \<rparr>), False)"
    if "request_of (chans s i) CallMutArgsOutPtr (fvw f) args (\<lambda>h. h) ?b c2" "chans s0 i = c2" "prop_cell s0 = prop_cell s"
    for c2 idx s0
    using dispatch_apply_with[OF that(1) f vt de R(1) R(2) _ that(2)] call that(3) by simp
  obtain s' c2 where del: "delegate X fuel i CallMutArgsOutPtr (fvw f) args (\<lambda>h. h)
        (read_response (ret_size R) (ret_dec R)) s = (reply_of (read_response (ret_size R) (ret_dec R) (chans s' i)), s')"
      and s': "prop_cell s' = t" "calm items s'" "op_frame items i s s'"
      and ro: "request_of (chans s i) CallMutArgsOutPtr (fvw f) args (\<lambda>h. h) ?b c2" "chans s' i = answered ?b ?d c2"
    by (rule delegate_immediate[where read = "read_response (ret_size R) (ret_dec R)" and fix_hdr = "\<lambda>h. h" and args = args,
          OF c f refl sv d fuel])
  show ?thesis using del s' read_after_call[OF ro(1) R(1) R(2) ro(2)] by simp
qed

lemma delegate_batch:
  assumes c: "calm items s" "i \<in> set (registered items s)" and f: "fits (fv f) 0"
    and vt: "vt_mut X (fn_vtable (fv f)) = Some (VTABLE (fn_size (fv f)) (fn_align (fv f)) (batch_adapter (body f)))"
    and call: "repeat_inline (call_fn f) (unat (n :: u8)) (prop_cell s) = (t, Some ())"
    and fuel: "distance items s + 2 \<le> fuel"
  shows "\<exists>s'. delegate X fuel i CallMutRetUnit (fv f) [] (\<lambda>h. h\<lparr> repeat_count := ucast n \<rparr>) (\<lambda>c. Ok ()) s = (Returned (), s') \<and>
    prop_cell s' = t \<and> calm items s' \<and> op_frame items i s s'"
proof -
  let ?b = "\<not> ready (load_flags (response (chans s i)))" and ?d = "resp_data (chans s i)"
  let ?fix = "\<lambda>h. h\<lparr> repeat_count := ucast n \<rparr>"
  have wc: "wf_chan (chans s i)" using c by (simp add: calm_def resting_def)
  have d: "length ?d = 1148" by (rule length_resp_data[OF wc])
  have fit: "fits (fv f) (length [])" using f by simp
  have sv: "dispatch_record X idx i ?b (?fix (encoded_header (request_writer (chans s i)) CallMutRetUnit (fv f) (length []))) s0 =
      Next (upd_chan i (set_resp_data ?d) (s0\<lparr> prop_cell := t \<rparr>), False)"
    if "request_of (chans s i) CallMutRetUnit (fv f) [] ?fix ?b c2" "chans s0 i = c2" "prop_cell s0 = prop_cell s"
    for c2 idx s0
    using dispatch_batch[OF that(1) f vt _ that(2)] call that(3) by simp
  obtain s' c2 where "delegate X fuel i CallMutRetUnit (fv f) [] ?fix (\<lambda>c. Ok ()) s = (reply_of (Ok ()), s')"
      "prop_cell s' = t" "request_of (chans s i) CallMutRetUnit (fv f) [] ?fix ?b c2" "chans s' i = answered ?b ?d c2"
      "calm items s'" "op_frame items i s s'"
    by (rule delegate_immediate[where read = "\<lambda>c. Ok ()" and fix_hdr = ?fix and args = "[]", OF c fit refl sv d fuel])
  then show ?thesis by auto
qed

end

section \<open>Fresh handles and clones\<close>

lemma entrust_handle_registered:
  assumes "seg_queue items (reg_push X) (reg_pop X)" "entrust_handle X b own s = (rm, s')"
  shows "registered items s' = registered items s @ [n_chans s]" "r_chan rm = n_chans s" "r_owner rm = own"
  using assms seg_queue.items_push[OF assms(1)]
  by (auto simp: entrust_handle_def new_chan_def register_def registered_def new_client_pair_def Let_def)

lemma entrust_handle_calm:
  assumes q: "seg_queue items (reg_push X) (reg_pop X)" and c: "calm items s"
    and e: "entrust_handle X b own s = (rm, s')"
  shows "calm items s'"
proof -
  have s': "s' = register X (n_chans s) (s\<lparr> chans := (chans s)(n_chans s := ChannelPair_default (arc_address b)),
      n_chans := Suc (n_chans s) \<rparr>)"
    using e by (auto simp: entrust_handle_def new_chan_def Let_def)
  have it: "items (reg s') = items (reg s) @ [new_client_pair (n_chans s)]"
    using s' seg_queue.items_push[OF q] by (simp add: register_def)
  have sel: "clients s' = clients s" "chans s' = (chans s)(n_chans s := ChannelPair_default (arc_address b))"
    "n_chans s' = Suc (n_chans s)" "status s' = status s" "fibers s' = fibers s"
    "start_idx s' = start_idx s" "idle_rounds s' = idle_rounds s"
    by (simp_all add: s' register_def)
  have lt: "\<forall>c \<in> set (registered items s). c < n_chans s" using c by (simp add: calm_def resting_def)
  have reg: "registered items s' = registered items s @ [n_chans s]"
    by (simp add: registered_def it sel new_client_pair_def)
  have old: "chans s' c = chans s c" if "c \<in> set (registered items s)" for c
    using lt that by (auto simp: sel)
  have "quiet items s'"
    unfolding quiet_def it sel(1)
  proof (intro ballI impI)
    fix cp assume cp: "cp \<in> set (clients s @ items (reg s) @ [new_client_pair (n_chans s)])" "pending_launch cp"
    then have m: "cp \<in> set (clients s @ items (reg s))" by (auto simp: new_client_pair_def)
    then have "cp_chan cp \<in> set (registered items s)" by (auto simp: registered_def)
    then show "launch_req_ready cp = ready (load_flags (response (chans s' (cp_chan cp))))"
      using old c cp(2) m by (simp add: calm_def resting_def quiet_def)
  qed
  moreover have "idle_chan (ChannelPair_default (arc_address b))" by (simp add: idle_chan_def)
  moreover have "wf_loop s'" using c by (simp add: calm_def resting_def wf_loop_def sel)
  ultimately show ?thesis
    using c lt old unfolding calm_def resting_def reg by (auto simp: sel less_Suc_eq)
qed

lemma worker_start_calm: "items q = [] \<Longrightarrow> calm items (worker_start v tid q p)"
  by (simp add: calm_def resting_def worker_start_def registered_def quiet_def wf_loop_def)

section \<open>A small program\<close>

text \<open>A property of 64 bits and a closure that captures a number, adds it to the property and
  returns the old value; \<open>demo_world\<close> is the image of a program with this closure type.\<close>

definition u64_ret :: "u64 ret_type" where
  "u64_ret = \<lparr> ret_size = 8, ret_enc = le_bytes 8, ret_dec = dec_word \<rparr>"

definition add_body :: "u8 list \<Rightarrow> u64 \<Rightarrow> u64 \<times> u64 option" where
  "add_body env t = (t + of_le env, Some t)"

definition add_fn :: "u64 \<Rightarrow> (u64, u64) client_fn" where
  "add_fn k = \<lparr> fv = \<lparr> fn_size = 8, fn_align = 8, fn_env = le_bytes 8 k, fn_vtable = 0x5000 \<rparr>, body = add_body \<rparr>"

definition add_with_body :: "u8 list \<Rightarrow> u64 \<Rightarrow> u64 \<Rightarrow> u64 \<times> u64 option" where
  "add_with_body env t v = (t + v, Some t)"

definition add_with_fn :: "(u64, u64, u64) client_fn_with" where
  "add_with_fn = \<lparr> fvw = \<lparr> fn_size = 0, fn_align = 1, fn_env = [], fn_vtable = 0x6000 \<rparr>, bodyw = add_with_body \<rparr>"

definition inc_body :: "u8 list \<Rightarrow> u64 \<Rightarrow> u64 \<times> unit option" where
  "inc_body env t = (t + 1, Some ())"

definition inc_fn :: "(u64, unit) client_fn" where
  "inc_fn = \<lparr> fv = \<lparr> fn_size = 8, fn_align = 8, fn_env = le_bytes 8 (0x7777 :: u64), fn_vtable = 0x7000 \<rparr>, body = inc_body \<rparr>"

definition demo_world :: "(u64, ClientPair list, nat list) world" where
  "demo_world =
     \<lparr> vt_mut = (\<lambda>a. if a = 0x7000 then Some (VTABLE 8 8 (batch_adapter inc_body)) else None),
       vt_out = (\<lambda>a. if a = 0x5000 then Some (VTABLE 8 8 (apply_adapter u64_ret add_body)) else None),
       vt_args = (\<lambda>a. if a = 0x6000 then Some (VTABLE 0 1 (apply_with_adapter u64_ret dec_word add_with_body)) else None),
       prop_bytes = le_bytes 8,
       reg_push = list_push, reg_pop = list_pop, pool_push = list_push, pool_pop = list_pop \<rparr>"

definition demo :: "remote \<times> (u64, ClientPair list, nat list) rt" where
  "demo = remote_entrust demo_world 5 7 0x10000 [] []"

definition client_thread :: caller where
  "client_thread = \<lparr> caller_id = 8, caller_trustee = False \<rparr>"

lemma demo_queue: "seg_queue (\<lambda>q. q) (reg_push demo_world) (reg_pop demo_world)"
  using list_queue.seg_queue_axioms by (simp add: demo_world_def)

interpretation demo_system: worker_queue "\<lambda>q. q" demo_world
  by (intro worker_queue.intro demo_queue)

lemma u64_ret_wf [simp]: "wf_ret u64_ret" "ret_size u64_ret = 8"
  using u64_layout.layout_axioms by (simp_all add: wf_ret_def u64_ret_def)

lemma demo_calm: "calm (\<lambda>q. q) (snd demo)"
proof -
  let ?h = "entrust_handle demo_world 0x10000 True (worker_start 5 7 [] [])"
  have "calm (\<lambda>q. q) (snd ?h)"
    by (rule entrust_handle_calm[OF demo_queue worker_start_calm, where rm = "fst ?h"]) simp_all
  then show ?thesis by (simp add: demo_def remote_entrust_def spawn_with_pin_def split_beta)
qed

lemma demo_simps [simp]:
  "r_chan (fst demo) = 0" "prop_cell (snd demo) = 5" "registered (\<lambda>q. q) (snd demo) = [0]"
  "reg (snd demo) = [new_client_pair 0]" "loop_counter (snd demo) = 0" "trustee_id (snd demo) = 7"
  "n_fibers (snd demo) = 0" "r_owner (fst demo) = True"
  by (simp_all add: demo_def remote_entrust_def spawn_with_pin_def entrust_handle_def new_chan_def
      worker_start_def register_def demo_world_def list_push_def new_client_pair_def registered_def)

lemma demo_distance: "distance (\<lambda>q. q) (snd demo) = 32"
  by (simp add: distance_def)

lemma demo_not_owner: "\<not> on_owning_trustee client_thread (snd demo)" "\<not> caller_trustee client_thread"
  by (simp_all add: on_owning_trustee_def client_thread_def)

lemma demo_fits: "fits (fv (add_fn k)) 0" "fits (fvw add_with_fn) 8" "fits (fv inc_fn) 0"
  by (simp_all add: fits_def wf_fn_def add_fn_def add_with_fn_def inc_fn_def args_pos_def env_pos_def
      boundary_offset_def align_up_def)

section \<open>Properties\<close>

text \<open>C1. Delegation is transparent: in a calm system, \<open>apply\<close> on a registered handle - from
  the encoding of the closure's bytes through the worker's rounds to the bytes of the
  response - returns exactly what the closure returns on the property, leaves the property as
  the closure leaves it, touches no other channel and no reference count, and leaves the system
  calm. It returns: the rounds needed are bounded by the pending registrations.\<close>

theorem remote_apply_correct:
  assumes "seg_queue items (reg_push X) (reg_pop X)" "calm items s" "r_chan rm \<in> set (registered items s)"
    and "\<not> on_owning_trustee th s" "\<not> caller_trustee th"
    and "fits (fv f) 0" "codes R r" "ret_size R \<le> 1148"
    and "vt_out X (fn_vtable (fv f)) = Some (VTABLE (fn_size (fv f)) (fn_align (fv f)) (apply_adapter R (body f)))"
    and "call_fn f (prop_cell s) = (t, Some r)" "distance items s + 2 \<le> fuel"
  shows "\<exists>s'. remote_apply X fuel th rm R f s = (Returned r, s') \<and> prop_cell s' = t \<and>
     calm items s' \<and> op_frame items (r_chan rm) s s'"
  using worker_queue.delegate_apply[OF worker_queue.intro[OF assms(1)] assms(2,3,6-11)] assms(4,5)
  by (simp add: remote_apply_def)

theorem remote_apply_correct_witness:
  "\<exists>s'. remote_apply demo_world 34 client_thread (fst demo) u64_ret (add_fn 3) (snd demo) = (Returned 5, s') \<and>
     prop_cell s' = 8 \<and> calm (\<lambda>q. q) s'"
proof -
  have i: "r_chan (fst demo) \<in> set (registered (\<lambda>q. q) (snd demo))" by simp
  have vt: "vt_out demo_world (fn_vtable (fv (add_fn 3))) =
      Some (VTABLE (fn_size (fv (add_fn 3))) (fn_align (fv (add_fn 3))) (apply_adapter u64_ret (body (add_fn 3))))"
    by (simp add: demo_world_def add_fn_def)
  have c: "call_fn (add_fn 3) (prop_cell (snd demo)) = (8, Some 5)"
    by (simp add: call_fn_def add_fn_def add_body_def del: le_bytes.simps)
  have "\<exists>s'. remote_apply demo_world 34 client_thread (fst demo) u64_ret (add_fn 3) (snd demo) = (Returned 5, s') \<and>
     prop_cell s' = 8 \<and> calm (\<lambda>q. q) s' \<and> op_frame (\<lambda>q. q) (r_chan (fst demo)) (snd demo) s'"
    by (rule remote_apply_correct[OF demo_queue demo_calm i demo_not_owner demo_fits(1) wf_ret_codes[OF u64_ret_wf(1)] _ vt c])
      (simp_all add: demo_distance)
  then show ?thesis by blast
qed

text \<open>C3. With an argument: when the caller's bytes deserialise to the argument on the trustee's
  side - what the serialisation format promises - \<open>apply_with\<close> returns what the closure returns
  on the property and that argument.\<close>

theorem remote_apply_with_correct:
  assumes "seg_queue items (reg_push X) (reg_pop X)" "calm items s" "r_chan rm \<in> set (registered items s)"
    and "\<not> on_owning_trustee th s" "\<not> caller_trustee th"
    and "serialize v = Some args" "deserialize args = Some v"
    and "fits (fvw f) (length args)" "codes R r" "ret_size R \<le> 1148"
    and "vt_args X (fn_vtable (fvw f)) = Some (VTABLE (fn_size (fvw f)) (fn_align (fvw f)) (apply_with_adapter R deserialize (bodyw f)))"
    and "call_fn_with f (prop_cell s) v = (t, Some r)" "distance items s + 2 \<le> fuel"
  shows "\<exists>s'. remote_apply_with X fuel th rm R serialize f v s = (Returned r, s') \<and> prop_cell s' = t \<and>
     calm items s' \<and> op_frame items (r_chan rm) s s'"
  using worker_queue.delegate_apply_with[OF worker_queue.intro[OF assms(1)] assms(2,3,8-11,7,12,13)] assms(4-6)
  by (simp add: remote_apply_with_def)

theorem remote_apply_with_correct_witness:
  "\<exists>s'. remote_apply_with demo_world 34 client_thread (fst demo) u64_ret (\<lambda>v. Some (le_bytes 8 v)) add_with_fn 4 (snd demo)
     = (Returned 5, s') \<and> prop_cell s' = 9"
proof -
  have i: "r_chan (fst demo) \<in> set (registered (\<lambda>q. q) (snd demo))" by simp
  have vt: "vt_args demo_world (fn_vtable (fvw add_with_fn)) =
      Some (VTABLE (fn_size (fvw add_with_fn)) (fn_align (fvw add_with_fn)) (apply_with_adapter u64_ret dec_word (bodyw add_with_fn)))"
    by (simp add: demo_world_def add_with_fn_def)
  have c: "call_fn_with add_with_fn (prop_cell (snd demo)) 4 = (9, Some 5)"
    by (simp add: call_fn_with_def add_with_fn_def add_with_body_def)
  have f: "fits (fvw add_with_fn) (length (le_bytes 8 (4 :: u64)))" using demo_fits(2) by simp
  have de: "dec_word (le_bytes 8 (4 :: u64)) = Some (4 :: u64)" by (rule u64_layout.dec_enc)
  have "\<exists>s'. remote_apply_with demo_world 34 client_thread (fst demo) u64_ret (\<lambda>v. Some (le_bytes 8 v)) add_with_fn 4 (snd demo)
     = (Returned 5, s') \<and> prop_cell s' = 9 \<and> calm (\<lambda>q. q) s' \<and> op_frame (\<lambda>q. q) (r_chan (fst demo)) (snd demo) s'"
    by (rule remote_apply_with_correct[where serialize = "\<lambda>v. Some (le_bytes 8 v)",
          OF demo_queue demo_calm i demo_not_owner refl de f wf_ret_codes[OF u64_ret_wf(1)] _ vt c])
      (simp_all add: demo_distance)
  then show ?thesis by blast
qed

text \<open>A batch of \<open>n\<close> applications is one record, executed \<open>n\<close> times in a row: the property
  ends as after \<open>n\<close> calls of the function, and the caller returns after all of them.\<close>

lemma remote_batch_correct:
  assumes "seg_queue items (reg_push X) (reg_pop X)" "calm items s" "r_chan rm \<in> set (registered items s)"
    and "\<not> on_owning_trustee th s" "\<not> caller_trustee th" "fits (fv f) 0"
    and "vt_mut X (fn_vtable (fv f)) = Some (VTABLE (fn_size (fv f)) (fn_align (fv f)) (batch_adapter (body f)))"
    and "repeat_inline (call_fn f) (unat n) (prop_cell s) = (t, Some ())" "distance items s + 2 \<le> fuel"
  shows "\<exists>s'. remote_apply_batch_mut X fuel th rm f n s = (Returned (), s') \<and> prop_cell s' = t \<and>
     calm items s' \<and> op_frame items (r_chan rm) s s'"
  using worker_queue.delegate_batch[OF worker_queue.intro[OF assms(1)] assms(2,3,6-9)] assms(4,5)
  by (simp add: remote_apply_batch_mut_def)

end
