(* ===== verification/Remote_Guards.thy ===== *)
theory Remote_Guards
  imports Remote_Trust
begin

text \<open>
  The branches around a delegated call: the shortcut on the owning trustee's thread, the
  refusal to block a trustee's thread, a request that does not fit its slot, a result that
  does not fit the response, a closure that panics, and the move of the value out of the
  trust.
\<close>

section \<open>Records that stop the worker\<close>

lemma dispatch_apply_panic:
  assumes ro: "request_of c CallMutOutPtr (fv f) [] (\<lambda>h. h) b c2" and fit: "fits (fv f) 0"
    and vt: "vt_out X (fn_vtable (fv f)) = Some (VTABLE (fn_size (fv f)) (fn_align (fv f)) (apply_adapter R (body f)))"
    and call: "call_fn f (prop_cell s) = (t, None)" and s: "chans s i = c2"
  shows "dispatch_record X idx i b (encoded_header (request_writer c) CallMutOutPtr (fv f) 0) s =
    Halt (unwind (s\<lparr> prop_cell := t \<rparr>), False)"
proof -
  have d: "decode_and_call (vt_out X) (request_base c2) (request c2)
      (encoded_header (request_writer c) CallMutOutPtr (fv f) 0) (prop_cell s, resp_data c2)
      = Ok (t, resp_data c2, True)"
    using request_of_calls[where vtables = "vt_out X" and code = "apply_adapter R (body f)", OF ro _ vt] fit call
    by (simp add: apply_adapter_def call_fn_def finish_adapter_def)
  have "upd_chan i (set_resp_data (resp_data c2)) (s\<lparr> prop_cell := t \<rparr>) = s\<lparr> prop_cell := t \<rparr>"
    using s by (simp add: upd_chan_def set_resp_data_def resp_data_def fun_upd_idem)
  then show ?thesis
    using d s by (simp add: dispatch_record_def encoded_header_def serve_CallMutOutPtr_def after_call_def Let_def)
qed

lemma dispatch_apply_oversized:
  assumes ro: "request_of c CallMutOutPtr (fv f) [] (\<lambda>h. h) b c2" and fit: "fits (fv f) 0"
    and vt: "vt_out X (fn_vtable (fv f)) = Some (VTABLE (fn_size (fv f)) (fn_align (fv f)) (apply_adapter R (body f)))"
    and R: "wf_ret R" "1148 < ret_size R"
    and call: "call_fn f (prop_cell s) = (t, Some r)" and s: "chans s i = c2"
  shows "dispatch_record X idx i b (encoded_header (request_writer c) CallMutOutPtr (fv f) 0) s = Undefined OutOfBounds"
proof -
  have l: "length (resp_data c2) = 1148" using ro length_resp_data by (simp add: request_of_def)
  have "length (ret_enc R r) = ret_size R" using R(1) by (simp add: wf_ret_def layout_def)
  then have "finish_adapter R (resp_data c2) (t, Some r) = UB OutOfBounds"
    using R(2) l by (simp add: finish_adapter_def write_unaligned_def write_at_def)
  then have "decode_and_call (vt_out X) (request_base c2) (request c2)
      (encoded_header (request_writer c) CallMutOutPtr (fv f) 0) (prop_cell s, resp_data c2) = UB OutOfBounds"
    using request_of_calls[where vtables = "vt_out X" and code = "apply_adapter R (body f)", OF ro _ vt] fit call
    by (simp add: apply_adapter_def call_fn_def)
  then show ?thesis
    using s by (simp add: dispatch_record_def encoded_header_def serve_CallMutOutPtr_def after_call_def Let_def)
qed

lemma dispatch_into_inner:
  assumes ro: "request_of c IntoInner f [] (\<lambda>h. h) b c2" and s: "chans s i = c2"
    and T: "wf_ret T" "ret_size T \<le> 1148" "prop_bytes X (prop_cell s) = ret_enc T (prop_cell s)"
  shows "dispatch_record X idx i b (encoded_header (request_writer c) IntoInner f 0) s =
    Halt (leave_worker Exited ((s\<lparr> prop_moves := Suc (prop_moves s) \<rparr>)
      \<lparr> chans := (chans s)(i := answered b (after_result T (resp_data c) (prop_cell s)) c2) \<rparr>), False)"
proof -
  let ?v = "prop_cell s"
  have c2: "wf_chan c2" "resp_data c2 = resp_data c" "load_flags (request c2) = pack_ready_count b 1"
    using ro by (simp_all add: request_of_def resp_data_def posted_def)
  have "length (ret_enc T ?v) = ret_size T" using T(1) by (simp add: wf_ret_def layout_def)
  then have w: "write_at 0 (prop_bytes X ?v) (resp_data c2) = Some (after_result T (resp_data c) ?v)"
    using T length_resp_data[OF c2(1)] c2(2) by (simp add: write_at_def after_result_def)
  show ?thesis
    using w s c2(3)
    by (simp add: dispatch_record_def encoded_header_def serve_IntoInner_def Let_def upd_chan_def answered_def
        set_resp_data_def)
qed

section \<open>After the worker is gone\<close>

lemma system_step_stopped:
  "status s \<noteq> Running \<Longrightarrow> \<forall>f. inbox (fibers s f) = [] \<Longrightarrow> system_step X s = Next s"
  by (simp add: system_step_def after_round_idle)

lemma await_stopped:
  assumes "status s \<noteq> Running" "\<forall>f. inbox (fibers s f) = []" "\<not> response_ready b (chans s i)"
  shows "await_response X fuel w i b s = StillWaiting s"
  using assms by (induction fuel arbitrary: w) (simp_all add: system_step_stopped)

lemma leave_worker_simps [simp]:
  "chans (leave_worker st s) = chans s" "status (leave_worker st s) = st" "fibers (leave_worker st s) = fibers s"
  "prop_cell (leave_worker st s) = prop_cell s" "prop_moves (leave_worker st s) = prop_moves s"
  by (simp_all add: leave_worker_def drop_prop_arc_def Let_def)

lemma leave_worker_drops: "prop_arcs s = 1 \<Longrightarrow> prop_drops (leave_worker st s) = Suc (prop_drops s)"
  by (simp add: leave_worker_def drop_prop_arc_def Let_def)

context worker_queue
begin

text \<open>A delegated operation whose record stops the worker.\<close>

lemma delegate_halted:
  assumes c: "calm items s" "i \<in> set (registered items s)" and f: "fits f (length args)"
    and b: "b = (\<not> ready (load_flags (response (chans s i))))"
    and hdr: "hdr = fix_hdr (encoded_header (request_writer (chans s i)) p f (length args))"
  obtains k c2 w1 s0 where "k \<le> distance items s" "request_of (chans s i) p f args fix_hdr b c2"
    "chans s0 = (chans s)(i := c2)" "prop_cell s0 = prop_cell s" "prop_arcs s0 = prop_arcs s"
    "prop_drops s0 = prop_drops s" "prop_moves s0 = prop_moves s" "\<forall>f. inbox (fibers s0 f) = []" "fibers s0 = fibers s" "n_fibers s0 = n_fibers s"
    "\<forall>s' d. (\<forall>idx. dispatch_record X idx i b hdr s0 = Halt (s', d)) \<longrightarrow>
       (\<forall>fuel. delegate X (k + Suc fuel) i p f args fix_hdr read s =
          deliver i read (s\<lparr> chans := (chans s)(i := c2) \<rparr>) (await_response X fuel w1 i b s'))"
    "\<forall>u. (\<forall>idx. dispatch_record X idx i b hdr s0 = Undefined u) \<longrightarrow>
       (\<forall>fuel. fst (delegate X (k + Suc fuel) i p f args fix_hdr read s) = UndefinedBehaviour u)"
proof -
  obtain c2 k w1 s1 idx n js s0 where
    ro: "request_of (chans s i) p f args fix_hdr b c2" and k: "k \<le> distance items s"
    and t0: "tidied items (s\<lparr> chans := (chans s)(i := c2) \<rparr>) s0" and r0: "resting items {i} s0"
    and del: "\<forall>fuel. delegate X (k + Suc fuel) i p f args fix_hdr read s =
       deliver i read (s\<lparr> chans := (chans s)(i := c2) \<rparr>)
         (await_step X fuel w1 i b s1 (after_round X (round_end i b idx n js (dispatch_record X idx i b hdr s0))))"
    by (rule delegate_reaches[where fix_hdr = fix_hdr and args = args, OF c f b hdr])
  have m: "moved (s\<lparr> chans := (chans s)(i := c2) \<rparr>) s0" using t0 by (simp add: tidied_def)
  show ?thesis
  proof (rule that[OF k ro, of s0 w1])
    show "\<forall>s' d. (\<forall>idx. dispatch_record X idx i b hdr s0 = Halt (s', d)) \<longrightarrow>
       (\<forall>fuel. delegate X (k + Suc fuel) i p f args fix_hdr read s =
          deliver i read (s\<lparr> chans := (chans s)(i := c2) \<rparr>) (await_response X fuel w1 i b s'))"
      using del by (simp add: round_end_def after_round_def await_step_def)
    show "\<forall>u. (\<forall>idx. dispatch_record X idx i b hdr s0 = Undefined u) \<longrightarrow>
       (\<forall>fuel. fst (delegate X (k + Suc fuel) i p f args fix_hdr read s) = UndefinedBehaviour u)"
      using del by (simp add: round_end_def after_round_def await_step_def)
  qed (use moved_simps[OF m] r0 in \<open>simp_all add: resting_def\<close>)
qed

lemma delegate_panics:
  assumes c: "calm items s" "i \<in> set (registered items s)" and f: "fits (fv f) 0"
    and vt: "vt_out X (fn_vtable (fv f)) = Some (VTABLE (fn_size (fv f)) (fn_align (fv f)) (apply_adapter R (body f)))"
    and call: "call_fn f (prop_cell s) = (t, None)" and fuel: "distance items s + 1 \<le> fuel" and arcs: "prop_arcs s = 1"
  shows "\<exists>s'. delegate X fuel i CallMutOutPtr (fv f) [] (\<lambda>h. h) read s = (NoReply, s') \<and>
    status s' = Unwound \<and> prop_drops s' = Suc (prop_drops s)"
proof -
  let ?b = "\<not> ready (load_flags (response (chans s i)))"
  let ?hdr = "encoded_header (request_writer (chans s i)) CallMutOutPtr (fv f) (length ([] :: u8 list))"
  have fit: "fits (fv f) (length [])" using f by simp
  obtain k c2 w1 s0 where k: "k \<le> distance items s"
    and ro: "request_of (chans s i) CallMutOutPtr (fv f) [] (\<lambda>h. h) ?b c2"
    and s0: "chans s0 = (chans s)(i := c2)" "prop_cell s0 = prop_cell s" "prop_arcs s0 = prop_arcs s"
      "prop_drops s0 = prop_drops s" "prop_moves s0 = prop_moves s" "\<forall>f. inbox (fibers s0 f) = []"
    and del: "\<forall>s' d. (\<forall>idx. dispatch_record X idx i ?b ?hdr s0 = Halt (s', d)) \<longrightarrow>
       (\<forall>fuel. delegate X (k + Suc fuel) i CallMutOutPtr (fv f) [] (\<lambda>h. h) read s =
          deliver i read (s\<lparr> chans := (chans s)(i := c2) \<rparr>) (await_response X fuel w1 i ?b s'))"
    by (rule delegate_halted[where fix_hdr = "\<lambda>h. h" and args = "[]", OF c fit refl refl])
  let ?s' = "unwind (s0\<lparr> prop_cell := t \<rparr>)"
  have "\<forall>idx. dispatch_record X idx i ?b ?hdr s0 = Halt (?s', False)"
    using dispatch_apply_panic[OF ro f vt, of s0] s0 call by simp
  moreover have nr: "\<not> response_ready ?b (chans ?s' i)"
    using ro s0(1) by (simp add: unwind_def response_ready_def request_of_def)
  moreover have "await_response X fl w1 i ?b ?s' = StillWaiting ?s'" for fl
    by (rule await_stopped[OF _ _ nr]) (use s0 in \<open>simp_all add: unwind_def\<close>)
  ultimately have "\<forall>fl. delegate X (k + Suc fl) i CallMutOutPtr (fv f) [] (\<lambda>h. h) read s = (NoReply, ?s')"
    using del by fastforce
  moreover obtain fl where "fuel = k + Suc fl" using fuel k le_Suc_ex[of "k + 1" fuel] by auto
  moreover have "prop_drops ?s' = Suc (prop_drops s)"
    using leave_worker_drops[of "s0\<lparr> prop_cell := t \<rparr>"] s0 arcs by (simp add: unwind_def)
  moreover have "status ?s' = Unwound" by (simp add: unwind_def)
  ultimately show ?thesis by blast
qed

lemma delegate_oversized:
  assumes c: "calm items s" "i \<in> set (registered items s)" and f: "fits (fv f) 0"
    and vt: "vt_out X (fn_vtable (fv f)) = Some (VTABLE (fn_size (fv f)) (fn_align (fv f)) (apply_adapter R (body f)))"
    and R: "wf_ret R" "1148 < ret_size R"
    and call: "call_fn f (prop_cell s) = (t, Some r)" and fuel: "distance items s + 1 \<le> fuel"
  shows "fst (delegate X fuel i CallMutOutPtr (fv f) [] (\<lambda>h. h) read s) = UndefinedBehaviour OutOfBounds"
proof -
  let ?b = "\<not> ready (load_flags (response (chans s i)))"
  let ?hdr = "encoded_header (request_writer (chans s i)) CallMutOutPtr (fv f) (length ([] :: u8 list))"
  have fit: "fits (fv f) (length [])" using f by simp
  obtain k c2 w1 s0 where k: "k \<le> distance items s"
    and ro: "request_of (chans s i) CallMutOutPtr (fv f) [] (\<lambda>h. h) ?b c2"
    and s0: "chans s0 = (chans s)(i := c2)" "prop_cell s0 = prop_cell s"
    and del: "\<forall>u. (\<forall>idx. dispatch_record X idx i ?b ?hdr s0 = Undefined u) \<longrightarrow>
       (\<forall>fuel. fst (delegate X (k + Suc fuel) i CallMutOutPtr (fv f) [] (\<lambda>h. h) read s) = UndefinedBehaviour u)"
    by (rule delegate_halted[where fix_hdr = "\<lambda>h. h" and args = "[]", OF c fit refl refl])
  have "\<forall>idx. dispatch_record X idx i ?b ?hdr s0 = Undefined OutOfBounds"
    using dispatch_apply_oversized[OF ro f vt R, of s0] s0 call by simp
  moreover obtain fl where "fuel = k + Suc fl" using fuel k le_Suc_ex[of "k + 1" fuel] by auto
  ultimately show ?thesis using del by blast
qed

lemma delegate_into_inner:
  assumes c: "calm items s" "i \<in> set (registered items s)" and f: "fits f 0"
    and T: "wf_ret T" "ret_size T \<le> 1148" "prop_bytes X (prop_cell s) = ret_enc T (prop_cell s)"
    and fuel: "distance items s + 2 \<le> fuel" and arcs: "prop_arcs s = 1"
  shows "\<exists>s'. delegate X fuel i IntoInner f [] (\<lambda>h. h) (read_response (ret_size T) (ret_dec T)) s = (Returned (prop_cell s), s') \<and>
    status s' = Exited \<and> prop_moves s' = Suc (prop_moves s) \<and> prop_drops s' = Suc (prop_drops s) \<and>
    fibers s' = fibers s \<and> n_fibers s' = n_fibers s"
proof -
  let ?b = "\<not> ready (load_flags (response (chans s i)))"
  let ?hdr = "encoded_header (request_writer (chans s i)) IntoInner f (length ([] :: u8 list))"
  let ?read = "read_response (ret_size T) (ret_dec T)"
  have fit: "fits f (length [])" using f by simp
  obtain k c2 w1 s0 where k: "k \<le> distance items s"
    and ro: "request_of (chans s i) IntoInner f [] (\<lambda>h. h) ?b c2"
    and s0: "chans s0 = (chans s)(i := c2)" "prop_cell s0 = prop_cell s" "prop_arcs s0 = prop_arcs s"
      "prop_drops s0 = prop_drops s" "prop_moves s0 = prop_moves s" "\<forall>f. inbox (fibers s0 f) = []" "fibers s0 = fibers s" "n_fibers s0 = n_fibers s"
    and del: "\<forall>s' d. (\<forall>idx. dispatch_record X idx i ?b ?hdr s0 = Halt (s', d)) \<longrightarrow>
       (\<forall>fuel. delegate X (k + Suc fuel) i IntoInner f [] (\<lambda>h. h) ?read s =
          deliver i ?read (s\<lparr> chans := (chans s)(i := c2) \<rparr>) (await_response X fuel w1 i ?b s'))"
    by (rule delegate_halted[where fix_hdr = "\<lambda>h. h" and args = "[]" and read = ?read, OF c fit refl refl])
  let ?c = "answered ?b (after_result T (resp_data (chans s i)) (prop_cell s)) c2"
  let ?t = "(s0\<lparr> prop_moves := Suc (prop_moves s0) \<rparr>)\<lparr> chans := (chans s0)(i := ?c) \<rparr>"
  let ?s' = "leave_worker Exited ?t"
  have D: "\<forall>idx. dispatch_record X idx i ?b ?hdr s0 = Halt (?s', False)"
    using dispatch_into_inner[OF ro, of s0 i T X] T s0 by simp
  have A: "await_response X (Suc fl) w1 i ?b ?s' = Arrived ?s'" for fl
    by (simp add: response_ready_def load_store_flags)
  have "?read (chans ?s' i) = Ok (prop_cell s)" using read_after_call[OF ro wf_ret_codes[OF T(1)] T(2) refl] by simp
  then have "\<forall>fl. delegate X (k + Suc (Suc fl)) i IntoInner f [] (\<lambda>h. h) ?read s = (Returned (prop_cell s), ?s')"
    unfolding del[THEN spec, THEN spec, THEN mp, OF D, THEN spec] A by simp
  moreover obtain fl where "fuel = k + Suc (Suc fl)" using fuel k le_Suc_ex[of "k + 2" fuel] by auto
  moreover have "prop_drops ?s' = Suc (prop_drops s)" using leave_worker_drops[of ?t] s0 arcs by simp
  moreover have "status ?s' = Exited" "prop_moves ?s' = Suc (prop_moves s)" "fibers ?s' = fibers s" "n_fibers ?s' = n_fibers s"
    using s0 by (simp_all add: leave_worker_def drop_prop_arc_def Let_def)
  ultimately show ?thesis by blast
qed

end

section \<open>Closures for the branches\<close>

text \<open>A closure that panics after it has changed the property, and one whose result has 1200
  bytes; the image of a program with both.\<close>

definition panic_body :: "u8 list \<Rightarrow> u64 \<Rightarrow> u64 \<times> u64 option" where
  "panic_body env t = (t + 1, None)"

definition panic_fn :: "(u64, u64) client_fn" where
  "panic_fn = \<lparr> fv = \<lparr> fn_size = 0, fn_align = 1, fn_env = [], fn_vtable = 0x8000 \<rparr>, body = panic_body \<rparr>"

definition wide_ret :: "unit ret_type" where
  "wide_ret = \<lparr> ret_size = 1200, ret_enc = (\<lambda>_. replicate 1200 0), ret_dec = (\<lambda>_. Some ()) \<rparr>"

definition wide_body :: "u8 list \<Rightarrow> u64 \<Rightarrow> u64 \<times> unit option" where
  "wide_body env t = (t, Some ())"

definition wide_fn :: "(u64, unit) client_fn" where
  "wide_fn = \<lparr> fv = \<lparr> fn_size = 0, fn_align = 1, fn_env = [], fn_vtable = 0x9000 \<rparr>, body = wide_body \<rparr>"

definition branch_world :: "(u64, ClientPair list, nat list) world" where
  "branch_world = demo_world\<lparr> vt_out := (\<lambda>a.
     if a = 0x8000 then Some (VTABLE 0 1 (apply_adapter u64_ret panic_body))
     else if a = 0x9000 then Some (VTABLE 0 1 (apply_adapter wide_ret wide_body)) else None) \<rparr>"

lemma branch_queue: "seg_queue (\<lambda>q. q) (reg_push branch_world) (reg_pop branch_world)"
  using demo_queue by (simp add: branch_world_def)

lemma wide_ret_wf: "wf_ret wide_ret" "1148 < ret_size wide_ret"
  by (simp_all add: wf_ret_def wide_ret_def layout_def)

lemma small_fits: "fits \<lparr> fn_size = 0, fn_align = 1, fn_env = [], fn_vtable = a \<rparr> 0"
  by (simp add: fits_def wf_fn_def args_pos_def env_pos_def boundary_offset_def align_up_def)

lemma demo_registered: "r_chan (fst demo) \<in> set (registered (\<lambda>q. q) (snd demo))"
  by simp

lemma demo_arcs: "prop_arcs (snd demo) = 1" "prop_drops (snd demo) = 0" "prop_moves (snd demo) = 0"
  by (simp_all add: demo_def remote_entrust_def spawn_with_pin_def entrust_handle_def new_chan_def
      worker_start_def register_def)

section \<open>Properties\<close>

text \<open>A thread that is some other trustee's is refused: \<open>apply\<close>, \<open>apply_then\<close>, \<open>apply_with\<close>,
  \<open>apply_batch_mut\<close> and \<open>into_inner\<close> panic before anything is written. The panic message recommends
  \<open>apply_then\<close>, which panics as well; \<open>with\<close>, \<open>launch\<close> and \<open>launch_then\<close> have no such guard and
  delegate, blocking the trustee.\<close>

lemma trustee_refused:
  assumes "caller_trustee th" "\<not> on_owning_trustee th s"
  shows "remote_apply X fuel th rm R f s = (CallerPanics BlockingDelegation, s)"
    "remote_apply_then X fuel th rm R f k s = (CallerPanics BlockingDelegation, s)"
    "remote_apply_with X fuel th rm R ser g v s = (CallerPanics BlockingDelegation, s)"
    "remote_apply_batch_mut X fuel th rm h n s = (CallerPanics BlockingDelegation, s)"
    "remote_into_inner X fuel th rm T vt s = (CallerPanics BlockingDelegation, s)"
    "remote_with X fuel th rm R f s =
       delegate X fuel (r_chan rm) CallMutOutPtr (fv f) [] (\<lambda>h. h) (read_response (ret_size R) (ret_dec R)) s"
  using assms
  by (simp_all add: remote_apply_def remote_apply_then_def remote_with_def remote_apply_with_def
      remote_apply_batch_mut_def remote_into_inner_def)

text \<open>A closure whose captures do not fit the slot makes the caller panic, and nothing has
  been published: at most bytes behind the flag word of its request slot have changed.\<close>

lemma apply_slot_overflow:
  assumes "wf_chan (chans s (r_chan rm))" "wf_fn (fv f)" "1152 < args_pos 48 (fv f) 0"
    and "unat (fn_align (fv f)) dvd 8" "\<not> on_owning_trustee th s" "\<not> caller_trustee th"
  shows "\<exists>m. remote_apply X fuel th rm R f s = (CallerPanics SlotOverflow,
       s\<lparr> chans := (chans s)(r_chan rm := (chans s (r_chan rm))\<lparr> request := m \<rparr>) \<rparr>) \<and>
     length m = length (request (chans s (r_chan rm))) \<and>
     load_flags m = load_flags (request (chans s (r_chan rm)))"
  using write_request_overflow[OF assms(1,2), of "[]"] assms(3-6)
    encode_leaves_memory[OF wf_request_writer[OF assms(1)] assms(2)]
  by (auto simp: remote_apply_def delegate_def)

text \<open>C28. A result type larger than the 1148 bytes behind the response's flag word is not
  refused: the write of the result goes out of the response slot, which is undefined
  behaviour.\<close>

theorem apply_oversized_result:
  assumes "seg_queue items (reg_push X) (reg_pop X)" "calm items s" "r_chan rm \<in> set (registered items s)"
    and "\<not> on_owning_trustee th s" "\<not> caller_trustee th" "fits (fv f) 0"
    and "vt_out X (fn_vtable (fv f)) = Some (VTABLE (fn_size (fv f)) (fn_align (fv f)) (apply_adapter R (body f)))"
    and "wf_ret R" "1148 < ret_size R" "call_fn f (prop_cell s) = (t, Some r)" "distance items s + 1 \<le> fuel"
  shows "fst (remote_apply X fuel th rm R f s) = UndefinedBehaviour OutOfBounds"
  using worker_queue.delegate_oversized[OF worker_queue.intro[OF assms(1)] assms(2,3,6-11)] assms(4,5)
  by (simp add: remote_apply_def)

theorem apply_oversized_result_witness:
  "fst (remote_apply branch_world 33 client_thread (fst demo) wide_ret wide_fn (snd demo)) = UndefinedBehaviour OutOfBounds"
  by (rule apply_oversized_result[OF branch_queue demo_calm demo_registered demo_not_owner])
    (use wide_ret_wf small_fits in \<open>simp_all add: wide_fn_def branch_world_def call_fn_def wide_body_def demo_distance\<close>)

text \<open>C29. Closures whose captures need more than eight bytes of alignment depend on the allocator: on a
  handle whose channel came to lie at an odd multiple of eight, applying such a closure is
  undefined behaviour, a store of the captures to a misaligned address, although they fit the slot.\<close>

theorem overaligned_captures_undefined:
  assumes "entrust_handle X b own s0 = (rm, s)" "odd (unat b div 8)"
    and "\<not> on_owning_trustee th s" "\<not> caller_trustee th"
    and "wf_fn (fv f)" "fn_size (fv f) \<noteq> 0" "8 < unat (fn_align (fv f))"
    and "env_pos 48 (fv f) + unat (fn_size (fv f)) \<le> 1152"
  shows "remote_apply X fuel th rm R f s = (UndefinedBehaviour Misaligned, s)"
proof -
  let ?c = "chans s (r_chan rm)" and ?a = "unat (fn_align (fv f))"
  have c: "?c = ChannelPair_default (arc_address b)"
    using assms(1) by (auto simp: entrust_handle_def new_chan_def register_def Let_def)
  have "wf_chan ?c" unfolding c by (rule wf_chan_default) simp
  note w = wf_request_writer[OF this]
  obtain k where k: "?a = 2 ^ k" using wf_fn_align_power[OF assms(5)] by blast
  have "(2 :: nat) ^ 3 < 2 ^ k" using assms(7) by (simp add: k)
  then have "3 < k" by (rule power_less_imp_less_exp[rotated]) simp
  then have "(2 :: nat) ^ 4 dvd 2 ^ k" by (intro le_imp_power_dvd) simp
  then have 16: "16 dvd ?a" by (simp add: k)
  have "unat (arc_address b) = 8 * (unat b div 8)" by (simp add: unat_arc_address)
  then have "\<not> 16 dvd unat (arc_address b)" using assms(2) by presburger
  then have "\<not> base_aligned (request_writer ?c) (fv f)"
    using 16 assms(6) dvd_trans[OF 16] by (auto simp: base_aligned_def c ChannelPair_default_def)
  then have "encode_closure (request_writer ?c) CallMutOutPtr (fv f) [] (request ?c) = UB Misaligned"
    using assms(8) \<open>wf_chan ?c\<close> by (intro encode_closure_misaligned[OF w assms(5)]) (simp_all add: wf_chan_def)
  then show ?thesis
    using assms(3,4) by (simp add: remote_apply_def delegate_def write_request_def)
qed

text \<open>A closure that captures a value aligned to sixteen bytes, as a vector type is.\<close>

definition vector_fn :: "(u64, u64) client_fn" where
  "vector_fn = \<lparr> fv = \<lparr> fn_size = 16, fn_align = 16, fn_env = replicate 16 0, fn_vtable = 0x8000 \<rparr>, body = panic_body \<rparr>"

theorem overaligned_captures_undefined_witness:
  "fst (remote_apply branch_world 40 client_thread (fst (remote_clone branch_world 0x10008 (fst demo) (snd demo))) u64_ret vector_fn
     (snd (remote_clone branch_world 0x10008 (fst demo) (snd demo)))) = UndefinedBehaviour Misaligned"
proof -
  obtain rm s where e: "remote_clone branch_world 0x10008 (fst demo) (snd demo) = (rm, s)" by force
  then have h: "entrust_handle branch_world 0x10008 (r_owner (fst demo)) (snd demo) = (rm, s)" by (simp add: remote_clone_def)
  then have "\<not> on_owning_trustee client_thread s"
    using demo_not_owner(1) by (auto simp: on_owning_trustee_def entrust_handle_def new_chan_def register_def Let_def)
  moreover have "valid_align 16" unfolding valid_align_def by (intro disjI2 exI[of _ 4]) simp
  ultimately have "remote_apply branch_world 40 client_thread rm u64_ret vector_fn s = (UndefinedBehaviour Misaligned, s)"
    by (intro overaligned_captures_undefined[OF h _ _ demo_not_owner(2)])
      (simp_all add: vector_fn_def wf_fn_def env_pos_def boundary_offset_def align_up_def)
  then show ?thesis by (simp add: e)
qed

text \<open>C26. A closure that panics on the trustee ends the worker: the caller never gets a reply,
  however long it waits, and the property is dropped with the worker.\<close>

theorem apply_panic_no_reply:
  assumes "seg_queue items (reg_push X) (reg_pop X)" "calm items s" "r_chan rm \<in> set (registered items s)"
    and "\<not> on_owning_trustee th s" "\<not> caller_trustee th" "fits (fv f) 0"
    and "vt_out X (fn_vtable (fv f)) = Some (VTABLE (fn_size (fv f)) (fn_align (fv f)) (apply_adapter R (body f)))"
    and "call_fn f (prop_cell s) = (t, None)" "distance items s + 1 \<le> fuel" "prop_arcs s = 1"
  shows "\<exists>s'. remote_apply X fuel th rm R f s = (NoReply, s') \<and> status s' = Unwound \<and>
     prop_drops s' = Suc (prop_drops s)"
  using worker_queue.delegate_panics[OF worker_queue.intro[OF assms(1)] assms(2,3,6-10)] assms(4,5)
  by (simp add: remote_apply_def)

theorem apply_panic_no_reply_witness:
  "\<exists>s'. remote_apply branch_world 1000 client_thread (fst demo) u64_ret panic_fn (snd demo) = (NoReply, s') \<and>
     status s' = Unwound \<and> prop_drops s' = 1"
proof -
  have vt: "vt_out branch_world (fn_vtable (fv panic_fn)) =
      Some (VTABLE (fn_size (fv panic_fn)) (fn_align (fv panic_fn)) (apply_adapter u64_ret (body panic_fn)))"
    by (simp add: panic_fn_def branch_world_def)
  have c: "call_fn panic_fn (prop_cell (snd demo)) = (6, None)" by (simp add: call_fn_def panic_fn_def panic_body_def)
  have f: "fits (fv panic_fn) 0" using small_fits by (simp add: panic_fn_def)
  from apply_panic_no_reply[OF branch_queue demo_calm demo_registered demo_not_owner f vt c _ demo_arcs(1), of 1000]
  show ?thesis by (simp add: demo_distance demo_arcs)
qed

text \<open>C25. Moving the value out: \<open>into_inner\<close> on an owned handle returns the property and ends the
  worker - but the worker also drops the property it has just moved out: one value, moved once
  and destroyed once.\<close>

theorem into_inner_moves_and_drops:
  assumes "seg_queue items (reg_push X) (reg_pop X)" "calm items s" "r_chan rm \<in> set (registered items s)"
    and "\<not> caller_trustee th" "r_owner rm"
    and "wf_ret T" "ret_size T \<le> 1148" "prop_bytes X (prop_cell s) = ret_enc T (prop_cell s)"
    and "distance items s + 2 \<le> fuel" "prop_arcs s = 1"
  shows "\<exists>s'. remote_into_inner X fuel th rm T vt s = (Returned (prop_cell s), s') \<and> status s' = Exited \<and>
     prop_moves s' = Suc (prop_moves s) \<and> prop_drops s' = Suc (prop_drops s)"
  using worker_queue.delegate_into_inner[OF worker_queue.intro[OF assms(1)] assms(2,3) _ assms(6-10)]
    small_fits assms(4,5)
  by (fastforce simp: remote_into_inner_def into_inner_fn_def)

theorem into_inner_moves_and_drops_witness:
  "\<exists>s'. remote_into_inner demo_world 34 client_thread (fst demo) u64_ret 0x4000 (snd demo) = (Returned 5, s') \<and>
     prop_moves s' = 1 \<and> prop_drops s' = 1"
proof -
  have p: "prop_bytes demo_world (prop_cell (snd demo)) = ret_enc u64_ret (prop_cell (snd demo))"
    by (simp add: demo_world_def u64_ret_def del: le_bytes.simps)
  from into_inner_moves_and_drops[where fuel = 34 and vt = "0x4000",
      OF demo_queue demo_calm demo_registered demo_not_owner(2) _ u64_ret_wf(1) _ p _ demo_arcs(1)]
  show ?thesis by (auto simp: demo_distance demo_arcs)
qed

end
