(* ===== verification/Remote_Launch.thy ===== *)
theory Remote_Launch
  imports Remote_Guards
begin

text \<open>
  Launched closures: the worker hands the job to a pooled or a new fiber and goes on; the fiber
  runs the closure on the captures still in the request slot and answers the client itself.
\<close>

section \<open>Handing over a job\<close>

text \<open>The pool holds fibers that exist.\<close>

definition pool_ok :: "('p \<Rightarrow> nat list) \<Rightarrow> ('t, 'q, 'p) rt \<Rightarrow> bool" where
  "pool_ok pitems s \<longleftrightarrow> (\<forall>f \<in> set (pitems (fiber_pool s)). f < n_fibers s)"

text \<open>The search for a fiber ends, and the job is in the inbox of one fiber that has not
  ended.\<close>

definition handed_over :: "Job \<Rightarrow> nat \<Rightarrow> ('t, 'q, 'p) rt \<Rightarrow> ('t, 'q, 'p) rt \<Rightarrow> bool" where
  "handed_over job tx s s' \<longleftrightarrow>
     tx < n_fibers s' \<and> \<not> exited (fibers s' tx) \<and>
     (\<forall>f. f \<noteq> tx \<longrightarrow> fibers s' f = fibers s f) \<and>
     (inbox (fibers s' tx) = inbox (fibers s tx) @ [job] \<or> tx = n_fibers s \<and> inbox (fibers s' tx) = [job]) \<and>
     clients s' = clients s \<and> reg s' = reg s \<and> chans s' = chans s \<and> prop_cell s' = prop_cell s \<and>
     n_chans s' = n_chans s \<and> status s' = status s \<and> prop_arcs s' = prop_arcs s \<and> prop_drops s' = prop_drops s \<and>
     prop_moves s' = prop_moves s \<and> trustee_id s' = trustee_id s \<and> trustee_prop s' = trustee_prop s"

lemma dispatch_job_delivers:
  assumes q: "seg_queue pitems (pool_push X) (pool_pop X)"
  shows "pool_ok pitems s \<Longrightarrow> \<exists>s' tx. dispatch_job X job s = Some s' \<and> handed_over job tx s s' \<and> pool_ok pitems s'"
proof (induction "length (pitems (fiber_pool s))" arbitrary: s rule: less_induct)
  case less
  show ?case
  proof (cases "pool_pop X (fiber_pool s)")
    case None
    then have e: "pitems (fiber_pool s) = []" by (rule seg_queue.pop_None[OF q])
    have "dispatch_job X job s = Some (spawn_fiber job s)"
      using None by (subst dispatch_job.simps) simp
    moreover have "handed_over job (n_fibers s) s (spawn_fiber job s)"
      by (simp add: handed_over_def spawn_fiber_def)
    moreover have "pool_ok pitems (spawn_fiber job s)" using e by (simp add: pool_ok_def spawn_fiber_def)
    ultimately show ?thesis by blast
  next
    case (Some a)
    obtain tx p where a: "a = (tx, p)" by force
    have it: "pitems (fiber_pool s) = tx # pitems p" using seg_queue.pop_Some[OF q] Some a by blast
    let ?t = "s\<lparr> fiber_pool := p \<rparr>"
    have ok: "pool_ok pitems ?t" "tx < n_fibers s" using less.prems it by (simp_all add: pool_ok_def)
    show ?thesis
    proof (cases "exited (fibers s tx)")
      case True
      then have d: "dispatch_job X job s = dispatch_job X job ?t"
        using Some a by (subst dispatch_job.simps) (simp add: send_job_def)
      obtain s' tx' where "dispatch_job X job ?t = Some s'" "handed_over job tx' ?t s'" "pool_ok pitems s'"
        using less.hyps[of ?t] it ok(1) by auto
      then show ?thesis using d by (auto simp: handed_over_def)
    next
      case False
      let ?u = "?t\<lparr> fibers := (fibers s)(tx := inbox_push job (fibers s tx)) \<rparr>"
      have "dispatch_job X job s = Some ?u"
        using Some a False by (subst dispatch_job.simps) (simp add: send_job_def)
      moreover have "handed_over job tx s ?u"
        using ok(2) False by (simp add: handed_over_def inbox_push_def)
      moreover have "pool_ok pitems ?u" using ok(1) by (simp add: pool_ok_def)
      ultimately show ?thesis by blast
    qed
  qed
qed

section \<open>Running it\<close>

lemma fibers_turn_append:
  "fibers_turn X (fs @ gs) s = (case fibers_turn X fs s of Inl u \<Rightarrow> Inl u | Inr s' \<Rightarrow> fibers_turn X gs s')"
  by (induction fs arbitrary: s) (auto split: sum.splits)

lemma fibers_turn_one:
  assumes tx: "tx < n" and other: "\<forall>f. f \<noteq> tx \<longrightarrow> inbox (fibers s f) = []"
    and turn: "fiber_turn X tx s = Inr s'" and idle: "\<forall>f. inbox (fibers s' f) = []"
  shows "fibers_turn X [0..<n] s = Inr s'"
proof -
  have split: "[0..<n] = [0..<tx] @ tx # [Suc tx..<n]"
    using tx upt_add_eq_append[of 0 tx "n - tx"] upt_conv_Cons[of tx n] by simp
  have "fibers_turn X [0..<tx] s = Inr s" by (rule fibers_turn_idle) (use other in auto)
  moreover have "fibers_turn X [Suc tx..<n] s' = Inr s'" by (rule fibers_turn_idle) (use idle in auto)
  ultimately show ?thesis unfolding split fibers_turn_append using turn by simp
qed

lemma run_launch_job_returns:
  assumes ro: "request_of c Launch (fv f) [] (\<lambda>h. h) b c2" and fit: "fits (fv f) 0"
    and vt: "vt_out X (fn_vtable (fv f)) = Some (VTABLE (fn_size (fv f)) (fn_align (fv f)) (apply_adapter R (body f)))"
    and R: "codes R r" "ret_size R \<le> 1148" and call: "call_fn f (prop_cell s) = (t, Some r)"
    and s: "chans s i = c2"
    and job: "job = \<lparr> job_chan = i, job_hdr = encoded_header (request_writer c) Launch (fv f) 0, job_req_ready = b \<rparr>"
  shows "run_launch_job X job s =
    Inr (drop_prop_arc (s\<lparr> prop_cell := t, chans := (chans s)(i := answered b (after_result R (resp_data c) r) c2) \<rparr>), False)"
proof -
  have c2: "wf_chan c2" "resp_data c2 = resp_data c" using ro by (simp_all add: request_of_def resp_data_def)
  have "decode_and_call (vt_out X) (request_base c2) (request c2)
      (encoded_header (request_writer c) Launch (fv f) 0) (prop_cell s, resp_data c)
      = Ok (t, after_result R (resp_data c) r, False)"
    using request_of_calls[where vtables = "vt_out X" and code = "apply_adapter R (body f)", OF ro _ vt] fit
      finish_adapter_Some[OF R(1), of "resp_data c"] R(2) length_resp_data[OF c2(1)] c2(2) call
    by (simp add: apply_adapter_def call_fn_def)
  then show ?thesis
    using s c2 by (simp add: run_launch_job_def job Let_def upd_chan_def answered_def)
qed

section \<open>A launched call\<close>

lemma cleared_all:
  "list_all2 cleared xs ys \<Longrightarrow>
   \<forall>cp \<in> set xs. pending_launch cp \<longrightarrow> launch_req_ready cp = P (cp_chan cp) \<Longrightarrow>
   \<forall>cp \<in> set ys. pending_launch cp \<longrightarrow> launch_req_ready cp = P (cp_chan cp)"
  by (induction rule: list_all2_induct) (auto simp: cleared_def)

lemma cleared_chans: "list_all2 cleared xs ys \<Longrightarrow> map cp_chan ys = map cp_chan xs"
  by (induction rule: list_all2_induct) (auto simp: cleared_def)

text \<open>Resting depends on channels, registrations and fibers only.\<close>

lemma resting_transfer:
  assumes r: "resting items A s" and c: "list_all2 cleared (clients s @ items (reg s)) (clients s' @ items (reg s'))"
    and eq: "chans s' = chans s" "n_chans s' = n_chans s" "status s' = status s"
    and idle: "\<forall>f. inbox (fibers s' f) = []" and wf: "wf_loop s'"
  shows "resting items A s'"
proof -
  have "registered items s' = registered items s" unfolding registered_def by (rule cleared_chans[OF c])
  moreover have "quiet items s'"
    using cleared_all[OF c, of "\<lambda>ch. ready (load_flags (response (chans s ch)))"] r eq(1)
    by (simp add: quiet_def resting_def)
  ultimately show ?thesis using r eq idle wf by (simp add: resting_def)
qed

text \<open>The fiber's turn on the job it was handed.\<close>

lemma fiber_turn_launch:
  assumes box: "inbox (fibers s tx) = [Execute job]" "\<not> exited (fibers s tx)"
    and run: "run_launch_job X job (upd_fiber tx (\<lambda>f. f\<lparr> inbox := [] \<rparr>) s) = Inr (s', False)"
  shows "fiber_turn X tx s = Inr (s'\<lparr> fiber_pool := pool_push X tx (fiber_pool s') \<rparr>)"
proof -
  have p: "inbox_pop (fibers s tx) = Some (Execute job, (fibers s tx)\<lparr> inbox := [] \<rparr>)"
    using box(1) by (simp add: inbox_pop_def)
  have "upd_fiber tx (\<lambda>_. (fibers s tx)\<lparr> inbox := [] \<rparr>) s = upd_fiber tx (\<lambda>f. f\<lparr> inbox := [] \<rparr>) s"
    by (simp add: upd_fiber_def)
  then show ?thesis using p box(2) run by (simp add: fiber_turn_def)
qed

text \<open>The state a launched call leaves: the serving round's bookkeeping, the fiber's answer, the
  fiber back in the pool.\<close>

definition launch_end ::
    "('t, 'q, 'p) world \<Rightarrow> nat \<Rightarrow> nat \<Rightarrow> 't \<Rightarrow> ChannelPair \<Rightarrow> ('t, 'q, 'p) rt \<Rightarrow> ('t, 'q, 'p) rt" where
  "launch_end X tx i t c s =
     (let s1 = upd_fiber tx (\<lambda>f. f\<lparr> inbox := [] \<rparr>) s;
          s2 = drop_prop_arc (s1\<lparr> prop_cell := t, chans := (chans s1)(i := c) \<rparr>)
      in s2\<lparr> fiber_pool := pool_push X tx (fiber_pool s2) \<rparr>)"

lemma launch_end_simps [simp]:
  "chans (launch_end X tx i t c s) = (chans s)(i := c)" "prop_cell (launch_end X tx i t c s) = t"
  "clients (launch_end X tx i t c s) = clients s" "reg (launch_end X tx i t c s) = reg s"
  "n_chans (launch_end X tx i t c s) = n_chans s" "status (launch_end X tx i t c s) = status s"
  "start_idx (launch_end X tx i t c s) = start_idx s" "idle_rounds (launch_end X tx i t c s) = idle_rounds s"
  "fibers (launch_end X tx i t c s) = (fibers s)(tx := (fibers s tx)\<lparr> inbox := [] \<rparr>)"
  "n_fibers (launch_end X tx i t c s) = n_fibers s"
  "fiber_pool (launch_end X tx i t c s) = pool_push X tx (fiber_pool s)"
  "prop_arcs (launch_end X tx i t c s) = prop_arcs s - 1"
  "prop_moves (launch_end X tx i t c s) = prop_moves s"
  "trustee_id (launch_end X tx i t c s) = trustee_id s" "trustee_prop (launch_end X tx i t c s) = trustee_prop s"
  by (simp_all add: launch_end_def Let_def drop_prop_arc_def upd_fiber_def)

lemma launch_end_drops: "prop_arcs s \<noteq> 1 \<Longrightarrow> prop_drops (launch_end X tx i t c s) = prop_drops s"
  by (simp add: launch_end_def Let_def drop_prop_arc_def upd_fiber_def)

text \<open>The state at the end of the round that has handed a launch over: the client is marked, one
  more reference to the property exists, and the job waits in one fiber.\<close>

definition marked :: "bool \<Rightarrow> ClientPair \<Rightarrow> ClientPair" where
  "marked b cp = cp\<lparr> pending_launch := True, launch_req_ready := b \<rparr>"

definition launching ::
    "('q \<Rightarrow> ClientPair list) \<Rightarrow> nat \<Rightarrow> bool \<Rightarrow> launch_job \<Rightarrow> nat \<Rightarrow> ('t, 'q, 'p) rt \<Rightarrow> ('t, 'q, 'p) rt \<Rightarrow> bool" where
  "launching items idx b job tx s w \<longleftrightarrow>
     list_all2 cleared ((clients s)[idx := marked b (clients s ! idx)] @ items (reg s)) (clients w @ items (reg w)) \<and>
     wf_loop w \<and> tx < n_fibers w \<and> \<not> exited (fibers w tx) \<and> inbox (fibers w tx) = [Execute job] \<and>
     (\<forall>g. g \<noteq> tx \<longrightarrow> inbox (fibers w g) = []) \<and>
     chans w = chans s \<and> prop_cell w = prop_cell s \<and> n_chans w = n_chans s \<and> status w = status s \<and>
     prop_arcs w = Suc (prop_arcs s) \<and> prop_drops w = prop_drops s \<and> prop_moves w = prop_moves s \<and>
     trustee_id w = trustee_id s \<and> trustee_prop w = trustee_prop s"

lemma wf_loop_round_tail:
  assumes "n = length (clients s)" "0 < n"
  shows "wf_loop ((skip_clients js (s\<lparr> start_idx := k mod n \<rparr>))\<lparr> idle_rounds := 0 \<rparr>)"
proof -
  have "k mod n < n" by (rule mod_less_divisor[OF assms(2)])
  then show ?thesis using assms(1) by (auto simp: wf_loop_def)
qed

locale launch_queues = worker_queue items X + pool: seg_queue pitems "pool_push X" "pool_pop X"
  for items :: "'q \<Rightarrow> ClientPair list" and X :: "('t, 'q, 'p) world" and pitems :: "'p \<Rightarrow> nat list"
begin

lemma launch_handed_over:
  assumes idle: "\<forall>g. inbox (fibers s g) = []" and idx: "idx < length (clients s)" "n = length (clients s)"
    and js: "\<forall>j \<in> set js. j < n" and pool: "pool_ok pitems s" and p: "property_ptr hdr = Launch"
  obtains w tx where
    "round_end i b idx n js (dispatch_record X idx i b hdr s) = Next w"
    "launching items idx b \<lparr> job_chan = i, job_hdr = hdr, job_req_ready = b \<rparr> tx s w" "pool_ok pitems w"
proof -
  let ?job = "\<lparr> job_chan = i, job_hdr = hdr, job_req_ready = b \<rparr>"
  let ?u = "clone_prop_arc (upd_client idx (\<lambda>cp. cp\<lparr> pending_launch := True, launch_req_ready := b \<rparr>) s)"
  have u: "clients ?u = (clients s)[idx := marked b (clients s ! idx)]" "reg ?u = reg s" "chans ?u = chans s"
    "prop_cell ?u = prop_cell s" "n_chans ?u = n_chans s" "status ?u = status s" "fibers ?u = fibers s"
    "n_fibers ?u = n_fibers s" "prop_arcs ?u = Suc (prop_arcs s)" "prop_drops ?u = prop_drops s"
    "prop_moves ?u = prop_moves s" "trustee_id ?u = trustee_id s" "trustee_prop ?u = trustee_prop s"
    by (simp_all add: clone_prop_arc_def upd_client_def marked_def)
  have "pool_ok pitems ?u" using pool by (simp add: pool_ok_def clone_prop_arc_def upd_client_def)
  then obtain s3 tx where s3: "dispatch_job X (Execute ?job) ?u = Some s3" and ho: "handed_over (Execute ?job) tx ?u s3"
      and p3: "pool_ok pitems s3"
    using dispatch_job_delivers[OF pool.seg_queue_axioms] by blast
  let ?v = "s3\<lparr> start_idx := (idx + 1) mod n \<rparr>"
  let ?w = "(skip_clients js ?v)\<lparr> idle_rounds := 0 \<rparr>"
  have re: "round_end i b idx n js (dispatch_record X idx i b hdr s) = Next ?w"
    using s3 p by (simp add: dispatch_record_def serve_Launch_def Let_def round_end_def finish_request_def)
  have n0: "0 < n" using idx by linarith
  have nv: "n = length (clients s3)" using idx(2) ho u(1) by (simp add: handed_over_def)
  have tv: "tidied items ?v ?w"
    by (rule tidied_trans[OF tidied_skip_clients tidied_upd(2)]) (use js nv in simp)
  note w = moved_simps[OF conjunct1[OF tv[unfolded tidied_def]]]
  have la: "launching items idx b ?job tx s ?w"
    using ho w u tv idle wf_loop_round_tail[OF nv n0, of js "idx + 1"]
    by (auto simp: launching_def handed_over_def tidied_def)
  have "pool_ok pitems ?w" using p3 w(3,5) by (simp add: pool_ok_def)
  then show ?thesis using that re la by blast
qed

lemma launch_round:
  assumes r0: "resting items {i} s" and idx: "idx < length (clients s)" "cp_chan (clients s ! idx) = i"
    and la: "launching items idx b \<lparr> job_chan = i, job_hdr = encoded_header (request_writer c) Launch (fv f) 0, job_req_ready = b \<rparr> tx s w"
    and pool: "pool_ok pitems w" and arcs: "1 \<le> prop_arcs s"
    and ro: "request_of c Launch (fv f) [] (\<lambda>h. h) b c2" and ch: "chans s i = c2" and fit: "fits (fv f) 0"
    and vt: "vt_out X (fn_vtable (fv f)) = Some (VTABLE (fn_size (fv f)) (fn_align (fv f)) (apply_adapter R (body f)))"
    and R: "codes R r" "ret_size R \<le> 1148" and call: "call_fn f (prop_cell s) = (t, Some r)"
    and d: "d = after_result R (resp_data c) r"
  defines "s' \<equiv> launch_end X tx i t (answered b d c2) w"
  shows "after_round X (Next w) = Next s'" and "resting items {} s'" and "pool_ok pitems s'"
    and "registered items s' = registered items s"
proof -
  let ?c = "answered b d c2"
  let ?job = "\<lparr> job_chan = i, job_hdr = encoded_header (request_writer c) Launch (fv f) 0, job_req_ready = b \<rparr>"
  let ?v = "upd_fiber tx (\<lambda>g. g\<lparr> inbox := [] \<rparr>) w"
  let ?t = "s\<lparr> prop_cell := t, clients := (clients s)[idx := marked b (clients s ! idx)], chans := (chans s)(i := ?c) \<rparr>"
  have c2: "wf_chan c2" "idle_chan ?c" "resp_data c = resp_data c2"
    using ro by (simp_all add: request_of_def idle_chan_def posted_def load_store_flags resp_data_def)
  have ld: "length d = 1148" using length_after_result[OF R(1)] length_resp_data[OF c2(1)] R(2) c2(3) d by simp
  have "run_launch_job X ?job ?v = Inr (drop_prop_arc (?v\<lparr> prop_cell := t, chans := (chans ?v)(i := ?c) \<rparr>), False)"
    unfolding d by (rule run_launch_job_returns[OF ro fit vt R(1) R(2) _ _ refl])
      (use la call ch in \<open>simp_all add: upd_fiber_def launching_def\<close>)
  from fiber_turn_launch[OF _ _ this] la have turn: "fiber_turn X tx w = Inr s'"
    by (simp add: launch_end_def Let_def launching_def s'_def)
  have idle: "\<forall>g. inbox (fibers s' g) = []" using la by (simp add: launching_def s'_def)
  have "tx < n_fibers w" "\<forall>g. g \<noteq> tx \<longrightarrow> inbox (fibers w g) = []" using la by (simp_all add: launching_def)
  from fibers_turn_one[OF this turn idle] show "after_round X (Next w) = Next s'" by (simp add: after_round_def)
  have rv: "resting items {} ?t"
    by (rule answered_resting[OF r0 idx _ _ answered_wf[OF c2(1) ld] c2(2)])
      (use idx in \<open>simp_all add: load_store_flags marked_def\<close>)
  have cl: "list_all2 cleared (clients ?t @ items (reg ?t)) (clients s' @ items (reg s'))"
    using la by (simp add: launching_def s'_def)
  show "resting items {} s'"
    by (rule resting_transfer[OF rv cl]) (use la idle in \<open>simp_all add: launching_def s'_def wf_loop_def\<close>)
  have "registered items s' = registered items ?t" unfolding registered_def by (rule cleared_chans[OF cl])
  then show "registered items s' = registered items s"
    using idx by (simp add: registered_def map_update list_update_same_conv marked_def)
  show "pool_ok pitems s'" using pool la pool.items_push by (auto simp: pool_ok_def launching_def s'_def)
qed

lemma delegate_launch:
  assumes c: "calm items s" "i \<in> set (registered items s)" "pool_ok pitems s" "1 \<le> prop_arcs s" and f: "fits (fv f) 0"
    and R: "codes R r" "ret_size R \<le> 1148"
    and vt: "vt_out X (fn_vtable (fv f)) = Some (VTABLE (fn_size (fv f)) (fn_align (fv f)) (apply_adapter R (body f)))"
    and call: "call_fn f (prop_cell s) = (t, Some r)" and fuel: "distance items s + 2 \<le> fuel"
  shows "\<exists>s'. delegate X fuel i Launch (fv f) [] (\<lambda>h. h) (read_response (ret_size R) (ret_dec R)) s = (Returned r, s') \<and>
    prop_cell s' = t \<and> calm items s' \<and> pool_ok pitems s' \<and> op_frame items i s s' \<and>
    (\<exists>tx < n_fibers s'. \<not> exited (fibers s' tx))"
proof -
  let ?b = "\<not> ready (load_flags (response (chans s i)))" and ?d = "after_result R (resp_data (chans s i)) r"
  let ?hdr = "encoded_header (request_writer (chans s i)) Launch (fv f) (length ([] :: u8 list))"
  let ?read = "read_response (ret_size R) (ret_dec R)"
  have fit: "fits (fv f) (length [])" using f by simp
  obtain c2 k w1 s1 idx n js s0 where
    ro: "request_of (chans s i) Launch (fv f) [] (\<lambda>h. h) ?b c2" and k: "k \<le> distance items s"
    and idx: "idx < length (clients s0)" "n = length (clients s0)" "cp_chan (clients s0 ! idx) = i"
    and t0: "tidied items (s\<lparr> chans := (chans s)(i := c2) \<rparr>) s0"
    and r0: "resting items {i} s0" and js: "\<forall>j \<in> set js. j < n"
    and del: "\<forall>fuel. delegate X (k + Suc fuel) i Launch (fv f) [] (\<lambda>h. h) ?read s =
       deliver i ?read (s\<lparr> chans := (chans s)(i := c2) \<rparr>)
         (await_step X fuel w1 i ?b s1 (after_round X (round_end i ?b idx n js (dispatch_record X idx i ?b ?hdr s0))))"
    by (rule delegate_reaches[where fix_hdr = "\<lambda>h. h" and args = "[]" and read = ?read, OF c(1,2) fit refl refl])
  have m0: "moved (s\<lparr> chans := (chans s)(i := c2) \<rparr>) s0" using t0 by (simp add: tidied_def)
  note m = moved_simps[OF m0]
  have idle0: "\<forall>g. inbox (fibers s0 g) = []" using r0 by (simp add: resting_def)
  have pk0: "pool_ok pitems s0" using c(3) m by (simp add: pool_ok_def)
  have hp: "property_ptr ?hdr = Launch" by (simp add: encoded_header_def)
  obtain w tx where re: "round_end i ?b idx n js (dispatch_record X idx i ?b ?hdr s0) = Next w"
    and la: "launching items idx ?b \<lparr> job_chan = i, job_hdr = ?hdr, job_req_ready = ?b \<rparr> tx s0 w" and pk: "pool_ok pitems w"
    by (rule launch_handed_over[OF idle0 idx(1,2) js pk0 hp])
  let ?s' = "launch_end X tx i t (answered ?b ?d c2) w"
  have s0: "1 \<le> prop_arcs s0" "chans s0 i = c2" "call_fn f (prop_cell s0) = (t, Some r)" using m c(4) call by simp_all
  note e = launch_round[OF r0 idx(1,3) la[unfolded list.size] pk s0(1) ro s0(2) f vt R s0(3) refl]
  obtain fl where fl: "fuel = k + Suc (Suc fl)" using fuel k le_Suc_ex[of "k + 2" fuel] by auto
  have "response_ready ?b (chans ?s' i)" by (simp add: response_ready_def load_store_flags)
  then have dl: "delegate X fuel i Launch (fv f) [] (\<lambda>h. h) ?read s = (Returned r, ?s')"
    unfolding fl del[rule_format] re await_step_def using e(1) read_after_call[OF ro R(1) R(2) refl] by simp
  have "op_frame items i s ?s'"
    using e(4) la m c(4) launch_end_drops[of w] tidied_registered[OF t0]
    by (simp add: op_frame_def launching_def registered_def)
  moreover have "tx < n_fibers ?s'" "\<not> exited (fibers ?s' tx)" using la by (simp_all add: launching_def)
  ultimately show ?thesis using dl e(2,3) by (auto simp: calm_def)
qed

end

section \<open>A launched call that panics\<close>

lemma run_launch_job_panics:
  assumes ro: "request_of c Launch (fv f) [] (\<lambda>h. h) b c2" and fit: "fits (fv f) 0"
    and vt: "vt_out X (fn_vtable (fv f)) = Some (VTABLE (fn_size (fv f)) (fn_align (fv f)) (apply_adapter R (body f)))"
    and call: "call_fn f (prop_cell s) = (t, None)" and s: "chans s i = c2"
    and job: "job = \<lparr> job_chan = i, job_hdr = encoded_header (request_writer c) Launch (fv f) 0, job_req_ready = b \<rparr>"
  shows "run_launch_job X job s =
    Inr (drop_prop_arc (s\<lparr> prop_cell := t, chans := (chans s)(i := answered b (resp_data c2) c2) \<rparr>), True)"
proof -
  have "decode_and_call (vt_out X) (request_base c2) (request c2)
      (encoded_header (request_writer c) Launch (fv f) 0) (prop_cell s, resp_data c2) = Ok (t, resp_data c2, True)"
    using request_of_calls[where vtables = "vt_out X" and code = "apply_adapter R (body f)", OF ro _ vt] fit call
    by (simp add: apply_adapter_def call_fn_def finish_adapter_def)
  then show ?thesis using s by (simp add: run_launch_job_def job Let_def upd_chan_def answered_def)
qed

lemma read_response_answered:
  assumes "wf_chan c" "n \<le> 1148"
  shows "read_response n dec (answered b (resp_data c) c) = read_response n dec c"
proof -
  have "read_at 4 n (response (answered b (resp_data c) c)) = read_at 4 n (response c)"
    using assms by (simp add: wf_chan_def resp_data_def read_at_store_flags)
  then show ?thesis by (simp add: read_response_def read_unaligned_def)
qed

context launch_queues
begin

lemma delegate_launch_panics:
  assumes c: "calm items s" "i \<in> set (registered items s)" "pool_ok pitems s" and f: "fits (fv f) 0" and R: "ret_size R \<le> 1148"
    and vt: "vt_out X (fn_vtable (fv f)) = Some (VTABLE (fn_size (fv f)) (fn_align (fv f)) (apply_adapter R (body f)))"
    and call: "call_fn f (prop_cell s) = (t, None)" and fuel: "distance items s + 2 \<le> fuel"
  shows "\<exists>s'. delegate X fuel i Launch (fv f) [] (\<lambda>h. h) (read_response (ret_size R) (ret_dec R)) s =
      (reply_of (read_response (ret_size R) (ret_dec R) (chans s i)), s') \<and> prop_cell s' = t \<and> status s' = Running"
proof -
  let ?b = "\<not> ready (load_flags (response (chans s i)))"
  let ?hdr = "encoded_header (request_writer (chans s i)) Launch (fv f) (length ([] :: u8 list))"
  let ?read = "read_response (ret_size R) (ret_dec R)"
  have fit: "fits (fv f) (length [])" using f by simp
  obtain c2 k w1 s1 idx n js s0 where
    ro: "request_of (chans s i) Launch (fv f) [] (\<lambda>h. h) ?b c2" and k: "k \<le> distance items s"
    and idx: "idx < length (clients s0)" "n = length (clients s0)"
    and t0: "tidied items (s\<lparr> chans := (chans s)(i := c2) \<rparr>) s0"
    and r0: "resting items {i} s0" and js: "\<forall>j \<in> set js. j < n"
    and del: "\<forall>fuel. delegate X (k + Suc fuel) i Launch (fv f) [] (\<lambda>h. h) ?read s =
       deliver i ?read (s\<lparr> chans := (chans s)(i := c2) \<rparr>)
         (await_step X fuel w1 i ?b s1 (after_round X (round_end i ?b idx n js (dispatch_record X idx i ?b ?hdr s0))))"
    by (rule delegate_reaches[where fix_hdr = "\<lambda>h. h" and args = "[]" and read = ?read, OF c(1,2) fit refl refl])
  have m0: "moved (s\<lparr> chans := (chans s)(i := c2) \<rparr>) s0" using t0 by (simp add: tidied_def)
  note m = moved_simps[OF m0]
  have idle0: "\<forall>g. inbox (fibers s0 g) = []" "status s0 = Running" using r0 by (simp_all add: resting_def)
  have pk0: "pool_ok pitems s0" using c(3) m by (simp add: pool_ok_def)
  have hp: "property_ptr ?hdr = Launch" by (simp add: encoded_header_def)
  obtain w tx where re: "round_end i ?b idx n js (dispatch_record X idx i ?b ?hdr s0) = Next w"
    and la: "launching items idx ?b \<lparr> job_chan = i, job_hdr = ?hdr, job_req_ready = ?b \<rparr> tx s0 w"
    by (rule launch_handed_over[OF idle0(1) idx(1,2) js pk0 hp])
  let ?v = "upd_fiber tx (\<lambda>g. g\<lparr> inbox := [] \<rparr>) w" and ?c = "answered ?b (resp_data c2) c2"
  let ?u = "drop_prop_arc (?v\<lparr> prop_cell := t, chans := (chans ?v)(i := ?c) \<rparr>)"
  let ?s' = "upd_fiber tx (\<lambda>g. g\<lparr> exited := True \<rparr>) ?u"
  have run: "run_launch_job X \<lparr> job_chan = i, job_hdr = ?hdr, job_req_ready = ?b \<rparr> ?v = Inr (?u, True)"
    by (rule run_launch_job_panics[OF ro f vt]) (use la m call in \<open>simp_all add: upd_fiber_def launching_def\<close>)
  have turn: "fiber_turn X tx w = Inr ?s'"
    using run la by (simp add: fiber_turn_def launching_def inbox_pop_def upd_fiber_def)
  have u: "chans ?s' i = ?c" "prop_cell ?s' = t" "status ?s' = Running"
    using la idle0(2) by (simp_all add: upd_fiber_def drop_prop_arc_def Let_def launching_def)
  have idle: "\<forall>g. inbox (fibers ?s' g) = []" "tx < n_fibers w" "\<forall>g. g \<noteq> tx \<longrightarrow> inbox (fibers w g) = []"
    using la by (simp_all add: upd_fiber_def drop_prop_arc_def Let_def launching_def)
  have ar: "after_round X (Next w) = Next ?s'" using fibers_turn_one[OF idle(2,3) turn idle(1)] by (simp add: after_round_def)
  obtain fl where fl: "fuel = k + Suc (Suc fl)" using fuel k le_Suc_ex[of "k + 2" fuel] by auto
  have c2: "wf_chan c2" "response c2 = response (chans s i)" using ro by (simp_all add: request_of_def)
  have rr: "?read (chans ?s' i) = ?read (chans s i)"
    unfolding u(1) read_response_answered[OF c2(1) R] by (simp add: read_response_def c2(2))
  have "response_ready ?b (chans ?s' i)" unfolding u(1) by (simp add: response_ready_def load_store_flags)
  then have "delegate X fuel i Launch (fv f) [] (\<lambda>h. h) ?read s = (reply_of (?read (chans s i)), ?s')"
    unfolding fl del[rule_format] re ar await_step_def using rr by simp
  then show ?thesis using u by blast
qed

end

section \<open>Properties\<close>

interpretation demo_launch: launch_queues "\<lambda>q. q" demo_world "\<lambda>p. p"
  by (intro launch_queues.intro demo_system.worker_queue_axioms)
    (use list_queue.seg_queue_axioms in \<open>simp add: demo_world_def\<close>)

text \<open>The search for a fiber to run a launched job ends, whatever dead fibers the pool holds,
  and delivers the job exactly once: one fiber that has not ended gets it at the end of its
  inbox, no other fiber's inbox changes, and everything but fibers and pool stays.\<close>

lemma dispatch_job_once:
  assumes "seg_queue pitems (pool_push X) (pool_pop X)" "pool_ok pitems s"
  shows "\<exists>s' tx. dispatch_job X job s = Some s' \<and> handed_over job tx s s' \<and> pool_ok pitems s'"
  by (rule dispatch_job_delivers[OF assms])

text \<open>C2. A launch is transparent too: in a calm system the closure, run by a pooled fiber on the
  captures in the request slot while the worker has gone on, answers the caller with its
  result; the reference to the property taken for the fiber is given back, the fiber returns to
  the pool, and the system is calm again.\<close>

theorem remote_launch_correct:
  assumes "seg_queue items (reg_push X) (reg_pop X)" "seg_queue pitems (pool_push X) (pool_pop X)"
    and "calm items s" "r_chan rm \<in> set (registered items s)" "pool_ok pitems s" "1 \<le> prop_arcs s"
    and "fits (fv f) 0" "codes R r" "ret_size R \<le> 1148"
    and "vt_out X (fn_vtable (fv f)) = Some (VTABLE (fn_size (fv f)) (fn_align (fv f)) (apply_adapter R (body f)))"
    and "call_fn f (prop_cell s) = (t, Some r)" "distance items s + 2 \<le> fuel"
  shows "\<exists>s'. remote_launch X fuel rm R f s = (Returned r, s') \<and> prop_cell s' = t \<and>
     calm items s' \<and> pool_ok pitems s' \<and> op_frame items (r_chan rm) s s'"
  unfolding remote_launch_def
  using launch_queues.delegate_launch[OF launch_queues.intro[OF worker_queue.intro[OF assms(1)] assms(2)] assms(3-12)]
  by blast

theorem remote_launch_correct_witness:
  "\<exists>s'. remote_launch demo_world 34 (fst demo) u64_ret (add_fn 0) (snd demo) = (Returned 5, s') \<and>
     prop_cell s' = 5 \<and> calm (\<lambda>q. q) s'"
proof -
  have vt: "vt_out demo_world (fn_vtable (fv (add_fn 0))) =
      Some (VTABLE (fn_size (fv (add_fn 0))) (fn_align (fv (add_fn 0))) (apply_adapter u64_ret (body (add_fn 0))))"
    by (simp add: demo_world_def add_fn_def)
  have c: "call_fn (add_fn 0) (prop_cell (snd demo)) = (5, Some 5)"
    by (simp add: call_fn_def add_fn_def add_body_def del: le_bytes.simps)
  have s: "pool_ok (\<lambda>p. p) (snd demo)" "1 \<le> prop_arcs (snd demo)" "r_chan (fst demo) \<in> set (registered (\<lambda>q. q) (snd demo))"
    by (simp_all add: pool_ok_def demo_def remote_entrust_def spawn_with_pin_def entrust_handle_def new_chan_def
        worker_start_def register_def registered_def demo_world_def list_push_def new_client_pair_def)
  have "\<exists>s'. remote_launch demo_world 34 (fst demo) u64_ret (add_fn 0) (snd demo) = (Returned 5, s') \<and>
     prop_cell s' = 5 \<and> calm (\<lambda>q. q) s' \<and> pool_ok (\<lambda>p. p) s' \<and> op_frame (\<lambda>q. q) (r_chan (fst demo)) (snd demo) s'"
    by (rule remote_launch_correct[OF demo_queue demo_launch.pool.seg_queue_axioms demo_calm s(3,1,2) demo_fits(1) wf_ret_codes[OF u64_ret_wf(1)] _ vt c])
      (simp_all add: demo_distance)
  then show ?thesis by blast
qed

text \<open>C27. A launched closure that panics is reported as if it had returned: the completion guard
  stores the response word all the same, and the caller reads, as the closure's result, the
  bytes the response slot held before the call.\<close>

theorem launch_panic_stale:
  assumes "seg_queue items (reg_push X) (reg_pop X)" "seg_queue pitems (pool_push X) (pool_pop X)"
    and "calm items s" "r_chan rm \<in> set (registered items s)" "pool_ok pitems s"
    and "fits (fv f) 0" "ret_size R \<le> 1148"
    and "vt_out X (fn_vtable (fv f)) = Some (VTABLE (fn_size (fv f)) (fn_align (fv f)) (apply_adapter R (body f)))"
    and "call_fn f (prop_cell s) = (t, None)" "distance items s + 2 \<le> fuel"
  shows "\<exists>s'. remote_launch X fuel rm R f s =
     (reply_of (read_response (ret_size R) (ret_dec R) (chans s (r_chan rm))), s') \<and>
     prop_cell s' = t \<and> status s' = Running"
  unfolding remote_launch_def
  by (rule launch_queues.delegate_launch_panics[OF launch_queues.intro[OF worker_queue.intro[OF assms(1)] assms(2)] assms(3-10)])

theorem launch_panic_stale_witness:
  "fst (remote_launch branch_world 34 (fst demo) u64_ret panic_fn (snd demo)) = Returned 0"
proof -
  have vt: "vt_out branch_world (fn_vtable (fv panic_fn)) =
      Some (VTABLE (fn_size (fv panic_fn)) (fn_align (fv panic_fn)) (apply_adapter u64_ret (body panic_fn)))"
    by (simp add: panic_fn_def branch_world_def)
  have c: "call_fn panic_fn (prop_cell (snd demo)) = (6, None)" by (simp add: call_fn_def panic_fn_def panic_body_def)
  have f: "fits (fv panic_fn) 0" using small_fits by (simp add: panic_fn_def)
  have p: "pool_ok (\<lambda>p. p) (snd demo)" "seg_queue (\<lambda>p. p) (pool_push branch_world) (pool_pop branch_world)"
    using demo_launch.pool.seg_queue_axioms
    by (simp_all add: branch_world_def pool_ok_def demo_def remote_entrust_def spawn_with_pin_def entrust_handle_def
        new_chan_def worker_start_def register_def)
  have d: "chans (snd demo) 0 = ChannelPair_default 0x10000"
    by (simp add: demo_def remote_entrust_def spawn_with_pin_def entrust_handle_def new_chan_def worker_start_def register_def arc_address_def)
  have "take 8 (drop 4 (replicate 1152 (0 :: u8))) = replicate 8 0" by simp
  then have r: "read_response (ret_size u64_ret) (ret_dec u64_ret) (chans (snd demo) (r_chan (fst demo))) = Ok 0"
    using of_le_le_bytes[of 8 "0 :: u64"]
    by (simp add: d read_response_def read_unaligned_def read_at_def default_raw u64_ret_def dec_word_def le_bytes_zero)
  from launch_panic_stale[OF branch_queue p(2) demo_calm demo_registered p(1) f _ vt c, of 34] r
  show ?thesis by (auto simp: demo_distance)
qed

end
