(* ===== verification/Trust_Interface.thy ===== *)
theory Trust_Interface
  imports Local_Trust Remote_Launch
begin

text \<open>
  The interface of a trust (src/trust/common.rs): what a client may rely on of an operation, stated
  once and met by the local trust, by a remote handle and by the wrapper \<open>Trust\<close> around either;
  sequences of operations are proved against the interface.
\<close>

section \<open>The wrapper\<close>

text \<open>\<open>Trust<T>\<close> holds an implementation and passes every operation on to it; which operation
  that is, the implementation's type decides.\<close>

record 'i Trust =
  trust_inner :: 'i

definition Trust_new :: "'i \<Rightarrow> 'i Trust" where
  "Trust_new i = \<lparr> trust_inner = i \<rparr>"

definition trust_call :: "('i \<Rightarrow> 'r reply \<times> 'i) \<Rightarrow> 'i Trust \<Rightarrow> 'r reply \<times> 'i Trust" where
  "trust_call op tr = (case op (trust_inner tr) of (rep, i) \<Rightarrow> (rep, tr\<lparr> trust_inner := i \<rparr>))"

definition trust_apply :: "('f \<Rightarrow> 'i \<Rightarrow> 'r reply \<times> 'i) \<Rightarrow> 'f \<Rightarrow> 'i Trust \<Rightarrow> 'r reply \<times> 'i Trust" where
  "trust_apply impl_apply f tr = trust_call (impl_apply f) tr"

definition trust_apply_then ::
    "('f \<Rightarrow> ('r \<Rightarrow> 'k) \<Rightarrow> 'i \<Rightarrow> 'k reply \<times> 'i) \<Rightarrow> 'f \<Rightarrow> ('r \<Rightarrow> 'k) \<Rightarrow> 'i Trust \<Rightarrow> 'k reply \<times> 'i Trust" where
  "trust_apply_then impl_apply_then f k tr = trust_call (impl_apply_then f k) tr"

definition trust_apply_with ::
    "('f \<Rightarrow> 'v \<Rightarrow> 'i \<Rightarrow> 'r reply \<times> 'i) \<Rightarrow> 'f \<Rightarrow> 'v \<Rightarrow> 'i Trust \<Rightarrow> 'r reply \<times> 'i Trust" where
  "trust_apply_with impl_apply_with f w tr = trust_call (impl_apply_with f w) tr"

definition trust_with :: "('f \<Rightarrow> 'i \<Rightarrow> 'r reply \<times> 'i) \<Rightarrow> 'f \<Rightarrow> 'i Trust \<Rightarrow> 'r reply \<times> 'i Trust" where
  "trust_with impl_with f tr = trust_call (impl_with f) tr"

definition trust_apply_batch_mut ::
    "('f \<Rightarrow> u8 \<Rightarrow> 'i \<Rightarrow> unit reply \<times> 'i) \<Rightarrow> 'f \<Rightarrow> u8 \<Rightarrow> 'i Trust \<Rightarrow> unit reply \<times> 'i Trust" where
  "trust_apply_batch_mut impl_batch f n tr = trust_call (impl_batch f n) tr"

definition trust_launch :: "('f \<Rightarrow> 'i \<Rightarrow> 'r reply \<times> 'i) \<Rightarrow> 'f \<Rightarrow> 'i Trust \<Rightarrow> 'r reply \<times> 'i Trust" where
  "trust_launch impl_launch f tr = trust_call (impl_launch f) tr"

definition trust_launch_then ::
    "('f \<Rightarrow> ('r \<Rightarrow> 'k) \<Rightarrow> 'i \<Rightarrow> 'k reply \<times> 'i) \<Rightarrow> 'f \<Rightarrow> ('r \<Rightarrow> 'k) \<Rightarrow> 'i Trust \<Rightarrow> 'k reply \<times> 'i Trust" where
  "trust_launch_then impl_launch_then f k tr = trust_call (impl_launch_then f k) tr"

definition trust_into_inner :: "('i \<Rightarrow> 'x) \<Rightarrow> 'i Trust \<Rightarrow> 'x" where
  "trust_into_inner impl_into_inner tr = impl_into_inner (trust_inner tr)"

definition trust_local_entrust :: "'t \<Rightarrow> 't Local Trust" where
  "trust_local_entrust value = \<lparr> trust_inner = local_entrust value \<rparr>"

text \<open>A remote trust is the handle with the system it talks to.\<close>

definition trust_remote_entrust ::
    "('t, 'q, 'p) world \<Rightarrow> 't \<Rightarrow> usize \<Rightarrow> u64 \<Rightarrow> 'q \<Rightarrow> 'p \<Rightarrow> (remote \<times> ('t, 'q, 'p) rt) Trust" where
  "trust_remote_entrust X value tid b q p = \<lparr> trust_inner = remote_entrust X value tid b q p \<rparr>"

text \<open>With a pin configuration the handle is the spawned one with the runtime as its owner; the
  configuration is not used by the worker.\<close>

definition trust_entrust_with_pin ::
    "('t, 'q, 'p) world \<Rightarrow> 't \<Rightarrow> usize \<Rightarrow> u64 \<Rightarrow> 'q \<Rightarrow> 'p \<Rightarrow> 'pin \<Rightarrow> (remote \<times> ('t, 'q, 'p) rt) Trust" where
  "trust_entrust_with_pin X value tid b q p pin =
     (let (handle, s) = spawn_with_pin X value tid b q p
      in \<lparr> trust_inner = (\<lparr> r_chan = r_chan handle, r_owner = True \<rparr>, s) \<rparr>)"

definition trust_remote_clone ::
    "('t, 'q, 'p) world \<Rightarrow> u64 \<Rightarrow> (remote \<times> ('t, 'q, 'p) rt) Trust \<Rightarrow> remote Trust \<times> ('t, 'q, 'p) rt" where
  "trust_remote_clone X b tr =
     (case trust_inner tr of (rm, s) \<Rightarrow>
        (case remote_clone X b rm s of (rm', s') \<Rightarrow> (\<lparr> trust_inner = rm' \<rparr>, s')))"

section \<open>The contract\<close>

text \<open>What an operation promises: on a usable trust, an operation that can be sent, that returns on
  the value and whose result can be carried back is answered with its result, and the trust then
  holds what the operation left. What an operation does to a value is \<open>eval\<close>.\<close>

locale trust_like =
  fixes eval :: "'f \<Rightarrow> 't \<Rightarrow> 't \<times> 'r option"
    and value_of :: "'s \<Rightarrow> 't"
    and usable :: "'s \<Rightarrow> bool"
    and sendable :: "'f \<Rightarrow> bool"
    and carried :: "'f \<Rightarrow> 'r \<Rightarrow> bool"
    and trust_op :: "'f \<Rightarrow> 's \<Rightarrow> 'r reply \<times> 's"
  assumes trust_op: "usable s \<Longrightarrow> sendable f \<Longrightarrow> eval f (value_of s) = (t, Some r) \<Longrightarrow> carried f r \<Longrightarrow>
    \<exists>s'. trust_op f s = (Returned r, s') \<and> usable s' \<and> value_of s' = t"

text \<open>A session is a sequence of operations; its specification runs them on the value.\<close>

fun run_session :: "('f \<Rightarrow> 's \<Rightarrow> 'r reply \<times> 's) \<Rightarrow> 'f list \<Rightarrow> 's \<Rightarrow> 'r reply list \<times> 's" where
  "run_session ap [] s = ([], s)"
| "run_session ap (f # fs) s =
     (case ap f s of (rep, s1) \<Rightarrow> (case run_session ap fs s1 of (reps, s2) \<Rightarrow> (rep # reps, s2)))"

fun spec_session :: "('f \<Rightarrow> 't \<Rightarrow> 't \<times> 'r option) \<Rightarrow> 'f list \<Rightarrow> 't \<Rightarrow> ('r list \<times> 't) option" where
  "spec_session eval [] t = Some ([], t)"
| "spec_session eval (f # fs) t =
     (case eval f t of
        (t1, Some r) \<Rightarrow> map_option (\<lambda>(rs, t2). (r # rs, t2)) (spec_session eval fs t1)
      | (t1, None) \<Rightarrow> None)"

lemma session_length: "spec_session eval fs t0 = Some (rs, t) \<Longrightarrow> length rs = length fs"
  by (induction fs arbitrary: t0 rs) (auto split: prod.splits option.splits)

context trust_like
begin

lemma session:
  "usable s \<Longrightarrow> \<forall>f \<in> set fs. sendable f \<Longrightarrow> spec_session eval fs (value_of s) = Some (rs, t) \<Longrightarrow>
   list_all2 carried fs rs \<Longrightarrow> \<exists>s'. run_session trust_op fs s = (map Returned rs, s') \<and> usable s' \<and> value_of s' = t"
proof (induction fs arbitrary: s rs)
  case Nil
  then show ?case by simp
next
  case (Cons f fs)
  obtain t1 r where c: "eval f (value_of s) = (t1, Some r)"
    using Cons.prems(3) by (auto split: prod.splits option.splits)
  then obtain rs' where rs: "spec_session eval fs t1 = Some (rs', t)" "rs = r # rs'"
    using Cons.prems(3) by auto
  obtain s1 where s1: "trust_op f s = (Returned r, s1)" "usable s1" "value_of s1 = t1"
    using trust_op[OF Cons.prems(1) _ c] Cons.prems(2,4) rs(2) by auto
  obtain s' where "run_session trust_op fs s1 = (map Returned rs', s')" "usable s'" "value_of s' = t"
    using Cons.IH[OF s1(2), of rs'] Cons.prems(2,4) rs s1(3) by auto
  then show ?case using s1(1) rs(2) by simp
qed

text \<open>The wrapper keeps the contract of what it wraps.\<close>

lemma wrapped:
  "trust_like eval (\<lambda>tr. value_of (trust_inner tr)) (\<lambda>tr. usable (trust_inner tr)) sendable carried
     (\<lambda>f. trust_call (trust_op f))"
proof
  fix tr :: "'s Trust" and f t r
  assume "usable (trust_inner tr)" "sendable f" "eval f (value_of (trust_inner tr)) = (t, Some r)" "carried f r"
  from trust_op[OF this] show "\<exists>s'. trust_call (trust_op f) tr = (Returned r, s') \<and>
      usable (trust_inner s') \<and> value_of (trust_inner s') = t"
    by (auto simp: trust_call_def)
qed

end

interpretation local_trust: trust_like call_fn inner "\<lambda>_. True" "\<lambda>_. True" "\<lambda>_ _. True" "\<lambda>f. local_apply (call_fn f)"
  by unfold_locales (simp add: local_apply_def local_call_def)

lemma run_session_wrapped:
  "run_session (\<lambda>f. trust_call (ap f)) fs (Trust_new s) = (case run_session ap fs s of (reps, s') \<Rightarrow> (reps, Trust_new s'))"
  by (induction fs arbitrary: s)
    (auto simp: trust_call_def Trust_new_def split: prod.splits)

interpretation wrapped_local: trust_like call_fn "\<lambda>tr. inner (trust_inner tr)" "\<lambda>tr. True" "\<lambda>_. True" "\<lambda>_ _. True"
    "\<lambda>f. trust_call (local_apply (call_fn f))"
  by (rule local_trust.wrapped)

section \<open>Remote handles\<close>

text \<open>A handle as its client sees it: the thread it is used from, the result type and the fuel of
  the wait are fixed, the state is the system.\<close>

definition handle_usable ::
    "('q \<Rightarrow> ClientPair list) \<Rightarrow> nat \<Rightarrow> caller \<Rightarrow> remote \<Rightarrow> ('t, 'q, 'p) rt \<Rightarrow> bool" where
  "handle_usable items fuel th rm s \<longleftrightarrow>
     calm items s \<and> r_chan rm \<in> set (registered items s) \<and> \<not> on_owning_trustee th s \<and>
     16 * length (registered items s) + 18 \<le> fuel"

definition linked_fn :: "('t, 'q, 'p) world \<Rightarrow> 'r ret_type \<Rightarrow> ('t, 'r) client_fn \<Rightarrow> bool" where
  "linked_fn X R f \<longleftrightarrow> fits (fv f) 0 \<and>
     vt_out X (fn_vtable (fv f)) = Some (VTABLE (fn_size (fv f)) (fn_align (fv f)) (apply_adapter R (body f)))"

lemma distance_registered: "distance items s \<le> 16 * length (registered items s) + 16"
  by (simp add: distance_def registered_def)

lemma op_frame_owner: "op_frame items i s s' \<Longrightarrow> on_owning_trustee th s' = on_owning_trustee th s"
  by (simp add: op_frame_def on_owning_trustee_def)

locale remote_handle = worker_queue items X
  for items :: "'q \<Rightarrow> ClientPair list" and X :: "('t, 'q, 'p) world" +
  fixes fuel :: nat and th :: caller and rm :: remote and R :: "'r ret_type"
  assumes client_thread: "\<not> caller_trustee th" and result: "wf_ret R" "ret_size R \<le> 1148"
begin

lemma handle_apply:
  assumes u: "handle_usable items fuel th rm s" and l: "linked_fn X R f"
    and c: "call_fn f (prop_cell s) = (t, Some r)"
  shows "\<exists>s'. remote_apply X fuel th rm R f s = (Returned r, s') \<and> handle_usable items fuel th rm s' \<and> prop_cell s' = t"
proof -
  have s: "calm items s" "r_chan rm \<in> set (registered items s)" "\<not> on_owning_trustee th s" "distance items s + 2 \<le> fuel"
    using u distance_registered[of items s] by (auto simp: handle_usable_def)
  have f: "fits (fv f) 0"
    "vt_out X (fn_vtable (fv f)) = Some (VTABLE (fn_size (fv f)) (fn_align (fv f)) (apply_adapter R (body f)))"
    using l by (auto simp: linked_fn_def)
  obtain s' where d: "delegate X fuel (r_chan rm) CallMutOutPtr (fv f) [] (\<lambda>h. h) (read_response (ret_size R) (ret_dec R)) s
      = (Returned r, s')" "prop_cell s' = t" "calm items s'" "op_frame items (r_chan rm) s s'"
    using delegate_apply[OF s(1,2) f(1) wf_ret_codes[OF result(1)] result(2) f(2) c s(4)] by blast
  have "registered items s' = registered items s" using d(4) by (simp add: op_frame_def)
  then have "handle_usable items fuel th rm s'" using u d(3) op_frame_owner[OF d(4)] by (simp add: handle_usable_def)
  then show ?thesis using d(1,2) s(3) client_thread by (simp add: remote_apply_def)
qed

end

sublocale remote_handle \<subseteq> handle: trust_like call_fn prop_cell "handle_usable items fuel th rm" "linked_fn X R" "\<lambda>_ _. True"
  "remote_apply X fuel th rm R"
  by unfold_locales (rule handle_apply)

interpretation demo_handle: remote_handle "\<lambda>q. q" demo_world 40 client_thread "fst demo" u64_ret
  by unfold_locales (simp_all add: demo_not_owner)

lemma demo_usable: "handle_usable (\<lambda>q. q) 40 client_thread (fst demo) (snd demo)"
  by (simp add: handle_usable_def demo_calm demo_not_owner)

lemma demo_linked: "linked_fn demo_world u64_ret (add_fn k)"
  using demo_fits(1)[of k] by (auto simp: linked_fn_def demo_world_def add_fn_def)

end
