(* ===== verification/Fiber_Pool.thy ===== *)
theory Fiber_Pool
  imports Remote_Launch
begin

text \<open>
  The fibers of a runtime over its whole life (src/runtime/runtime.rs): where the sender of each
  fiber is, which references to the property exist, and that every step of the worker, of the
  fibers and of the clients keeps the two in order - also when the worker leaves its loop.
\<close>

section \<open>Invariants of the loop\<close>

text \<open>A property of the runtime that bookkeeping and writes to channels do not touch, and that
  the execution of one record keeps, is kept by whole rounds, however they end.\<close>

fun leaves :: "(('t, 'q, 'p) rt \<Rightarrow> bool) \<Rightarrow> (('t, 'q, 'p) rt \<times> 'x) flow \<Rightarrow> bool" where
  "leaves P (Next (s, x)) \<longleftrightarrow> P s \<and> status s = Running"
| "leaves P (Halt (s, x)) \<longleftrightarrow> P s"
| "leaves P (Undefined u) \<longleftrightarrow> True"
| "leaves P Diverge \<longleftrightarrow> True"

locale loop_invariant =
  fixes X :: "('t, 'q, 'p) world" and P :: "('t, 'q, 'p) rt \<Rightarrow> bool"
  assumes moved_P: "P s \<Longrightarrow> moved s s' \<Longrightarrow> P s'"
    and chans_P: "P s \<Longrightarrow> P (upd_chan i g s)"
    and record_P: "P s \<Longrightarrow> status s = Running \<Longrightarrow> leaves P (dispatch_record X idx i b hdr s)"
    and unwind_P: "P s \<Longrightarrow> status s = Running \<Longrightarrow> P (unwind s)"
begin

lemma process_records_P:
  "P s \<Longrightarrow> status s = Running \<Longrightarrow> leaves P (process_records X idx i b k cur pr df s)"
proof (induction k arbitrary: cur pr df s)
  case 0
  then show ?case by simp
next
  case (Suc k)
  have "leaves P (dispatch_record X idx i b hdr s)" for hdr by (rule record_P[OF Suc.prems])
  then show ?case using Suc.IH unwind_P[OF Suc.prems]
    by (auto simp: Let_def split: outcome.split flow.split) (metis leaves.simps(1,2))+
qed

lemma finish_request_P: "P s \<Longrightarrow> P (finish_request i b k d s)"
  by (simp add: finish_request_def chans_P)

lemma finish_request_status [simp]: "status (finish_request i b k d s) = status s"
  by (simp add: finish_request_def upd_chan_def)

lemma visit_P:
  assumes "P s" "status s = Running"
  shows "leaves P (visit X n idx s)"
proof (cases "length (clients s) \<le> idx")
  case True
  then show ?thesis using unwind_P[OF assms] by (simp add: visit_def)
next
  case False
  have u: "P (upd_client idx g s)" "status (upd_client idx g s) = Running" for g
    using moved_P[OF assms(1)] assms(2) by (simp_all add: upd_client_def)
  have fin: "P ((finish_request i b k d s')\<lparr> start_idx := st \<rparr>)" if "P s'" for i b k d st s'
    by (rule moved_P[OF finish_request_P[OF that] moved_upd(3)])
  have pr: "leaves P (process_records X idx i b k cur 0 False (upd_client idx g s))" for i b k cur g
    by (rule process_records_P[OF u])
  show ?thesis unfolding visit_def Let_def
    using False u fin pr by (auto split: flow.split prod.split) (metis leaves.simps(1,2))+
qed

lemma scan_P: "P s \<Longrightarrow> status s = Running \<Longrightarrow> leaves P (scan X n os pr s)"
proof (induction os arbitrary: pr s)
  case Nil
  then show ?case by simp
next
  case (Cons x os)
  show ?case using visit_P[OF Cons.prems, of n "scan_index n (start_idx s) x"] Cons.IH
    by (auto split: flow.split)
qed

lemma round_P:
  assumes "P s" "status s = Running" "worker_round X s = Next s' \<or> worker_round X s = Halt s'"
  shows "P s'"
proof -
  let ?s1 = "poll_registrations X (s\<lparr> loop_counter := loop_counter s + 1 \<rparr>)"
  let ?sc = "scan X (length (clients ?s1)) [0..<length (clients ?s1)] False ?s1"
  have m: "moved s ?s1" by (rule moved_trans[OF moved_upd(5) moved_poll])
  have p: "P ?s1" "status ?s1 = Running" using moved_P[OF assms(1) m] moved_simps(13)[OF m] assms(2) by simp_all
  have "leaves P ?sc" by (rule scan_P[OF p])
  then show ?thesis
    using assms(3) p(1) moved_P[OF _ moved_idle_step] moved_P[OF _ moved_upd(4)]
    by (cases ?sc) (auto simp: worker_round_def Let_def split: if_splits)
qed

end

section \<open>Fibers, senders and references\<close>

text \<open>Jobs still to be run, each of which holds a reference to the property.\<close>

fun is_Execute :: "Job \<Rightarrow> bool" where
  "is_Execute (Execute job) = True"
| "is_Execute Shutdown = False"

definition jobs_in :: "fiber \<Rightarrow> nat" where
  "jobs_in fb = length (filter is_Execute (inbox fb))"

definition waiting_jobs :: "('t, 'q, 'p) rt \<Rightarrow> nat" where
  "waiting_jobs s = (\<Sum>f < n_fibers s. jobs_in (fibers s f))"

text \<open>A live fiber is in exactly one place: its sender is in the pool, or one message waits in its
  inbox. The sender of a fiber that has ended is nowhere.\<close>

definition fiber_tokens :: "('p \<Rightarrow> nat list) \<Rightarrow> ('t, 'q, 'p) rt \<Rightarrow> bool" where
  "fiber_tokens pitems s \<longleftrightarrow>
     pool_ok pitems s \<and> (\<forall>f \<ge> n_fibers s. inbox (fibers s f) = []) \<and>
     (\<forall>f < n_fibers s. count_list (pitems (fiber_pool s)) f + length (inbox (fibers s f)) =
        (if exited (fibers s f) then 0 else 1))"

definition alive :: "('t, 'q, 'p) rt \<Rightarrow> bool" where
  "alive s \<longleftrightarrow> status s = Running \<or> status s = Terminating"

text \<open>The references to the property are the worker's and those of the waiting jobs, and its
  destructor has run exactly when there is none left.\<close>

definition references :: "('t, 'q, 'p) rt \<Rightarrow> bool" where
  "references s \<longleftrightarrow>
     prop_arcs s = waiting_jobs s + (if alive s then 1 else 0) \<and>
     prop_drops s = (if prop_arcs s = 0 then 1 else 0)"

definition pool_inv :: "('p \<Rightarrow> nat list) \<Rightarrow> ('t, 'q, 'p) rt \<Rightarrow> bool" where
  "pool_inv pitems s \<longleftrightarrow>
     fiber_tokens pitems s \<and> references s \<and> (alive s \<longrightarrow> fiber_handles s = [0..<n_fibers s])"

lemmas pool_inv_defs = pool_inv_def fiber_tokens_def references_def alive_def waiting_jobs_def pool_ok_def

text \<open>Changing one fiber changes its summand.\<close>

lemma sum_upd_less:
  fixes g :: "'a \<Rightarrow> nat" and n :: nat
  assumes "f < n"
  shows "(\<Sum>k < n. g ((h(f := x)) k)) + g (h f) = (\<Sum>k < n. g (h k)) + g x"
proof -
  have "(\<Sum>k < n. g ((h(f := x)) k)) = g x + (\<Sum>k \<in> {..<n} - {f}. g (h k))"
    using assms by (subst sum.remove[of _ f]) (auto intro!: sum.cong)
  moreover have "(\<Sum>k < n. g (h k)) = g (h f) + (\<Sum>k \<in> {..<n} - {f}. g (h k))"
    using assms by (subst sum.remove[of _ f]) auto
  ultimately show ?thesis by simp
qed

lemma sum_upd_beyond: "(n :: nat) \<le> f \<Longrightarrow> (\<Sum>k < n. g ((h(f := x)) k)) = (\<Sum>k < n. g (h k))"
  by (intro sum.cong) auto

lemma count_list_snoc: "count_list (xs @ [x]) y = count_list xs y + (if x = y then 1 else 0)"
  by (induction xs) auto

lemma count_list_pos: "x \<in> set xs \<Longrightarrow> 0 < count_list xs x"
  by (induction xs) auto

text \<open>A sender taken from the pool belongs to a live fiber with an empty inbox, so the send
  cannot fail.\<close>

lemma pooled_fiber:
  assumes "fiber_tokens pitems s" "f \<in> set (pitems (fiber_pool s))"
  shows "f < n_fibers s" "\<not> exited (fibers s f)" "inbox (fibers s f) = []"
    "count_list (pitems (fiber_pool s)) f = 1"
proof -
  show f: "f < n_fibers s" using assms by (simp add: fiber_tokens_def pool_ok_def)
  have "count_list (pitems (fiber_pool s)) f + length (inbox (fibers s f)) = (if exited (fibers s f) then 0 else 1)"
    "0 < count_list (pitems (fiber_pool s)) f"
    using assms f count_list_pos by (auto simp: fiber_tokens_def)
  then show "\<not> exited (fibers s f)" "inbox (fibers s f) = []" "count_list (pitems (fiber_pool s)) f = 1"
    by (cases "inbox (fibers s f)"; simp split: if_splits)+
qed

lemma dispatch_job_pooled:
  assumes q: "seg_queue pitems (pool_push X) (pool_pop X)" and t: "fiber_tokens pitems s"
    and p: "pool_pop X (fiber_pool s) = Some (tx, p)"
  shows "dispatch_job X job s =
    Some (s\<lparr> fiber_pool := p, fibers := (fibers s)(tx := (fibers s tx)\<lparr> inbox := [job] \<rparr>) \<rparr>)"
proof -
  have "tx \<in> set (pitems (fiber_pool s))" using seg_queue.pop_Some[OF q p] by simp
  from pooled_fiber[OF t this] show ?thesis
    using p by (subst dispatch_job.simps) (simp add: send_job_def inbox_push_def)
qed

lemma dispatch_job_spawned:
  "pool_pop X (fiber_pool s) = None \<Longrightarrow> dispatch_job X job s = Some (spawn_fiber job s)"
  by (subst dispatch_job.simps) simp

lemma pool_inv_spawn:
  assumes "pool_inv pitems s" "alive s" "is_Execute job" "pitems (fiber_pool s) = []"
  shows "pool_inv pitems (spawn_fiber job (clone_prop_arc s))"
proof -
  have "jobs_in \<lparr> inbox = [job], exited = False \<rparr> = 1" using assms(3) by (simp add: jobs_in_def)
  then show ?thesis
    using assms by (auto simp: pool_inv_defs spawn_fiber_def clone_prop_arc_def less_Suc_eq)
qed

lemma pool_inv_reuse:
  assumes q: "seg_queue pitems (pool_push X) (pool_pop X)"
    and i: "pool_inv pitems s" and a: "alive s" and j: "is_Execute job"
    and p: "pool_pop X (fiber_pool s) = Some (tx, p)"
  shows "pool_inv pitems ((clone_prop_arc s)\<lparr> fiber_pool := p,
    fibers := (fibers s)(tx := (fibers s tx)\<lparr> inbox := [job] \<rparr>) \<rparr>)" (is "pool_inv pitems ?s")
proof -
  have it: "pitems (fiber_pool s) = tx # pitems p" by (rule seg_queue.pop_Some[OF q p])
  have t: "fiber_tokens pitems s" using i by (simp add: pool_inv_def)
  have tx: "tx < n_fibers s" "\<not> exited (fibers s tx)" "inbox (fibers s tx) = []" "count_list (pitems p) tx = 0"
    using pooled_fiber[OF t, of tx] it by simp_all
  have "(\<Sum>k < n_fibers s. jobs_in (((fibers s)(tx := (fibers s tx)\<lparr> inbox := [job] \<rparr>)) k)) = Suc (waiting_jobs s)"
    using sum_upd_less[OF tx(1), of jobs_in "fibers s" "(fibers s tx)\<lparr> inbox := [job] \<rparr>"] tx(3) j
    by (simp add: jobs_in_def waiting_jobs_def)
  then have "references ?s" using i a by (auto simp: pool_inv_def references_def alive_def waiting_jobs_def clone_prop_arc_def)
  moreover have "fiber_tokens pitems ?s"
    using t it tx by (auto simp: fiber_tokens_def pool_ok_def clone_prop_arc_def)
  ultimately show ?thesis using i by (simp add: pool_inv_def alive_def clone_prop_arc_def)
qed

text \<open>What the invariant does not look at.\<close>

lemma pool_inv_irrelevant [simp]:
  "pool_inv pitems (s\<lparr> prop_cell := t \<rparr>) = pool_inv pitems s"
  "pool_inv pitems (upd_chan i g s) = pool_inv pitems s"
  "pool_inv pitems (s\<lparr> prop_moves := m \<rparr>) = pool_inv pitems s"
  "pool_inv pitems (upd_client idx h s) = pool_inv pitems s"
  "pool_inv pitems (s\<lparr> chans := c \<rparr>) = pool_inv pitems s"
  "pool_inv pitems (s\<lparr> n_chans := n \<rparr>) = pool_inv pitems s"
  "pool_inv pitems (s\<lparr> reg := r \<rparr>) = pool_inv pitems s"
  by (simp_all add: pool_inv_defs upd_chan_def upd_client_def)

lemma pool_inv_moved: "pool_inv pitems s \<Longrightarrow> moved s s' \<Longrightarrow> pool_inv pitems s'"
  using moved_simps[of s s'] by (simp add: pool_inv_defs)

text \<open>The worker's reference is dropped when it leaves its closure.\<close>

lemma pool_inv_leave:
  assumes "pool_inv pitems s" "alive s" "st = Exited \<or> st = Unwound"
  shows "pool_inv pitems (leave_worker st s)"
  using assms by (auto simp: pool_inv_defs leave_worker_def drop_prop_arc_def Let_def)

lemma pool_inv_unwind: "pool_inv pitems s \<Longrightarrow> status s = Running \<Longrightarrow> pool_inv pitems (unwind s)"
  by (simp add: unwind_def pool_inv_leave alive_def)

lemma pool_inv_after_call:
  "pool_inv pitems s \<Longrightarrow> status s = Running \<Longrightarrow> leaves (pool_inv pitems) (after_call i s r)"
  by (auto simp: after_call_def Let_def upd_chan_def pool_inv_unwind split: outcome.split)

lemma pool_inv_launch:
  assumes q: "seg_queue pitems (pool_push X) (pool_pop X)" and i: "pool_inv pitems s" and r: "status s = Running"
  shows "leaves (pool_inv pitems) (serve_Launch X idx c b hdr s)"
proof -
  let ?u = "upd_client idx (\<lambda>cp. cp\<lparr> pending_launch := True, launch_req_ready := b \<rparr>) s"
  let ?job = "Execute \<lparr> job_chan = c, job_hdr = hdr, job_req_ready = b \<rparr>"
  have u: "pool_inv pitems ?u" "alive ?u" "status ?u = Running" "fibers (clone_prop_arc ?u) = fibers ?u"
    "fiber_pool (clone_prop_arc ?u) = fiber_pool ?u"
    using i r by (simp, simp_all add: alive_def upd_client_def clone_prop_arc_def)
  show ?thesis
  proof (cases "pool_pop X (fiber_pool ?u)")
    case None
    then have "pitems (fiber_pool ?u) = []" by (rule seg_queue.pop_None[OF q])
    then have "pool_inv pitems (spawn_fiber ?job (clone_prop_arc ?u))" by (intro pool_inv_spawn u) simp
    moreover have "dispatch_job X ?job (clone_prop_arc ?u) = Some (spawn_fiber ?job (clone_prop_arc ?u))"
      by (rule dispatch_job_spawned) (use None u(5) in simp)
    ultimately show ?thesis using u(3) by (simp add: serve_Launch_def Let_def spawn_fiber_def clone_prop_arc_def)
  next
    case (Some a)
    obtain tx p where a: "a = (tx, p)" by force
    have t: "fiber_tokens pitems (clone_prop_arc ?u)"
      using u(1) by (simp add: pool_inv_def fiber_tokens_def pool_ok_def clone_prop_arc_def)
    have "pool_pop X (fiber_pool (clone_prop_arc ?u)) = Some (tx, p)" using Some a u(5) by simp
    from dispatch_job_pooled[OF q t this, of ?job] pool_inv_reuse[OF q u(1,2), of ?job tx p] Some a u(3,4)
    show ?thesis by (simp add: serve_Launch_def Let_def clone_prop_arc_def)
  qed
qed

lemma pool_inv_record:
  assumes q: "seg_queue pitems (pool_push X) (pool_pop X)" and i: "pool_inv pitems s" and r: "status s = Running"
  shows "leaves (pool_inv pitems) (dispatch_record X idx c b hdr s)"
proof (cases "property_ptr hdr")
  case CallMutRetUnit
  then show ?thesis using i r
    by (auto simp: dispatch_record_def serve_CallMutRetUnit_def Let_def pool_inv_unwind split: outcome.split)
next
  case IntoInner
  have "alive (upd_chan c g (s\<lparr> prop_moves := m \<rparr>))" for g m using r by (simp add: alive_def upd_chan_def)
  then show ?thesis using i IntoInner
    by (auto simp: dispatch_record_def serve_IntoInner_def Let_def upd_chan_def alive_def
        intro!: pool_inv_leave split: option.split)
next
  case Terminate
  then show ?thesis using i r by (simp add: dispatch_record_def serve_Terminate_def pool_inv_defs)
qed (use i r pool_inv_after_call pool_inv_launch[OF q] in
    \<open>simp_all add: dispatch_record_def serve_CallMutOutPtr_def serve_CallMutArgsOutPtr_def Let_def\<close>)

section \<open>Fibers at work\<close>

lemma run_launch_job_frame:
  assumes "run_launch_job X job s = Inr (s', panicked)"
  shows "\<exists>t c. s' = drop_prop_arc (s\<lparr> prop_cell := t, chans := c \<rparr>)"
proof -
  have "\<exists>t c. s\<lparr> chans := x \<rparr> = s\<lparr> prop_cell := t, chans := c \<rparr>" for x
    by (rule exI[of _ "prop_cell s"]) auto
  then show ?thesis
    using assms by (auto simp: run_launch_job_def Let_def upd_chan_def split: outcome.splits) metis
qed

lemma live_inbox:
  assumes "fiber_tokens pitems s" "inbox (fibers s f) = msg # rest"
  shows "f < n_fibers s" "rest = []" "\<not> exited (fibers s f)" "count_list (pitems (fiber_pool s)) f = 0"
proof -
  show f: "f < n_fibers s" using assms by (metis fiber_tokens_def list.distinct(1) not_less)
  have "count_list (pitems (fiber_pool s)) f + length (inbox (fibers s f)) = (if exited (fibers s f) then 0 else 1)"
    using assms(1) f by (simp add: fiber_tokens_def)
  then show "rest = []" "\<not> exited (fibers s f)" "count_list (pitems (fiber_pool s)) f = 0"
    using assms(2) by (auto split: if_splits)
qed

text \<open>A job run by fiber \<open>f\<close> leaves its reference; the fiber goes back to the pool or ends.\<close>

lemma pool_inv_job_done:
  assumes i: "pool_inv pitems s" and f: "f < n_fibers s" "inbox (fibers s f) = [Execute job]" "\<not> exited (fibers s f)"
    and s': "s' = drop_prop_arc ((upd_fiber f (\<lambda>_. fb) s)\<lparr> prop_cell := t, chans := c \<rparr>)"
    and fb: "inbox fb = []" and p: "p = fiber_pool s \<and> exited fb \<or>
      pitems p = pitems (fiber_pool s) @ [f] \<and> \<not> exited fb"
  shows "pool_inv pitems (s'\<lparr> fiber_pool := p \<rparr>)"
proof -
  have tok: "count_list (pitems (fiber_pool s)) f = 0"
    using live_inbox(4)[OF _ f(2), of pitems] i by (simp add: pool_inv_def)
  have sel: "n_fibers s' = n_fibers s" "status s' = status s" "fiber_handles s' = fiber_handles s"
    "fibers s' = (fibers s)(f := fb)" "prop_arcs s' = prop_arcs s - 1"
    "prop_drops s' = (if prop_arcs s = 1 then Suc (prop_drops s) else prop_drops s)"
    by (simp_all add: s' drop_prop_arc_def Let_def upd_fiber_def)
  have "waiting_jobs s = Suc (waiting_jobs (s'\<lparr> fiber_pool := p \<rparr>))"
    using sum_upd_less[OF f(1), of jobs_in "fibers s" fb] f(2) fb sel by (simp add: jobs_in_def waiting_jobs_def)
  then have "references (s'\<lparr> fiber_pool := p \<rparr>)"
    using i sel by (auto simp: pool_inv_def references_def alive_def)
  moreover have "fiber_tokens pitems (s'\<lparr> fiber_pool := p \<rparr>)"
    using i f p fb tok sel by (auto simp: pool_inv_def fiber_tokens_def pool_ok_def count_list_snoc)
  ultimately show ?thesis using i sel by (simp add: pool_inv_def alive_def)
qed

lemma pool_inv_shutdown_done:
  assumes i: "pool_inv pitems s" and f: "inbox (fibers s f) = [Shutdown]"
  shows "pool_inv pitems (upd_fiber f (\<lambda>_. \<lparr> inbox = [], exited = True \<rparr>) s)"
proof -
  have t: "fiber_tokens pitems s" using i by (simp add: pool_inv_def)
  note l = live_inbox[OF t f]
  have "(\<Sum>k < n_fibers s. jobs_in (((fibers s)(f := \<lparr> inbox = [], exited = True \<rparr>)) k)) = waiting_jobs s"
    using sum_upd_less[OF l(1), of jobs_in "fibers s" "\<lparr> inbox = [], exited = True \<rparr>"] f
    by (simp add: jobs_in_def waiting_jobs_def)
  then show ?thesis using i l by (auto simp: pool_inv_defs upd_fiber_def)
qed

lemma pool_inv_fiber_turn:
  assumes q: "seg_queue pitems (pool_push X) (pool_pop X)" and i: "pool_inv pitems s"
    and turn: "fiber_turn X f s = Inr s'"
  shows "pool_inv pitems s'"
proof (cases "inbox (fibers s f)")
  case Nil
  then show ?thesis using turn i by (simp add: fiber_turn_def inbox_pop_def)
next
  case (Cons msg rest)
  have t: "fiber_tokens pitems s" using i by (simp add: pool_inv_def)
  note l = live_inbox[OF t Cons]
  let ?fb = "\<lambda>e. \<lparr> inbox = [], exited = e \<rparr>"
  have fb: "(fibers s f)\<lparr> inbox := [] \<rparr> = ?fb False" using l(3) by (cases "fibers s f") simp
  have pop: "inbox_pop (fibers s f) = Some (msg, ?fb False)" using Cons l(2) fb by (simp add: inbox_pop_def)
  show ?thesis
  proof (cases msg)
    case Shutdown
    then have "s' = upd_fiber f (\<lambda>_. ?fb True) s" using turn pop l(3) by (auto simp: fiber_turn_def upd_fiber_def)
    then show ?thesis using pool_inv_shutdown_done[OF i] Cons l(2) Shutdown by simp
  next
    case (Execute job)
    let ?s1 = "upd_fiber f (\<lambda>_. ?fb False) s"
    obtain s2 pan where run: "run_launch_job X job ?s1 = Inr (s2, pan)"
      and s': "s' = (if pan then upd_fiber f (\<lambda>fb. fb\<lparr> exited := True \<rparr>) s2
        else s2\<lparr> fiber_pool := pool_push X f (fiber_pool s2) \<rparr>)"
      using turn pop l(3) Execute by (auto simp: fiber_turn_def split: sum.splits prod.splits if_splits)
    obtain u c where s2: "s2 = drop_prop_arc (?s1\<lparr> prop_cell := u, chans := c \<rparr>)"
      using run_launch_job_frame[OF run] by blast
    have f2: "fibers s2 f = ?fb False" "fiber_pool s2 = fiber_pool s"
      by (simp_all add: s2 drop_prop_arc_def Let_def upd_fiber_def)
    have box: "inbox (fibers s f) = [Execute job]" using Cons l(2) Execute by simp
    show ?thesis
    proof (cases pan)
      case True
      let ?s3 = "drop_prop_arc ((upd_fiber f (\<lambda>_. ?fb True) s)\<lparr> prop_cell := u, chans := c \<rparr>)"
      have "s' = ?s3\<lparr> fiber_pool := fiber_pool s \<rparr>"
        using True s' f2 by (simp add: s2 drop_prop_arc_def Let_def upd_fiber_def)
      then show ?thesis using pool_inv_job_done[OF i l(1) box l(3) refl, of "?fb True"] by simp
    next
      case False
      have "pitems (pool_push X f (fiber_pool s)) = pitems (fiber_pool s) @ [f]"
        by (rule seg_queue.items_push[OF q])
      then show ?thesis
        using False s' f2 pool_inv_job_done[OF i l(1) box l(3) s2, of "pool_push X f (fiber_pool s)"] by simp
    qed
  qed
qed

section \<open>The life of a runtime\<close>

text \<open>Every law of the loop holds of the invariant, whatever the pool's queue.\<close>

sublocale launch_queues \<subseteq> pool_life: loop_invariant X "pool_inv pitems"
proof
  show "leaves (pool_inv pitems) (dispatch_record X idx i b hdr s)"
    if "pool_inv pitems s" "status s = Running" for idx i b hdr s
    by (rule pool_inv_record[OF pool.seg_queue_axioms that])
qed (simp_all add: pool_inv_moved pool_inv_unwind)

text \<open>What can happen to a runtime: rounds of the worker until it leaves its loop, turns of the
  fibers, new handles, any writes of the clients to the channels, and closures that run in place
  on the trustee's thread.\<close>

inductive rt_step :: "('t, 'q, 'p) world \<Rightarrow> ('t, 'q, 'p) rt \<Rightarrow> ('t, 'q, 'p) rt \<Rightarrow> bool" for X where
  worker_next: "status s = Running \<Longrightarrow> worker_round X s = Next s' \<Longrightarrow> rt_step X s s'"
| worker_halt: "status s = Running \<Longrightarrow> worker_round X s = Halt s' \<Longrightarrow> rt_step X s s'"
| fiber: "fiber_turn X f s = Inr s' \<Longrightarrow> rt_step X s s'"
| handle: "entrust_handle X b own s = (r, s') \<Longrightarrow> rt_step X s s'"
| client_write: "rt_step X s (s\<lparr> chans := c \<rparr>)"
| in_place: "rt_step X s (s\<lparr> prop_cell := t \<rparr>)"

inductive rt_reachable ::
    "('p \<Rightarrow> nat list) \<Rightarrow> ('t, 'q, 'p) world \<Rightarrow> ('t, 'q, 'p) rt \<Rightarrow> bool" for pitems X where
  start: "pitems p = [] \<Longrightarrow> rt_reachable pitems X (worker_start v tid q p)"
| step: "rt_reachable pitems X s \<Longrightarrow> rt_step X s s' \<Longrightarrow> rt_reachable pitems X s'"

lemma pool_inv_start: "pitems p = [] \<Longrightarrow> pool_inv pitems (worker_start v tid q p)"
  by (simp add: pool_inv_defs worker_start_def)

lemma pool_inv_handle: "pool_inv pitems s \<Longrightarrow> entrust_handle X b own s = (r, s') \<Longrightarrow> pool_inv pitems s'"
  by (auto simp: entrust_handle_def new_chan_def register_def Let_def)

context launch_queues
begin

lemma pool_inv_step: "rt_step X s s' \<Longrightarrow> pool_inv pitems s \<Longrightarrow> pool_inv pitems s'"
proof (induction rule: rt_step.induct)
  case (worker_next s s')
  then show ?case by (intro pool_life.round_P[of s s'] disjI1)
next
  case (worker_halt s s')
  then show ?case by (intro pool_life.round_P[of s s'] disjI2)
next
  case (fiber f s s')
  show ?case by (rule pool_inv_fiber_turn[OF pool.seg_queue_axioms fiber(2,1)])
next
  case (handle b own s r s')
  show ?case by (rule pool_inv_handle[OF handle(2,1)])
qed simp_all

lemma pool_inv_reachable: "rt_reachable pitems X s \<Longrightarrow> pool_inv pitems s"
  by (induction rule: rt_reachable.induct) (auto intro: pool_inv_start pool_inv_step)

end

section \<open>The value and its destructor\<close>

text \<open>How often the value is destroyed in all: by the last reference on the worker's side, and once
  more by every caller that \<open>into_inner\<close> has made the owner of a copy of its bytes.\<close>

definition destructions :: "('t, 'q, 'p) rt \<Rightarrow> nat" where
  "destructions s = prop_drops s + prop_moves s"

text \<open>The value is moved out at most once, and the worker has then left its loop.\<close>

definition moves_ok :: "('t, 'q, 'p) rt \<Rightarrow> bool" where
  "moves_ok s \<longleftrightarrow> prop_moves s \<le> 1 \<and> (prop_moves s = 1 \<longrightarrow> status s = Exited)"

lemma moves_ok_irrelevant [simp]:
  "moves_ok (s\<lparr> prop_cell := t \<rparr>) = moves_ok s" "moves_ok (upd_chan i g s) = moves_ok s"
  "moves_ok (s\<lparr> chans := c \<rparr>) = moves_ok s" "moves_ok (upd_client idx h s) = moves_ok s"
  "moves_ok (clone_prop_arc s) = moves_ok s" "moves_ok (drop_prop_arc s) = moves_ok s"
  "moves_ok (s\<lparr> fiber_pool := p \<rparr>) = moves_ok s" "moves_ok (upd_fiber f k s) = moves_ok s"
  by (simp_all add: moves_ok_def upd_chan_def upd_client_def clone_prop_arc_def drop_prop_arc_def upd_fiber_def Let_def)

lemma moves_ok_unwind: "moves_ok s \<Longrightarrow> status s = Running \<Longrightarrow> moves_ok (unwind s)"
  by (auto simp: moves_ok_def unwind_def leave_worker_def drop_prop_arc_def Let_def)

lemma moves_ok_moved: "moves_ok s \<Longrightarrow> moved s s' \<Longrightarrow> moves_ok s'"
  by (simp add: moves_ok_def moved_def)

lemma moves_ok_record:
  assumes m: "moves_ok s" and r: "status s = Running"
  shows "leaves moves_ok (dispatch_record X idx c b hdr s)"
proof (cases "property_ptr hdr")
  case CallMutRetUnit
  then show ?thesis using m r moves_ok_unwind
    by (auto simp: dispatch_record_def serve_CallMutRetUnit_def Let_def split: outcome.split)
next
  case IntoInner
  then show ?thesis using m r
    by (auto simp: dispatch_record_def serve_IntoInner_def Let_def moves_ok_def upd_chan_def leave_worker_def
        drop_prop_arc_def split: option.split)
next
  case Launch
  have "moves_ok s' \<and> status s' = Running"
    if "dispatch_job X job (clone_prop_arc (upd_client idx h s)) = Some s'" for job h s'
    using dispatch_job_frame[OF that] m r by (auto simp: moves_ok_def clone_prop_arc_def upd_client_def)
  then show ?thesis using Launch by (auto simp: dispatch_record_def serve_Launch_def Let_def split: option.split)
next
  case Terminate
  then show ?thesis using m r by (auto simp: dispatch_record_def serve_Terminate_def moves_ok_def)
qed (use m r moves_ok_unwind in
    \<open>auto simp: dispatch_record_def serve_CallMutOutPtr_def serve_CallMutArgsOutPtr_def after_call_def Let_def upd_chan_def
      split: outcome.split\<close>)

interpretation moves: loop_invariant X moves_ok for X :: "('t, 'q, 'p) world"
  by unfold_locales (simp_all add: moves_ok_record moves_ok_unwind moves_ok_moved)

lemma moves_ok_fiber: "moves_ok s \<Longrightarrow> fiber_turn X f s = Inr s' \<Longrightarrow> moves_ok s'"
  using run_launch_job_frame
  by (fastforce simp: fiber_turn_def Let_def split: option.splits if_splits Job.splits sum.splits prod.splits)

lemma moves_ok_step: "rt_step X s s' \<Longrightarrow> moves_ok s \<Longrightarrow> moves_ok s'"
proof (induction rule: rt_step.induct)
  case (handle b own s r s')
  then show ?case by (auto simp: entrust_handle_def new_chan_def register_def Let_def moves_ok_def)
qed (auto intro: moves.round_P moves_ok_fiber)

lemma moves_ok_start: "moves_ok (worker_start v tid q p)"
  by (simp add: moves_ok_def worker_start_def)

lemma moves_ok_reachable: "rt_reachable pitems X s \<Longrightarrow> moves_ok s"
  by (induction rule: rt_reachable.induct) (auto intro: moves_ok_step moves_ok_start)

section \<open>Properties\<close>

text \<open>C15. The property outlives every use, and how often its value is destroyed, whatever clients
  write and however the worker ends: on the worker's side not at all while the worker or a launched
  job holds a reference, and exactly once after the last; in all exactly once unless \<open>into_inner\<close>
  has moved the value out, which happens at most once and only as the worker's last act - and then
  once on the worker's side and once more by the caller that owns the copy, a double destruction.
  The pool never holds the sender of a fiber that has ended or has work to do, so handing a job to a
  pooled fiber cannot fail.\<close>

theorem property_lives:
  assumes "launch_queues items X pitems" "rt_reachable pitems X s"
  shows "prop_drops s = (if alive s \<or> 0 < waiting_jobs s then 0 else 1) \<and>
    prop_moves s \<le> 1 \<and> (prop_moves s = 1 \<longrightarrow> status s = Exited) \<and>
    destructions s = (if alive s then 0 else if 0 < waiting_jobs s then prop_moves s
      else if prop_moves s = 1 then 2 else 1) \<and>
    (\<forall>f \<in> set (pitems (fiber_pool s)). f < n_fibers s \<and> \<not> exited (fibers s f) \<and> inbox (fibers s f) = [])"
proof -
  have i: "pool_inv pitems s" by (rule launch_queues.pool_inv_reachable[OF assms])
  then have t: "references s" "fiber_tokens pitems s" by (simp_all add: pool_inv_def)
  have m: "moves_ok s" by (rule moves_ok_reachable[OF assms(2)])
  have d: "prop_drops s = (if alive s \<or> 0 < waiting_jobs s then 0 else 1)"
    using t(1) by (auto simp: references_def)
  have "prop_moves s = 0 \<or> prop_moves s = 1" "alive s \<longrightarrow> prop_moves s = 0"
    using m by (auto simp: moves_ok_def alive_def le_Suc_eq)
  then show ?thesis using d m pooled_fiber[OF t(2)] by (auto simp: destructions_def moves_ok_def)
qed

text \<open>A fresh runtime, and the same with its worker unwound.\<close>

lemma demo_reachable: "rt_reachable (\<lambda>p. p) demo_world (snd demo)"
proof -
  let ?s = "worker_start 5 7 [] [] :: (u64, ClientPair list, nat list) rt"
  obtain r s' where h: "entrust_handle demo_world 0x10000 True ?s = (r, s')" by force
  then have "snd demo = s'" by (simp add: demo_def remote_entrust_def spawn_with_pin_def)
  then show ?thesis using rt_reachable.step[OF rt_reachable.start rt_step.handle[OF h]] by simp
qed

theorem property_lives_witness:
  "prop_drops (unwind (snd demo)) = 1 \<and> alive (snd demo) \<and> prop_drops (snd demo) = 0"
proof -
  have q: "launch_queues (\<lambda>q. q) demo_world (\<lambda>p. p)" by (rule demo_launch.launch_queues_axioms)
  have a: "alive (snd demo)" using demo_calm by (simp add: alive_def calm_def resting_def)
  have "prop_drops (snd demo) = 0" using property_lives[OF q demo_reachable] a by simp
  moreover have "prop_arcs (snd demo) = 1"
    using demo_launch.pool_inv_reachable[OF demo_reachable] a
    by (simp add: pool_inv_def references_def waiting_jobs_def)
  ultimately show ?thesis using a by (simp add: unwind_def leave_worker_def drop_prop_arc_def)
qed

end
