(* ===== verification/Client_Ops.thy ===== *)
theory Client_Ops
  imports Trust_Interface Fiber_Pool
begin

text \<open>
  The operations a client can have under way on a channel (src/trust/remote.rs), as one type: what
  each writes into the request slot, what it reads from the response slot, and what it does to the
  property. An operation of \<open>TrustLike\<close> is these parts with the wait in between, and the worker's
  execution of its record is its effect on the property and on the response slot.
\<close>

section \<open>Operations\<close>

text \<open>Each operation has its own result type; results of different types are told apart in the
  universe \<open>'r\<close>. A batch returns nothing.\<close>

datatype ('t, 'v, 'r) client_op =
    Op_apply "'r ret_type" "('t, 'r) client_fn"
  | Op_apply_with "'r ret_type" "('t, 'v, 'r) client_fn_with" 'v
  | Op_with "'r ret_type" "('t, 'r) client_fn"
  | Op_apply_batch_mut "('t, unit) client_fn" u8
  | Op_launch "'r ret_type" "('t, 'r) client_fn"

datatype 'r answer = Nothing | Value 'r

text \<open>The serialisation of arguments, a library the sources call.\<close>

record 'v codec =
  bin_ser :: "'v \<Rightarrow> u8 list option"
  bin_de :: "u8 list \<Rightarrow> 'v option"

fun op_tag :: "('t, 'v, 'r) client_op \<Rightarrow> PropertyPtr" where
  "op_tag (Op_apply R f) = CallMutOutPtr"
| "op_tag (Op_apply_with R f w) = CallMutArgsOutPtr"
| "op_tag (Op_with R f) = CallMutOutPtr"
| "op_tag (Op_apply_batch_mut f n) = CallMutRetUnit"
| "op_tag (Op_launch R f) = Launch"

fun op_fv :: "('t, 'v, 'r) client_op \<Rightarrow> fn_value" where
  "op_fv (Op_apply R f) = fv f"
| "op_fv (Op_apply_with R f w) = fvw f"
| "op_fv (Op_with R f) = fv f"
| "op_fv (Op_apply_batch_mut f n) = fv f"
| "op_fv (Op_launch R f) = fv f"

fun op_args :: "'v codec \<Rightarrow> ('t, 'v, 'r) client_op \<Rightarrow> u8 list option" where
  "op_args B (Op_apply_with R f w) = bin_ser B w"
| "op_args B x = Some []"

fun op_fix :: "('t, 'v, 'r) client_op \<Rightarrow> RequestRecordHeader \<Rightarrow> RequestRecordHeader" where
  "op_fix (Op_apply_batch_mut f n) h = h\<lparr> repeat_count := ucast n \<rparr>"
| "op_fix x h = h"

definition op_write :: "'v codec \<Rightarrow> ('t, 'v, 'r) client_op \<Rightarrow> ChannelPair \<Rightarrow> ChannelPair outcome" where
  "op_write B x c =
     (case op_args B x of
        None \<Rightarrow> Panic BincodeSerialize
      | Some args \<Rightarrow> write_request (op_tag x) (op_fv x) args (op_fix x) c)"

definition read_value :: "'r ret_type \<Rightarrow> ChannelPair \<Rightarrow> 'r answer outcome" where
  "read_value R c = obind (read_response (ret_size R) (ret_dec R) c) (\<lambda>r. Ok (Value r))"

fun op_read :: "('t, 'v, 'r) client_op \<Rightarrow> ChannelPair \<Rightarrow> 'r answer outcome" where
  "op_read (Op_apply R f) = read_value R"
| "op_read (Op_apply_with R f w) = read_value R"
| "op_read (Op_with R f) = read_value R"
| "op_read (Op_apply_batch_mut f n) = (\<lambda>c. Ok Nothing)"
| "op_read (Op_launch R f) = read_value R"

text \<open>The effect on the property.\<close>

fun op_call :: "('t, 'v, 'r) client_op \<Rightarrow> 't \<Rightarrow> 't \<times> 'r answer option" where
  "op_call (Op_apply R f) t = apsnd (map_option Value) (call_fn f t)"
| "op_call (Op_apply_with R f w) t = apsnd (map_option Value) (call_fn_with f t w)"
| "op_call (Op_with R f) t = apsnd (map_option Value) (call_fn f t)"
| "op_call (Op_apply_batch_mut f n) t = apsnd (map_option (\<lambda>_. Nothing)) (repeat_inline (call_fn f) (unat n) t)"
| "op_call (Op_launch R f) t = apsnd (map_option Value) (call_fn f t)"

definition op_eval :: "('t, 'v, 'r) client_op \<Rightarrow> 't \<Rightarrow> 't \<times> 'r answer" where
  "op_eval x t = (fst (op_call x t), the (snd (op_call x t)))"

section \<open>The operations of a handle\<close>

text \<open>The operation on a handle, and that off the trustees' threads it is its parts.\<close>

fun remote_op ::
    "('t, 'q, 'p) world \<Rightarrow> nat \<Rightarrow> caller \<Rightarrow> remote \<Rightarrow> 'v codec \<Rightarrow> ('t, 'v, 'r) client_op \<Rightarrow>
     ('t, 'q, 'p) rt \<Rightarrow> 'r answer reply \<times> ('t, 'q, 'p) rt" where
  "remote_op X fuel th rm B (Op_apply R f) s = then_run (remote_apply X fuel th rm R f s) Value"
| "remote_op X fuel th rm B (Op_apply_with R f w) s =
     then_run (remote_apply_with X fuel th rm R (bin_ser B) f w s) Value"
| "remote_op X fuel th rm B (Op_with R f) s = then_run (remote_with X fuel th rm R f s) Value"
| "remote_op X fuel th rm B (Op_apply_batch_mut f n) s =
     then_run (remote_apply_batch_mut X fuel th rm f n s) (\<lambda>_. Nothing)"
| "remote_op X fuel th rm B (Op_launch R f) s = then_run (remote_launch X fuel rm R f s) Value"

definition post_and_wait ::
    "('t, 'q, 'p) world \<Rightarrow> nat \<Rightarrow> nat \<Rightarrow> 'v codec \<Rightarrow> ('t, 'v, 'r) client_op \<Rightarrow> ('t, 'q, 'p) rt \<Rightarrow>
     'r answer reply \<times> ('t, 'q, 'p) rt" where
  "post_and_wait X fuel i B x s =
     (case op_write B x (chans s i) of
        Ok c1 \<Rightarrow>
          (let (b, c2) = publish c1; s1 = s\<lparr> chans := (chans s)(i := c2) \<rparr>
           in deliver i (op_read x) s1 (await_response X fuel hot i b s1))
      | Panic e \<Rightarrow>
          (CallerPanics e, case op_args B x of
             None \<Rightarrow> s
           | Some args \<Rightarrow> s\<lparr> chans := (chans s)(i := (chans s i)\<lparr> request :=
               encode_leaves (request_writer (chans s i)) (op_fv x) (request (chans s i)) \<rparr>) \<rparr>)
      | UB u \<Rightarrow> (UndefinedBehaviour u, s))"

lemma then_run_deliver:
  "then_run (deliver i read s1 w) k = deliver i (\<lambda>c. obind (read c) (\<lambda>r. Ok (k r))) s1 w"
proof (cases w)
  case (Arrived s2)
  then show ?thesis by (cases "read (chans s2 i)") simp_all
qed simp_all

lemma then_run_delegate:
  "then_run (delegate X fuel i p f args fix_hdr read s) k =
   delegate X fuel i p f args fix_hdr (\<lambda>c. obind (read c) (\<lambda>r. Ok (k r))) s"
  by (cases "write_request p f args fix_hdr (chans s i)")
    (simp_all add: delegate_def then_run_deliver Let_def split_beta)

lemma op_fix_fun [simp]:
  "op_fix (Op_apply R f) = (\<lambda>h. h)" "op_fix (Op_apply_with R g w) = (\<lambda>h. h)" "op_fix (Op_launch R f) = (\<lambda>h. h)"
  "op_fix (Op_with R f) = (\<lambda>h. h)" "op_fix (Op_apply_batch_mut k n) = (\<lambda>h. h\<lparr> repeat_count := ucast n \<rparr>)"
  by (rule ext, simp)+

lemma post_and_wait_delegate:
  "op_args B x = Some args \<Longrightarrow>
   post_and_wait X fuel i B x s = delegate X fuel i (op_tag x) (op_fv x) args (op_fix x) (op_read x) s"
  by (simp add: post_and_wait_def op_write_def delegate_def split: outcome.split)

lemma remote_op_parts:
  assumes "\<not> on_owning_trustee th s" "\<not> caller_trustee th"
  shows "remote_op X fuel th rm B x s = post_and_wait X fuel (r_chan rm) B x s"
proof (cases x)
  case (Op_apply_with R f w)
  then show ?thesis using assms
    by (cases "bin_ser B w") (simp add: remote_apply_with_def post_and_wait_def op_write_def,
      simp add: remote_apply_with_def then_run_delegate post_and_wait_delegate read_value_def[abs_def])
qed (use assms in \<open>simp_all add: remote_apply_def remote_with_def remote_apply_batch_mut_def remote_launch_def then_run_delegate
    post_and_wait_delegate read_value_def[abs_def]\<close>)

section \<open>Operations that return\<close>

text \<open>An operation a client may send: its closure is linked into the program and fits the slot, its
  arguments survive the serialisation, and on every value of the property it returns a result
  its type can carry and the response slot can hold.\<close>

definition result_ok :: "'r ret_type \<Rightarrow> 'r option \<Rightarrow> bool" where
  "result_ok R x \<longleftrightarrow> (\<exists>r. x = Some r \<and> codes R r)"

fun sendable :: "('t, 'q, 'p) world \<Rightarrow> 'v codec \<Rightarrow> ('t, 'v, 'r) client_op \<Rightarrow> bool" where
  "sendable X B (Op_apply R f) \<longleftrightarrow> linked_fn X R f \<and> ret_size R \<le> 1148 \<and> (\<forall>t. result_ok R (snd (call_fn f t)))"
| "sendable X B (Op_apply_with R f w) \<longleftrightarrow>
     (\<exists>args. bin_ser B w = Some args \<and> bin_de B args = Some w \<and> fits (fvw f) (length args) \<and>
        vt_args X (fn_vtable (fvw f)) = Some (VTABLE (fn_size (fvw f)) (fn_align (fvw f)) (apply_with_adapter R (bin_de B) (bodyw f)))) \<and>
     ret_size R \<le> 1148 \<and> (\<forall>t. result_ok R (snd (call_fn_with f t w)))"
| "sendable X B (Op_with R f) \<longleftrightarrow> linked_fn X R f \<and> ret_size R \<le> 1148 \<and> (\<forall>t. result_ok R (snd (call_fn f t)))"
| "sendable X B (Op_apply_batch_mut f n) \<longleftrightarrow>
     fits (fv f) 0 \<and> vt_mut X (fn_vtable (fv f)) = Some (VTABLE (fn_size (fv f)) (fn_align (fv f)) (batch_adapter (body f))) \<and>
     (\<forall>t. snd (call_fn f t) \<noteq> None)"
| "sendable X B (Op_launch R f) \<longleftrightarrow> linked_fn X R f \<and> ret_size R \<le> 1148 \<and> (\<forall>t. result_ok R (snd (call_fn f t)))"

lemma sendable_args:
  assumes "sendable X B x"
  obtains args where "op_args B x = Some args" "fits (op_fv x) (length args)"
  using assms by (cases x) (auto simp: linked_fn_def)

lemma op_write_sendable:
  assumes "op_args B x = Some args"
  shows "op_write B x c = write_request (op_tag x) (op_fv x) args (op_fix x) c"
  using assms by (simp add: op_write_def)

lemma repeat_returns: "\<forall>t. snd (g t) \<noteq> None \<Longrightarrow> snd (repeat_inline g n t) = Some ()"
proof (induction n arbitrary: t)
  case (Suc n)
  obtain t' u where "g t = (t', Some u)" using Suc.prems by (metis option.exhaust prod.collapse)
  then show ?case using Suc by simp
qed simp

text \<open>The answer of an operation that returns is one its record can carry.\<close>

fun carries :: "('t, 'v, 'r) client_op \<Rightarrow> 'r answer \<Rightarrow> bool" where
  "carries (Op_apply R f) (Value r) \<longleftrightarrow> codes R r \<and> ret_size R \<le> 1148"
| "carries (Op_apply_with R f w) (Value r) \<longleftrightarrow> codes R r \<and> ret_size R \<le> 1148"
| "carries (Op_with R f) (Value r) \<longleftrightarrow> codes R r \<and> ret_size R \<le> 1148"
| "carries (Op_launch R f) (Value r) \<longleftrightarrow> codes R r \<and> ret_size R \<le> 1148"
| "carries (Op_apply_batch_mut f n) Nothing \<longleftrightarrow> True"
| "carries _ _ \<longleftrightarrow> False"

lemma sendable_returns:
  assumes s: "sendable X B x" and e: "op_eval x t = (t', a)"
  shows "op_call x t = (t', Some a)" and "carries x a"
proof -
  have "op_call x t = (t', Some a) \<and> carries x a"
  proof (cases x)
    case (Op_apply R f)
    obtain t1 r where "call_fn f t = (t1, Some r)" "codes R r"
      using s Op_apply by (cases "call_fn f t") (auto simp: result_ok_def dest: spec[of _ t])
    then show ?thesis using s e Op_apply by (auto simp: op_eval_def)
  next
    case (Op_apply_with R f w)
    obtain t1 r where "call_fn_with f t w = (t1, Some r)" "codes R r"
      using s Op_apply_with by (cases "call_fn_with f t w") (auto simp: result_ok_def dest: spec[of _ t])
    then show ?thesis using s e Op_apply_with by (auto simp: op_eval_def)
  next
    case (Op_apply_batch_mut f n)
    have "snd (repeat_inline (call_fn f) (unat n) t) = Some ()" by (rule repeat_returns) (use s Op_apply_batch_mut in simp)
    then show ?thesis using e Op_apply_batch_mut
      by (cases "repeat_inline (call_fn f) (unat n) t") (auto simp: op_eval_def)
  next
    case (Op_with R f)
    obtain t1 r where "call_fn f t = (t1, Some r)" "codes R r"
      using s Op_with by (cases "call_fn f t") (auto simp: result_ok_def dest: spec[of _ t])
    then show ?thesis using s e Op_with by (auto simp: op_eval_def)
  next
    case (Op_launch R f)
    obtain t1 r where "call_fn f t = (t1, Some r)" "codes R r"
      using s Op_launch by (cases "call_fn f t") (auto simp: result_ok_def dest: spec[of _ t])
    then show ?thesis using s e Op_launch by (auto simp: op_eval_def)
  qed
  then show "op_call x t = (t', Some a)" "carries x a" by simp_all
qed

section \<open>Service\<close>

text \<open>What an answered operation leaves behind the response pointer.\<close>

fun op_after :: "('t, 'v, 'r) client_op \<Rightarrow> u8 list \<Rightarrow> 'r answer \<Rightarrow> u8 list" where
  "op_after (Op_apply R f) d (Value r) = after_result R d r"
| "op_after (Op_apply_with R f w) d (Value r) = after_result R d r"
| "op_after (Op_with R f) d (Value r) = after_result R d r"
| "op_after (Op_launch R f) d (Value r) = after_result R d r"
| "op_after x d a = d"

text \<open>A channel that holds the published request of an operation.\<close>

definition requested :: "'v codec \<Rightarrow> ChannelPair \<Rightarrow> ('t, 'v, 'r) client_op \<Rightarrow> bool \<Rightarrow> ChannelPair \<Rightarrow> bool" where
  "requested B c0 x b c \<longleftrightarrow>
     (\<exists>args. op_args B x = Some args \<and> request_of c0 (op_tag x) (op_fv x) args (op_fix x) b c)"

definition op_header :: "'v codec \<Rightarrow> ChannelPair \<Rightarrow> ('t, 'v, 'r) client_op \<Rightarrow> RequestRecordHeader" where
  "op_header B c x = op_fix x (encoded_header (request_writer c) (op_tag x) (op_fv x) (length (the (op_args B x))))"

lemma requested_facts:
  assumes "requested B c0 x b c"
  shows "wf_chan c" "posted c b (op_header B c0 x)" "resp_data c = resp_data c0" "op_header B c x = op_header B c0 x"
  using assms by (auto simp: requested_def request_of_def op_header_def resp_data_def request_writer_def)

lemma op_after_length:
  assumes "carries x a" "length d = 1148"
  shows "length (op_after x d a) = 1148"
  using assms by (cases "(x, a)" rule: carries.cases) (simp_all add: length_after_result)

lemma read_op:
  fixes x :: "('t, 'v, 'r) client_op"
  assumes r: "requested B c0 x b' c" and a: "carries x a"
  shows "op_read x (answered b (op_after x (resp_data c0) a) c) = Ok a"
proof -
  obtain args where ro: "request_of c0 (op_tag x) (op_fv x) args (op_fix x) b' c" using r by (auto simp: requested_def)
  have "read_response (ret_size R) (ret_dec R) (answered b (after_result R (resp_data c0) y) c) = Ok y"
    if "codes R y" "ret_size R \<le> 1148" for R :: "'r ret_type" and y
    by (rule read_after_call[OF ro that refl])
  then show ?thesis using a
    by (cases "(x, a)" rule: carries.cases) (simp_all add: read_value_def)
qed

lemma dispatch_op:
  assumes r: "requested B c0 x b c" and sn: "sendable X B x" and nl: "op_tag x \<noteq> Launch"
    and e: "op_eval x (prop_cell s) = (t, a)" and s: "chans s i = c"
  shows "dispatch_record X idx i b (op_header B c0 x) s =
    Next (upd_chan i (set_resp_data (op_after x (resp_data c0) a)) (s\<lparr> prop_cell := t \<rparr>), False)"
proof -
  note ca = sendable_returns[OF sn e]
  show ?thesis
  proof (cases x)
    case (Op_apply R f)
    then obtain y where l: "fits (fv f) 0" "vt_out X (fn_vtable (fv f)) = Some (VTABLE (fn_size (fv f)) (fn_align (fv f)) (apply_adapter R (body f)))"
      and a: "a = Value y" "call_fn f (prop_cell s) = (t, Some y)" "codes R y" "ret_size R \<le> 1148"
      using sn ca by (cases a) (auto simp: linked_fn_def apsnd_def map_prod_def split: prod.splits)
    have ro: "request_of c0 CallMutOutPtr (fv f) [] (\<lambda>h. h) b c"
      using r Op_apply by (auto simp: requested_def)
    show ?thesis using dispatch_apply[OF ro l a(3,4,2) s, of idx] by (simp add: Op_apply a(1) op_header_def)
  next
    case (Op_apply_with R f w)
    then obtain args y where l: "fits (fvw f) (length args)"
        "vt_args X (fn_vtable (fvw f)) = Some (VTABLE (fn_size (fvw f)) (fn_align (fvw f)) (apply_with_adapter R (bin_de B) (bodyw f)))"
        "bin_de B args = Some w" "bin_ser B w = Some args"
      and a: "a = Value y" "call_fn_with f (prop_cell s) w = (t, Some y)" "codes R y" "ret_size R \<le> 1148"
      using sn ca by (cases a) (auto simp: apsnd_def map_prod_def split: prod.splits)
    have ro: "request_of c0 CallMutArgsOutPtr (fvw f) args (\<lambda>h. h) b c"
      using r Op_apply_with l(4) by (auto simp: requested_def)
    show ?thesis using dispatch_apply_with[OF ro l(1-3) a(3,4,2) s, of idx] by (simp add: Op_apply_with a(1) op_header_def l(4))
  next
    case (Op_apply_batch_mut f n)
    then have l: "fits (fv f) 0" "vt_mut X (fn_vtable (fv f)) = Some (VTABLE (fn_size (fv f)) (fn_align (fv f)) (batch_adapter (body f)))"
      using sn by simp_all
    have a: "a = Nothing" "repeat_inline (call_fn f) (unat n) (prop_cell s) = (t, Some ())"
      using ca Op_apply_batch_mut by (cases a, auto simp: apsnd_def map_prod_def split: prod.splits)+
    have ro: "request_of c0 CallMutRetUnit (fv f) [] (\<lambda>h. h\<lparr> repeat_count := ucast n \<rparr>) b c"
      using r Op_apply_batch_mut by (auto simp: requested_def)
    show ?thesis using dispatch_batch[OF ro l a(2) s, of idx] by (simp add: Op_apply_batch_mut a(1) op_header_def)
  next
    case (Op_with R f)
    then obtain y where l: "fits (fv f) 0" "vt_out X (fn_vtable (fv f)) = Some (VTABLE (fn_size (fv f)) (fn_align (fv f)) (apply_adapter R (body f)))"
      and a: "a = Value y" "call_fn f (prop_cell s) = (t, Some y)" "codes R y" "ret_size R \<le> 1148"
      using sn ca by (cases a) (auto simp: linked_fn_def apsnd_def map_prod_def split: prod.splits)
    have ro: "request_of c0 CallMutOutPtr (fv f) [] (\<lambda>h. h) b c"
      using r Op_with by (auto simp: requested_def)
    show ?thesis using dispatch_apply[OF ro l a(3,4,2) s, of idx] by (simp add: Op_with a(1) op_header_def)
  next
    case (Op_launch R f)
    then show ?thesis using nl by simp
  qed
qed

text \<open>The job of a launch.\<close>

lemma run_launched:
  assumes x: "x = Op_launch R f" and r: "requested B c0 x b c" and sn: "sendable X B x"
    and e: "op_eval x (prop_cell s) = (t, a)" and s: "chans s i = c"
    and job: "job = \<lparr> job_chan = i, job_hdr = op_header B c0 x, job_req_ready = b \<rparr>"
  shows "run_launch_job X job s = Inr (drop_prop_arc (s\<lparr> prop_cell := t,
    chans := (chans s)(i := answered b (op_after x (resp_data c0) a) c) \<rparr>), False)"
proof -
  note ca = sendable_returns[OF sn e]
  obtain y where l: "fits (fv f) 0" "vt_out X (fn_vtable (fv f)) = Some (VTABLE (fn_size (fv f)) (fn_align (fv f)) (apply_adapter R (body f)))"
    and a: "a = Value y" "call_fn f (prop_cell s) = (t, Some y)" "codes R y" "ret_size R \<le> 1148"
    using sn ca x by (cases a) (auto simp: linked_fn_def apsnd_def map_prod_def split: prod.splits)
  have ro: "request_of c0 Launch (fv f) [] (\<lambda>h. h) b c" using r x by (auto simp: requested_def)
  have j: "job = \<lparr> job_chan = i, job_hdr = encoded_header (request_writer c0) Launch (fv f) 0, job_req_ready = b \<rparr>"
    by (simp add: job op_header_def x)
  show ?thesis using run_launch_job_returns[OF ro l a(3,4,2) s j] by (simp add: a(1) x)
qed

text \<open>The codec of the small program of Remote\_Trust: words as their bytes.\<close>

definition demo_codec :: "u64 codec" where
  "demo_codec = \<lparr> bin_ser = (\<lambda>v. Some (le_bytes 8 v)), bin_de = dec_word \<rparr>"

end
