(* ===== verification/Runtime_Drop.thy ===== *)
theory Runtime_Drop
  imports Fiber_Pool
begin

text \<open>
  Dropping a runtime (src/runtime/runtime.rs, \<open>Drop\<close>): the terminate record on a channel of its own
  reaches the worker after a bounded number of rounds and makes it leave its loop for the join of
  its fibers.
\<close>

section \<open>The terminate record\<close>

lemma runtime_drop_posts:
  assumes q: "seg_queue items (reg_push X) (reg_pop X)" and c: "calm items s"
  obtains s' where "runtime_drop X b s = Ok s'" "n_chans s \<in> set (registered items s')"
    "resting items {n_chans s} s'" "posted (chans s' (n_chans s)) True terminate_header"
    "\<exists>c. s' = (snd (entrust_handle X b False s))\<lparr> chans := c \<rparr>"
proof -
  let ?i = "n_chans s"
  obtain r s2 where h: "entrust_handle X b False s = (r, s2)" by force
  have s2: "s2 = register X ?i (snd (new_chan b s))" "chans s2 ?i = ChannelPair_default (arc_address b)"
    using h by (auto simp: entrust_handle_def new_chan_def register_def Let_def)
  have calm2: "calm items s2" by (rule entrust_handle_calm[OF q c h])
  have i: "?i \<in> set (registered items s2)" using entrust_handle_registered(1)[OF q h] by simp
  let ?c = "chans s2 ?i"
  have wf: "wf_chan ?c" by (simp add: s2(2))
  have hl: "length (hdr_bytes terminate_header) = 40" by (rule hdr_layout.enc_length)
  obtain m where m: "write_at 8 (hdr_bytes terminate_header) (request ?c) = Some m"
    using write_at_Some_iff[of 8 "hdr_bytes terminate_header" "request ?c"] hl wf by (auto simp: wf_chan_def)
  have lm: "length m = 1152" using write_at_length[OF m] wf by (simp add: wf_chan_def)
  have "load_flags (response (ChannelPair_default (arc_address b))) = 0" "load_flags (request (ChannelPair_default (arc_address b))) = 0"
    by (simp_all add: load_flags_def default_defs numeral_nat)
  then have nr: "\<not> ready (load_flags (response ?c))" by (simp add: s2(2) header_word_defs)
  let ?c2 = "set_req_flags (pack_ready_count True 1) (?c\<lparr> request := m \<rparr>)"
  let ?s = "s2\<lparr> chans := (chans s2)(?i := ?c2) \<rparr>"
  have pub: "publish (?c\<lparr> request := m \<rparr>) = (True, ?c2)" using nr by (simp add: publish_def Let_def)
  have "write_unaligned hdr_bytes (unat hdr_offset) terminate_header (request ?c) = Ok m"
    using m by (simp add: write_unaligned_def)
  then have d: "runtime_drop X b s = Ok ?s"
    using pub s2(1) by (simp add: runtime_drop_def new_chan_def Let_def)
  have wf2: "wf_chan ?c2" "response ?c2 = response ?c"
    using wf lm by (simp_all add: wf_chan_def set_req_flags_def length_store_flags)
  have post: "posted ?c2 True terminate_header"
    using read_at_write_same[OF m, of 40] hl lm nr
    by (simp add: posted_def set_req_flags_def load_store_flags read_at_store_flags)
  show ?thesis
  proof (rule that[OF d])
    show "n_chans s \<in> set (registered items ?s)" using i by (simp add: registered_def)
    show "resting items {n_chans s} ?s" by (rule published_resting[OF calm2 i wf2])
    show "posted (chans ?s ?i) True terminate_header" using post by simp
    show "\<exists>c. ?s = (snd (entrust_handle X b False s))\<lparr> chans := c \<rparr>" using h by auto
  qed
qed

section \<open>Rounds until the worker leaves its loop\<close>

fun run_system :: "('t, 'q, 'p) world \<Rightarrow> nat \<Rightarrow> ('t, 'q, 'p) rt \<Rightarrow> ('t, 'q, 'p) rt flow" where
  "run_system X 0 s = Next s"
| "run_system X (Suc k) s =
     (case system_step X s of
        Next s' \<Rightarrow> run_system X k s' | Halt s' \<Rightarrow> Halt s' | Undefined u \<Rightarrow> Undefined u | Diverge \<Rightarrow> Diverge)"

context worker_queue
begin

lemma terminate_reaches:
  assumes "resting items {i} s" "i \<in> set (registered items s)" "posted (chans s i) b terminate_header"
  shows "\<exists>k s0. k \<le> distance items s + 1 \<and> run_system X k s = Next (s0\<lparr> status := Terminating \<rparr>) \<and>
    tidied items s s0"
  using assms
proof (induction "distance items s" arbitrary: s rule: less_induct)
  case less
  have run: "status s = Running" using less.prems(1) by (simp add: resting_def)
  show ?case
  proof (cases "i \<in> set (map cp_chan (clients (polled s)))")
    case True
    obtain idx n js s0 where t: "tidied items s s0"
      and w: "worker_round X s = round_end i b idx n js (dispatch_record X idx i b terminate_header s0)"
      by (rule round_served[OF less.prems(1) True less.prems(3)])
    have "worker_round X s = Halt (s0\<lparr> status := Terminating \<rparr>)"
      unfolding w by (simp add: round_end_def dispatch_record_def serve_Terminate_def terminate_header_def)
    then have "run_system X 1 s = Next (s0\<lparr> status := Terminating \<rparr>)"
      using run by (simp add: system_step_def after_round_def)
    then show ?thesis using t by (intro exI[of _ 1] exI[of _ s0]) simp
  next
    case False
    obtain s' where w: "worker_round X s = Next s'" and t: "tidied items s s'"
      and r: "resting items {i} s'" and d: "distance items s' < distance items s"
      using round_unserved[OF less.prems(1,2) False] by blast
    have ss: "system_step X s = Next s'"
      using w r run after_round_idle[of s' X] by (simp add: system_step_def resting_def)
    have "i \<in> set (registered items s')" "posted (chans s' i) b terminate_header"
      using less.prems tidied_registered[OF t] t moved_simps(1)[of s s'] by (simp_all add: tidied_def)
    from less.hyps[OF d r this] obtain k s0 where k: "k \<le> distance items s' + 1"
      "run_system X k s' = Next (s0\<lparr> status := Terminating \<rparr>)" "tidied items s' s0" by blast
    have "run_system X (Suc k) s = Next (s0\<lparr> status := Terminating \<rparr>)" using ss k(2) by simp
    then show ?thesis using k d tidied_trans[OF t k(3)] by (intro exI[of _ "Suc k"] exI[of _ s0]) simp
  qed
qed

end

section \<open>Reachability of system steps\<close>

lemma fibers_turn_reachable:
  "rt_reachable pitems X s \<Longrightarrow> fibers_turn X fs s = Inr s' \<Longrightarrow> rt_reachable pitems X s'"
proof (induction fs arbitrary: s)
  case (Cons f fs)
  then obtain s1 where "fiber_turn X f s = Inr s1" "fibers_turn X fs s1 = Inr s'" by (auto split: sum.splits)
  then show ?case using Cons.IH[OF rt_reachable.step[OF Cons.prems(1) rt_step.fiber]] by blast
qed simp

lemma system_step_reachable:
  assumes r: "rt_reachable pitems X s" and st: "system_step X s = Next s'"
  shows "rt_reachable pitems X s'"
proof (cases "status s = Running")
  case False
  then show ?thesis using assms fibers_turn_reachable
    by (auto simp: system_step_def after_round_def split: sum.splits)
next
  case True
  show ?thesis
  proof (cases "worker_round X s")
    case (Next s1)
    have "rt_reachable pitems X s1" by (rule rt_reachable.step[OF r rt_step.worker_next[OF True Next]])
    then show ?thesis using st True Next fibers_turn_reachable
      by (auto simp: system_step_def after_round_def split: sum.splits)
  next
    case (Halt s1)
    have "rt_reachable pitems X s1" by (rule rt_reachable.step[OF r rt_step.worker_halt[OF True Halt]])
    then show ?thesis using st True Halt by (simp add: system_step_def after_round_def)
  qed (use st True in \<open>simp_all add: system_step_def after_round_def\<close>)
qed

lemma run_system_reachable:
  "rt_reachable pitems X s \<Longrightarrow> run_system X k s = Next s' \<Longrightarrow> rt_reachable pitems X s'"
  by (induction k arbitrary: s) (auto split: flow.splits intro: system_step_reachable)

lemma await_reachable:
  assumes "rt_reachable pitems X s" "await_response X fuel w i b s = Arrived s'"
  shows "rt_reachable pitems X s'"
  using assms
proof (induction fuel arbitrary: w s)
  case (Suc fuel)
  then show ?case
    using system_step_reachable[OF Suc.prems(1)] by (auto split: if_splits flow.splits)
qed simp

text \<open>Every state that an answered operation leaves is one the runtime can reach.\<close>

lemma delegate_reachable:
  assumes r: "rt_reachable pitems X s" and d: "delegate X fuel i p f args fix_hdr read s = (Returned x, s')"
  shows "rt_reachable pitems X s'"
proof -
  obtain c1 b c2 where "write_request p f args fix_hdr (chans s i) = Ok c1" and pub: "publish c1 = (b, c2)"
    and dl: "deliver i read (s\<lparr> chans := (chans s)(i := c2) \<rparr>)
      (await_response X fuel hot i b (s\<lparr> chans := (chans s)(i := c2) \<rparr>)) = (Returned x, s')"
    using d by (auto simp: delegate_def Let_def split: outcome.splits prod.splits)
  have r1: "rt_reachable pitems X (s\<lparr> chans := (chans s)(i := c2) \<rparr>)"
    by (rule rt_reachable.step[OF r rt_step.client_write])
  show ?thesis
    using dl await_reachable[OF r1, of fuel hot i b]
    by (cases "await_response X fuel hot i b (s\<lparr> chans := (chans s)(i := c2) \<rparr>)") auto
qed

lemma runtime_drop_reachable:
  assumes "rt_reachable pitems X s" "s' = (snd (entrust_handle X b own s))\<lparr> chans := c \<rparr>"
  shows "rt_reachable pitems X s'"
proof -
  obtain r s2 where h: "entrust_handle X b own s = (r, s2)" by force
  have "rt_reachable pitems X s2" by (rule rt_reachable.step[OF assms(1) rt_step.handle[OF h]])
  then show ?thesis using assms(2) h rt_reachable.step[OF _ rt_step.client_write] by simp
qed

section \<open>Properties\<close>

text \<open>C16. Dropping a runtime makes its worker stop serving: from a calm system the terminate record is
  written without a fault, and after at most as many rounds as its registration needs the worker
  has left its loop to join its fibers, with the property and every reference to it as they
  were.\<close>

theorem drop_stops_worker:
  assumes "seg_queue items (reg_push X) (reg_pop X)" "calm items s"
  shows "\<exists>s1 k s2. runtime_drop X b s = Ok s1 \<and> k \<le> distance items s1 + 1 \<and> run_system X k s1 = Next s2 \<and>
    status s2 = Terminating \<and> prop_cell s2 = prop_cell s \<and> prop_arcs s2 = prop_arcs s \<and>
    prop_drops s2 = prop_drops s \<and> fibers s2 = fibers s"
proof -
  obtain s1 where d: "runtime_drop X b s = Ok s1" and i: "n_chans s \<in> set (registered items s1)"
    and r: "resting items {n_chans s} s1" and p: "posted (chans s1 (n_chans s)) True terminate_header"
    and s1: "\<exists>c. s1 = (snd (entrust_handle X b False s))\<lparr> chans := c \<rparr>"
    by (rule runtime_drop_posts[OF assms])
  obtain k s0 where k: "k \<le> distance items s1 + 1" "run_system X k s1 = Next (s0\<lparr> status := Terminating \<rparr>)"
    and t: "tidied items s1 s0"
    using worker_queue.terminate_reaches[OF worker_queue.intro[OF assms(1)] r i p] by blast
  have "prop_cell s1 = prop_cell s" "prop_arcs s1 = prop_arcs s" "prop_drops s1 = prop_drops s" "fibers s1 = fibers s"
    using s1 by (auto simp: entrust_handle_def new_chan_def register_def Let_def)
  then show ?thesis using d k t moved_simps[of s1 s0] by (intro exI[of _ s1] exI[of _ k] exI) (auto simp: tidied_def)
qed

theorem drop_stops_worker_witness:
  "\<exists>s1 k s2. runtime_drop demo_world 0x20000 (snd demo) = Ok s1 \<and> run_system demo_world k s1 = Next s2 \<and>
    status s2 = Terminating \<and> prop_cell s2 = 5"
  using drop_stops_worker[OF demo_queue demo_calm, where b = "0x20000"] by auto

text \<open>A runtime on its way down, for later use.\<close>

lemma demo_terminating:
  "\<exists>s. rt_reachable (\<lambda>p. p) demo_world s \<and> status s = Terminating \<and> n_fibers s = 0 \<and> fiber_pool s = []"
proof -
  obtain s1 where d: "runtime_drop demo_world 0x20000 (snd demo) = Ok s1" and i: "n_chans (snd demo) \<in> set (registered (\<lambda>q. q) s1)"
    and r: "resting (\<lambda>q. q) {n_chans (snd demo)} s1" and p: "posted (chans s1 (n_chans (snd demo))) True terminate_header"
    and s1: "\<exists>c. s1 = (snd (entrust_handle demo_world 0x20000 False (snd demo)))\<lparr> chans := c \<rparr>"
    by (rule runtime_drop_posts[OF demo_queue demo_calm])
  have r1: "rt_reachable (\<lambda>p. p) demo_world s1" using s1 runtime_drop_reachable[OF demo_reachable] by blast
  have e: "n_fibers s1 = 0" "fiber_pool s1 = []"
    using s1 by (auto simp: entrust_handle_def new_chan_def register_def Let_def demo_def remote_entrust_def
        spawn_with_pin_def worker_start_def)
  obtain k s0 where k: "run_system demo_world k s1 = Next (s0\<lparr> status := Terminating \<rparr>)" and t: "tidied (\<lambda>q. q) s1 s0"
    using demo_system.terminate_reaches[OF r i p] by blast
  have "rt_reachable (\<lambda>p. p) demo_world (s0\<lparr> status := Terminating \<rparr>)" by (rule run_system_reachable[OF r1 k])
  moreover have "n_fibers s0 = 0" "fiber_pool s0 = []" using t moved_simps[of s1 s0] e by (simp_all add: tidied_def)
  ultimately show ?thesis by (intro exI[of _ "s0\<lparr> status := Terminating \<rparr>"]) simp
qed

end
