(* ===== verification/Handle_Sessions.thy ===== *)
theory Handle_Sessions
  imports Client_Ops Runtime_Drop Remote_Guards
begin

text \<open>
  Sessions of operations on one handle (src/trust/local.rs, remote.rs, common.rs): any sequence of
  \<open>apply\<close>, \<open>apply_with\<close>, \<open>with\<close>, \<open>apply_batch_mut\<close> and \<open>launch\<close> on a remote handle, on its wrapper and
  on a local trust, and the same sequence on the thread of the trustee itself.
\<close>

section \<open>The operations of a local trust\<close>

fun local_op :: "('t, 'v, 'r) client_op \<Rightarrow> 't Local \<Rightarrow> 'r answer reply \<times> 't Local" where
  "local_op (Op_apply R f) l = then_run (local_apply (call_fn f) l) Value"
| "local_op (Op_apply_with R f w) l = then_run (local_apply_with (call_fn_with f) w l) Value"
| "local_op (Op_with R f) l = then_run (local_with (call_fn f) l) Value"
| "local_op (Op_apply_batch_mut f n) l = then_run (local_apply_batch_mut (call_fn f) n l) (\<lambda>_. Nothing)"
| "local_op (Op_launch R f) l = then_run (local_launch (call_fn f) l) Value"

lemma local_op_call: "local_op x l = local_call (op_call x (inner l)) l"
  by (cases x) (auto simp: local_apply_def local_apply_with_def local_with_def local_apply_batch_mut_def
      local_launch_def local_call_def split: prod.split option.split)

interpretation local_ops: trust_like op_call inner "\<lambda>_. True" "\<lambda>_. True" "\<lambda>_ _. True" local_op
  by unfold_locales (simp add: local_op_call local_call_def)

text \<open>A local session in which no closure panics is the specification's.\<close>

lemma local_session_spec:
  "run_session local_op xs l = (map Returned as, l') \<Longrightarrow> spec_session op_call xs (inner l) = Some (as, inner l')"
proof (induction xs arbitrary: l as)
  case Nil
  then show ?case by simp
next
  case (Cons x xs)
  obtain rep l1 where o: "local_op x l = (rep, l1)" by force
  obtain reps l2 where r: "run_session local_op xs l1 = (reps, l2)" by force
  obtain a as' where as: "as = a # as'" "rep = Returned a" "reps = map Returned as'" "l2 = l'"
    using Cons.prems o r by (cases as) auto
  have "op_call x (inner l) = (inner l1, Some a)"
    using o as(2) by (auto simp: local_op_call local_call_def split: prod.splits option.splits)
  then show ?case using Cons.IH[of l1 as'] r as by simp
qed

section \<open>The operations of a remote handle\<close>

text \<open>The operation's closure is linked into the program and fits the slot, and its arguments
  survive the serialisation; whether it returns depends on the property.\<close>

fun linked_op :: "('t, 'q, 'p) world \<Rightarrow> 'v codec \<Rightarrow> ('t, 'v, 'r) client_op \<Rightarrow> bool" where
  "linked_op X B (Op_apply R f) \<longleftrightarrow> linked_fn X R f"
| "linked_op X B (Op_apply_with R f w) \<longleftrightarrow>
     (\<exists>args. bin_ser B w = Some args \<and> bin_de B args = Some w \<and> fits (fvw f) (length args) \<and>
        vt_args X (fn_vtable (fvw f)) = Some (VTABLE (fn_size (fvw f)) (fn_align (fvw f)) (apply_with_adapter R (bin_de B) (bodyw f))))"
| "linked_op X B (Op_with R f) \<longleftrightarrow> linked_fn X R f"
| "linked_op X B (Op_apply_batch_mut f n) \<longleftrightarrow>
     fits (fv f) 0 \<and> vt_mut X (fn_vtable (fv f)) = Some (VTABLE (fn_size (fv f)) (fn_align (fv f)) (batch_adapter (body f)))"
| "linked_op X B (Op_launch R f) \<longleftrightarrow> linked_fn X R f"

text \<open>A handle ready for any operation: usable, in a system that has run from its start.\<close>

definition handle_ready ::
    "('q \<Rightarrow> ClientPair list) \<Rightarrow> ('p \<Rightarrow> nat list) \<Rightarrow> ('t, 'q, 'p) world \<Rightarrow> nat \<Rightarrow> caller \<Rightarrow> remote \<Rightarrow>
     ('t, 'q, 'p) rt \<Rightarrow> bool" where
  "handle_ready items pitems X fuel th rm s \<longleftrightarrow> handle_usable items fuel th rm s \<and> rt_reachable pitems X s"

locale ready_handle = launch_queues items X pitems
  for items :: "'q \<Rightarrow> ClientPair list" and X :: "('t, 'q, 'p) world" and pitems :: "'p \<Rightarrow> nat list" +
  fixes fuel :: nat and th :: caller and rm :: remote and B :: "'v codec"
  assumes client_thread: "\<not> caller_trustee th"
begin

lemma ready_facts:
  assumes "handle_ready items pitems X fuel th rm s"
  shows "calm items s" "r_chan rm \<in> set (registered items s)" "\<not> on_owning_trustee th s" "distance items s + 2 \<le> fuel"
    "pool_ok pitems s" "1 \<le> prop_arcs s"
proof -
  show u: "calm items s" "r_chan rm \<in> set (registered items s)" "\<not> on_owning_trustee th s" "distance items s + 2 \<le> fuel"
    using assms distance_registered[of items s] by (auto simp: handle_ready_def handle_usable_def)
  have "pool_inv pitems s" using assms pool_inv_reachable by (simp add: handle_ready_def)
  then show "pool_ok pitems s" "1 \<le> prop_arcs s"
    using u(1) by (auto simp: pool_inv_defs calm_def resting_def)
qed

text \<open>What a delegation that returned leaves: the handle is ready again.\<close>

lemma ready_again:
  assumes r: "handle_ready items pitems X fuel th rm s"
    and d: "delegate X fuel (r_chan rm) p f args fix_hdr read s = (Returned a, s')"
    and s': "calm items s'" "op_frame items (r_chan rm) s s'"
  shows "handle_ready items pitems X fuel th rm s'"
proof -
  have "registered items s' = registered items s" using s'(2) by (simp add: op_frame_def)
  then show ?thesis
    using r s'(1) op_frame_owner[OF s'(2)] delegate_reachable[OF _ d] by (simp add: handle_ready_def handle_usable_def)
qed

lemma handle_op:
  assumes r: "handle_ready items pitems X fuel th rm s" and l: "linked_op X B x"
    and e: "op_call x (prop_cell s) = (t, Some a)" and ca: "carries x a"
  shows "\<exists>s'. remote_op X fuel th rm B x s = (Returned a, s') \<and> handle_ready items pitems X fuel th rm s' \<and> prop_cell s' = t"
proof -
  note s = ready_facts[OF r]
  have th: "\<not> caller_trustee th" by (rule client_thread)
  have again: ?thesis
    if "delegate X fuel (r_chan rm) p f args fix_hdr read s = (Returned y, s')" "prop_cell s' = t" "calm items s'"
      "op_frame items (r_chan rm) s s'" "remote_op X fuel th rm B x s = then_run (Returned y, s') k" "k y = a"
    for p f args fix_hdr and read :: "ChannelPair \<Rightarrow> 'z outcome" and y s' k
    using that ready_again[OF r that(1,3,4)] by auto
  show ?thesis
  proof (cases x)
    case (Op_apply R f)
    then obtain y where f: "fits (fv f) 0" "vt_out X (fn_vtable (fv f)) = Some (VTABLE (fn_size (fv f)) (fn_align (fv f)) (apply_adapter R (body f)))"
      and y: "a = Value y" "codes R y" "ret_size R \<le> 1148" "call_fn f (prop_cell s) = (t, Some y)"
      using l ca e by (cases a) (auto simp: linked_fn_def apsnd_def map_prod_def split: prod.splits)
    show ?thesis using delegate_apply[OF s(1,2) f(1) y(2,3) f(2) y(4) s(4)] again s(3) th Op_apply y(1)
      by (fastforce simp: remote_apply_def)
  next
    case (Op_apply_with R f w)
    then obtain args y where f: "bin_ser B w = Some args" "bin_de B args = Some w" "fits (fvw f) (length args)"
        "vt_args X (fn_vtable (fvw f)) = Some (VTABLE (fn_size (fvw f)) (fn_align (fvw f)) (apply_with_adapter R (bin_de B) (bodyw f)))"
      and y: "a = Value y" "codes R y" "ret_size R \<le> 1148" "call_fn_with f (prop_cell s) w = (t, Some y)"
      using l ca e by (cases a) (auto simp: apsnd_def map_prod_def split: prod.splits)
    show ?thesis using delegate_apply_with[OF s(1,2) f(3) y(2,3) f(4,2) y(4) s(4)] again s(3) th Op_apply_with y(1) f(1)
      by (fastforce simp: remote_apply_with_def)
  next
    case (Op_with R f)
    then obtain y where f: "fits (fv f) 0" "vt_out X (fn_vtable (fv f)) = Some (VTABLE (fn_size (fv f)) (fn_align (fv f)) (apply_adapter R (body f)))"
      and y: "a = Value y" "codes R y" "ret_size R \<le> 1148" "call_fn f (prop_cell s) = (t, Some y)"
      using l ca e by (cases a) (auto simp: linked_fn_def apsnd_def map_prod_def split: prod.splits)
    show ?thesis using delegate_apply[OF s(1,2) f(1) y(2,3) f(2) y(4) s(4)] again s(3) th Op_with y(1)
      by (fastforce simp: remote_with_def)
  next
    case (Op_apply_batch_mut f n)
    then have f: "fits (fv f) 0" "vt_mut X (fn_vtable (fv f)) = Some (VTABLE (fn_size (fv f)) (fn_align (fv f)) (batch_adapter (body f)))"
      using l by simp_all
    have y: "a = Nothing" "repeat_inline (call_fn f) (unat n) (prop_cell s) = (t, Some ())"
      using ca e Op_apply_batch_mut by (cases a, auto simp: apsnd_def map_prod_def split: prod.splits)+
    show ?thesis using delegate_batch[OF s(1,2) f y(2) s(4)] again s(3) th Op_apply_batch_mut y(1)
      by (fastforce simp: remote_apply_batch_mut_def)
  next
    case (Op_launch R f)
    then obtain y where f: "fits (fv f) 0" "vt_out X (fn_vtable (fv f)) = Some (VTABLE (fn_size (fv f)) (fn_align (fv f)) (apply_adapter R (body f)))"
      and y: "a = Value y" "codes R y" "ret_size R \<le> 1148" "call_fn f (prop_cell s) = (t, Some y)"
      using l ca e by (cases a) (auto simp: linked_fn_def apsnd_def map_prod_def split: prod.splits)
    show ?thesis using delegate_launch[OF s(1,2,5,6) f(1) y(2,3) f(2) y(4) s(4)] again Op_launch y(1)
      by (fastforce simp: remote_launch_def)
  qed
qed

end

sublocale ready_handle \<subseteq> ops: trust_like op_call prop_cell "handle_ready items pitems X fuel th rm" "linked_op X B"
    carries "remote_op X fuel th rm B"
  by unfold_locales (rule handle_op)

section \<open>The shortcut\<close>


section \<open>Properties\<close>

text \<open>C5. A remote trust is a local trust with a longer way: any sequence of \<open>apply\<close>, \<open>apply_with\<close>,
  \<open>with\<close>, \<open>apply_batch_mut\<close> and \<open>launch\<close>, with results of any types, that runs on a local trust without
  a panic gives on a remote handle that holds the same value - each operation delegated through the
  channel - the same results and the same final value, on the handle itself and through the wrapper.\<close>

theorem remote_session_refines_local:
  assumes "launch_queues items X pitems" "\<not> caller_trustee th"
    and "handle_ready items pitems X fuel th rm s" "\<forall>x \<in> set xs. linked_op X B x"
    and "run_session local_op xs (local_entrust (prop_cell s)) = (map Returned as, l)" "list_all2 carries xs as"
  shows "\<exists>s'. run_session (remote_op X fuel th rm B) xs s = (map Returned as, s') \<and>
     local_into_inner l = prop_cell s' \<and> handle_ready items pitems X fuel th rm s' \<and>
     run_session (\<lambda>x. trust_call (remote_op X fuel th rm B x)) xs (Trust_new s) = (map Returned as, Trust_new s')"
proof -
  have rh: "ready_handle items X pitems th"
    using assms(1,2) by (intro ready_handle.intro ready_handle_axioms.intro)
  have tl: "trust_like op_call prop_cell (handle_ready items pitems X fuel th rm) (linked_op X B) carries
      (remote_op X fuel th rm B)"
    by (rule trust_like.intro, rule ready_handle.handle_op[OF rh])
  have sp: "spec_session op_call xs (prop_cell s) = Some (as, inner l)"
    using local_session_spec[OF assms(5)] by (simp add: local_entrust_def)
  obtain s' where "run_session (remote_op X fuel th rm B) xs s = (map Returned as, s')"
      "handle_ready items pitems X fuel th rm s'" "prop_cell s' = inner l"
    using trust_like.session[OF tl assms(3,4) sp assms(6)] by blast
  then show ?thesis by (auto simp: run_session_wrapped local_into_inner_def)
qed

text \<open>One operation of each kind, on the small program.\<close>

definition demo_session :: "(u64, u64, u64) client_op list" where
  "demo_session = [Op_apply u64_ret (add_fn 3), Op_apply_with u64_ret add_with_fn 4, Op_with u64_ret (add_fn 0),
     Op_apply_batch_mut inc_fn 2, Op_launch u64_ret (add_fn 5)]"

lemma demo_session_linked: "\<forall>x \<in> set demo_session. linked_op demo_world demo_codec x"
proof -
  have "dec_word (le_bytes 8 (4 :: u64)) = Some (4 :: u64)" by (rule u64_layout.dec_enc)
  then show ?thesis
    using demo_linked demo_fits by (simp add: demo_session_def demo_codec_def demo_world_def inc_fn_def add_with_fn_def)
qed

lemma demo_session_local:
  "run_session local_op demo_session (local_entrust 5) =
     (map Returned [Value 5, Value 8, Value 12, Nothing, Value 14], \<lparr> inner = 19 \<rparr>)"
proof -
  have "repeat_inline (call_fn inc_fn) 2 (12 :: u64) = (14, Some ())"
    by (simp add: numeral_2_eq_2 call_fn_def inc_fn_def inc_body_def del: le_bytes.simps)
  then show ?thesis
    by (simp add: demo_session_def local_op_call local_call_def local_entrust_def call_fn_def call_fn_with_def
        add_fn_def add_body_def add_with_fn_def add_with_body_def del: le_bytes.simps)
qed

theorem remote_session_refines_local_witness:
  "\<exists>s'. run_session (remote_op demo_world 40 client_thread (fst demo) demo_codec) demo_session (snd demo) =
       (map Returned [Value 5, Value 8, Value 12, Nothing, Value 14], s') \<and> prop_cell s' = 19"
proof -
  have r: "handle_ready (\<lambda>q. q) (\<lambda>p. p) demo_world 40 client_thread (fst demo) (snd demo)"
    using demo_usable demo_reachable by (simp add: handle_ready_def)
  have l: "run_session local_op demo_session (local_entrust (prop_cell (snd demo))) =
      (map Returned [Value 5, Value 8, Value 12, Nothing, Value 14], \<lparr> inner = 19 \<rparr>)"
    using demo_session_local by simp
  have "list_all2 carries demo_session [Value 5, Value 8, Value 12, Nothing, Value (14 :: u64)]"
    using wf_ret_codes[OF u64_ret_wf(1)] by (simp add: demo_session_def)
  from remote_session_refines_local[OF demo_launch.launch_queues_axioms demo_not_owner(2) r demo_session_linked l this]
  show ?thesis by (auto simp: local_into_inner_def)
qed



end
