(* ===== verification/Shutdown.thy ===== *)
theory Shutdown
  imports Runtime_Drop
begin

text \<open>
  The end of a runtime (src/runtime/runtime.rs): what happens after the worker has read a terminate
  record. A terminator fiber sends a shutdown to every fiber it finds in the pool while the worker
  joins its fibers one after the other; then the worker sets a flag, the terminator sweeps the
  pool once more and ends, and the worker joins it and returns. Fibers, terminator, worker and
  clients interleave.
\<close>

section \<open>Steps\<close>

text \<open>The runtime, the number of fibers joined, the flag \<open>done\<close>, and whether the terminator has
  ended.\<close>

record ('t, 'q, 'p) shutdown =
  sd :: "('t, 'q, 'p) rt"
  joined :: nat
  done_flag :: bool
  terminator_exited :: bool

definition shutdown_start :: "('t, 'q, 'p) rt \<Rightarrow> ('t, 'q, 'p) shutdown" where
  "shutdown_start s = \<lparr> sd = s, joined = 0, done_flag = False, terminator_exited = False \<rparr>"

text \<open>The terminator's send; its failure is ignored.\<close>

definition tell_shutdown :: "nat \<Rightarrow> ('t, 'q, 'p) rt \<Rightarrow> ('t, 'q, 'p) rt" where
  "tell_shutdown tx s = (case send_job tx Shutdown s of Some s' \<Rightarrow> s' | None \<Rightarrow> s)"

text \<open>The loop of the terminator and its last sweep send alike; they differ in what follows an
  empty pool, where the loop sleeps and goes on and the sweep ends.\<close>

inductive shutdown_step ::
    "('t, 'q, 'p) world \<Rightarrow> ('t, 'q, 'p) shutdown \<Rightarrow> ('t, 'q, 'p) shutdown \<Rightarrow> bool" for X where
  fiber_works: "inbox (fibers (sd s) f) \<noteq> [] \<Longrightarrow> \<not> exited (fibers (sd s) f) \<Longrightarrow> fiber_turn X f (sd s) = Inr s' \<Longrightarrow>
    shutdown_step X s (s\<lparr> sd := s' \<rparr>)"
| terminator_sends: "\<not> terminator_exited s \<Longrightarrow> pool_pop X (fiber_pool (sd s)) = Some (tx, p) \<Longrightarrow>
    shutdown_step X s (s\<lparr> sd := tell_shutdown tx ((sd s)\<lparr> fiber_pool := p \<rparr>) \<rparr>)"
| terminator_ends: "done_flag s \<Longrightarrow> \<not> terminator_exited s \<Longrightarrow> pool_pop X (fiber_pool (sd s)) = None \<Longrightarrow>
    shutdown_step X s (s\<lparr> terminator_exited := True \<rparr>)"
| worker_joins: "status (sd s) = Terminating \<Longrightarrow> joined s < length (fiber_handles (sd s)) \<Longrightarrow>
    exited (fibers (sd s) (fiber_handles (sd s) ! joined s)) \<Longrightarrow>
    shutdown_step X s (s\<lparr> joined := Suc (joined s) \<rparr>)"
| worker_signals: "status (sd s) = Terminating \<Longrightarrow> joined s = length (fiber_handles (sd s)) \<Longrightarrow> \<not> done_flag s \<Longrightarrow>
    shutdown_step X s (s\<lparr> done_flag := True \<rparr>)"
| worker_returns: "status (sd s) = Terminating \<Longrightarrow> done_flag s \<Longrightarrow> terminator_exited s \<Longrightarrow>
    shutdown_step X s (s\<lparr> sd := leave_worker Exited (sd s) \<rparr>)"

text \<open>What goes on beside: writes of clients and new handles.\<close>

inductive shutdown_env ::
    "('t, 'q, 'p) world \<Rightarrow> ('t, 'q, 'p) shutdown \<Rightarrow> ('t, 'q, 'p) shutdown \<Rightarrow> bool" for X where
  env_write: "shutdown_env X s (s\<lparr> sd := (sd s)\<lparr> chans := c \<rparr> \<rparr>)"
| env_handle: "entrust_handle X b own (sd s) = (r, s') \<Longrightarrow> shutdown_env X s (s\<lparr> sd := s' \<rparr>)"

inductive shutdown_reachable ::
    "('p \<Rightarrow> nat list) \<Rightarrow> ('t, 'q, 'p) world \<Rightarrow> ('t, 'q, 'p) shutdown \<Rightarrow> bool" for pitems X where
  begins: "rt_reachable pitems X s \<Longrightarrow> status s = Terminating \<Longrightarrow> shutdown_reachable pitems X (shutdown_start s)"
| steps: "shutdown_reachable pitems X s \<Longrightarrow> shutdown_step X s s' \<Longrightarrow> shutdown_reachable pitems X s'"
| beside: "shutdown_reachable pitems X s \<Longrightarrow> shutdown_env X s s' \<Longrightarrow> shutdown_reachable pitems X s'"

section \<open>Frames\<close>

lemma fiber_turn_frame:
  assumes "fiber_turn X f s = Inr s'"
  shows "n_fibers s' = n_fibers s \<and> status s' = status s \<and> fiber_handles s' = fiber_handles s \<and>
    (\<forall>g. g \<noteq> f \<longrightarrow> fibers s' g = fibers s g) \<and> (exited (fibers s f) \<longrightarrow> exited (fibers s' f))"
  using assms
  by (auto simp: fiber_turn_def upd_fiber_def drop_prop_arc_def Let_def
      split: option.splits if_splits Job.splits sum.splits dest!: run_launch_job_frame)

lemma fiber_turn_exited: "fiber_turn X f s = Inr s' \<Longrightarrow> exited (fibers s g) \<Longrightarrow> exited (fibers s' g)"
  using fiber_turn_frame by metis

lemma tell_shutdown_frame [simp]:
  "n_fibers (tell_shutdown tx s) = n_fibers s" "status (tell_shutdown tx s) = status s"
  "fiber_handles (tell_shutdown tx s) = fiber_handles s" "fiber_pool (tell_shutdown tx s) = fiber_pool s"
  "exited (fibers (tell_shutdown tx s) g) = exited (fibers s g)"
  by (simp_all add: tell_shutdown_def send_job_def inbox_push_def)

lemma leave_worker_frame [simp]:
  "n_fibers (leave_worker st s) = n_fibers s" "fibers (leave_worker st s) = fibers s"
  "fiber_pool (leave_worker st s) = fiber_pool s" "status (leave_worker st s) = st"
  "fiber_handles (leave_worker st s) = []"
  by (simp_all add: leave_worker_def drop_prop_arc_def Let_def)

lemma entrust_handle_frame:
  "entrust_handle X b own s = (r, s') \<Longrightarrow> fibers s' = fibers s \<and> n_fibers s' = n_fibers s \<and>
     status s' = status s \<and> fiber_handles s' = fiber_handles s \<and> fiber_pool s' = fiber_pool s"
  by (auto simp: entrust_handle_def new_chan_def register_def Let_def)

text \<open>A pooled fiber that is told to shut down has the message in its inbox.\<close>

lemma tell_pooled:
  assumes q: "seg_queue pitems (pool_push X) (pool_pop X)" and t: "fiber_tokens pitems s"
    and p: "pool_pop X (fiber_pool s) = Some (tx, p)"
  shows "tell_shutdown tx (s\<lparr> fiber_pool := p \<rparr>) =
    s\<lparr> fiber_pool := p, fibers := (fibers s)(tx := (fibers s tx)\<lparr> inbox := [Shutdown] \<rparr>) \<rparr>"
proof -
  have "tx \<in> set (pitems (fiber_pool s))" using seg_queue.pop_Some[OF q p] by simp
  from pooled_fiber[OF t this] show ?thesis by (simp add: tell_shutdown_def send_job_def inbox_push_def)
qed

lemma pool_inv_tell:
  assumes q: "seg_queue pitems (pool_push X) (pool_pop X)" and i: "pool_inv pitems s"
    and p: "pool_pop X (fiber_pool s) = Some (tx, p)"
  shows "pool_inv pitems (tell_shutdown tx (s\<lparr> fiber_pool := p \<rparr>))" (is "pool_inv pitems ?s")
proof -
  have t: "fiber_tokens pitems s" using i by (simp add: pool_inv_def)
  note s' = tell_pooled[OF q t p]
  have it: "pitems (fiber_pool s) = tx # pitems p" by (rule seg_queue.pop_Some[OF q p])
  have tx: "tx < n_fibers s" "\<not> exited (fibers s tx)" "inbox (fibers s tx) = []" "count_list (pitems p) tx = 0"
    using pooled_fiber[OF t, of tx] it by simp_all
  have "waiting_jobs ?s = waiting_jobs s"
    using sum_upd_less[OF tx(1), of jobs_in "fibers s" "(fibers s tx)\<lparr> inbox := [Shutdown] \<rparr>"] tx(3)
    by (simp add: jobs_in_def waiting_jobs_def s')
  moreover have "fiber_tokens pitems ?s" using t it tx by (auto simp: fiber_tokens_def pool_ok_def s')
  ultimately show ?thesis using i by (simp add: pool_inv_def references_def alive_def s')
qed

section \<open>The invariant of the shutdown\<close>

definition sd_inv :: "('p \<Rightarrow> nat list) \<Rightarrow> ('t, 'q, 'p) shutdown \<Rightarrow> bool" where
  "sd_inv pitems s \<longleftrightarrow>
     pool_inv pitems (sd s) \<and>
     (status (sd s) = Terminating \<or> status (sd s) = Exited \<and> done_flag s \<and> terminator_exited s) \<and>
     (status (sd s) = Terminating \<longrightarrow> joined s \<le> n_fibers (sd s) \<and> (\<forall>f < joined s. exited (fibers (sd s) f))) \<and>
     (done_flag s \<longrightarrow> (\<forall>f < n_fibers (sd s). exited (fibers (sd s) f))) \<and>
     (terminator_exited s \<longrightarrow> done_flag s)"

lemma sd_inv_handles:
  "sd_inv pitems s \<Longrightarrow> status (sd s) = Terminating \<Longrightarrow> fiber_handles (sd s) = [0..<n_fibers (sd s)]"
  by (simp add: sd_inv_def pool_inv_def alive_def)

text \<open>Steps that keep the fibers' ends and the worker's status.\<close>

lemma sd_inv_keep:
  assumes "sd_inv pitems s" "pool_inv pitems s'" "n_fibers s' = n_fibers (sd s)" "status s' = status (sd s)"
    "\<And>g. exited (fibers (sd s) g) \<Longrightarrow> exited (fibers s' g)"
  shows "sd_inv pitems (s\<lparr> sd := s' \<rparr>)"
  using assms by (auto simp: sd_inv_def)

lemma sd_inv_step:
  assumes q: "seg_queue pitems (pool_push X) (pool_pop X)" and i: "sd_inv pitems s" and st: "shutdown_step X s s'"
  shows "sd_inv pitems s'"
  using st
proof cases
  case (fiber_works f t)
  have p: "pool_inv pitems t"
    by (rule pool_inv_fiber_turn[OF q _ fiber_works(4)]) (use i in \<open>simp add: sd_inv_def\<close>)
  show ?thesis unfolding fiber_works(1)
    by (rule sd_inv_keep[OF i p]) (use fiber_turn_frame[OF fiber_works(4)] fiber_turn_exited[OF fiber_works(4)] in auto)
next
  case (terminator_sends tx p)
  have t: "pool_inv pitems (tell_shutdown tx ((sd s)\<lparr> fiber_pool := p \<rparr>))"
    by (rule pool_inv_tell[OF q _ terminator_sends(3)]) (use i in \<open>simp add: sd_inv_def\<close>)
  show ?thesis unfolding terminator_sends(1) by (rule sd_inv_keep[OF i t]) simp_all
next
  case worker_joins
  then show ?thesis using i sd_inv_handles[OF i] by (auto simp: sd_inv_def less_Suc_eq)
next
  case worker_signals
  then show ?thesis using i sd_inv_handles[OF i] by (auto simp: sd_inv_def)
next
  case worker_returns
  have "pool_inv pitems (leave_worker Exited (sd s))"
    by (rule pool_inv_leave) (use i worker_returns in \<open>auto simp: sd_inv_def alive_def\<close>)
  then show ?thesis using i worker_returns by (simp add: sd_inv_def)
qed (use i in \<open>auto simp: sd_inv_def\<close>)

lemma sd_inv_env:
  assumes i: "sd_inv pitems s" and st: "shutdown_env X s s'"
  shows "sd_inv pitems s'"
  using st
proof cases
  case (env_write c)
  show ?thesis unfolding env_write(1) by (rule sd_inv_keep[OF i]) (use i in \<open>simp_all add: sd_inv_def\<close>)
next
  case (env_handle b own r t)
  have p: "pool_inv pitems t" by (rule pool_inv_handle[OF _ env_handle(2)]) (use i in \<open>simp add: sd_inv_def\<close>)
  show ?thesis unfolding env_handle(1) by (rule sd_inv_keep[OF i p]) (use entrust_handle_frame[OF env_handle(2)] in auto)
qed

lemma sd_inv_reachable:
  assumes "launch_queues items X pitems" "shutdown_reachable pitems X s"
  shows "sd_inv pitems s"
proof -
  have q: "seg_queue pitems (pool_push X) (pool_pop X)" using assms(1) by (simp add: launch_queues_def)
  show ?thesis using assms(2)
  proof (induction rule: shutdown_reachable.induct)
    case (begins s)
    then show ?case
      using launch_queues.pool_inv_reachable[OF assms(1)] by (simp add: sd_inv_def shutdown_start_def)
  next
    case (steps s s')
    show ?case by (rule sd_inv_step[OF q steps.IH steps.hyps(2)])
  next
    case (beside s s')
    show ?case by (rule sd_inv_env[OF beside.IH beside.hyps(2)])
  qed
qed

section \<open>Progress\<close>

text \<open>A fiber that has not ended can be told to, or has something to do.\<close>

lemma live_fiber_progress:
  assumes q: "seg_queue pitems (pool_push X) (pool_pop X)" and t: "fiber_tokens pitems (sd s)"
    and f: "f < n_fibers (sd s)" "\<not> exited (fibers (sd s) f)" and te: "\<not> terminator_exited s"
  shows "(\<exists>s'. shutdown_step X s s') \<or> (\<exists>u. fiber_turn X f (sd s) = Inl u)"
proof (cases "inbox (fibers (sd s) f) = []")
  case True
  then have "count_list (pitems (fiber_pool (sd s))) f = 1" using t f by (auto simp: fiber_tokens_def)
  then have "pitems (fiber_pool (sd s)) \<noteq> []" by auto
  then obtain tx p where "pool_pop X (fiber_pool (sd s)) = Some (tx, p)"
    using seg_queue.pop_None_iff[OF q] by (cases "pool_pop X (fiber_pool (sd s))") auto
  then show ?thesis using shutdown_step.terminator_sends[OF te] by blast
next
  case False
  show ?thesis
  proof (cases "fiber_turn X f (sd s)")
    case (Inr s')
    then show ?thesis using shutdown_step.fiber_works[OF False f(2)] by blast
  qed blast
qed

lemma shutdown_progress:
  assumes q: "seg_queue pitems (pool_push X) (pool_pop X)" and i: "sd_inv pitems s" and r: "status (sd s) = Terminating"
  shows "(\<exists>s'. shutdown_step X s s') \<or> (\<exists>f u. fiber_turn X f (sd s) = Inl u)"
proof (cases "done_flag s")
  case False
  then have te: "\<not> terminator_exited s" using i by (auto simp: sd_inv_def)
  note h = sd_inv_handles[OF i r]
  have le: "joined s \<le> n_fibers (sd s)" using i r by (simp add: sd_inv_def)
  show ?thesis
  proof (cases "joined s = n_fibers (sd s)")
    case True
    then show ?thesis using shutdown_step.worker_signals[OF r _ False] h by auto
  next
    case neq: False
    then have lt: "joined s < n_fibers (sd s)" using le by simp
    show ?thesis
    proof (cases "exited (fibers (sd s) (joined s))")
      case True
      then show ?thesis using shutdown_step.worker_joins[OF r] lt h by auto
    next
      case live: False
      have "fiber_tokens pitems (sd s)" using i by (simp add: sd_inv_def pool_inv_def)
      from live_fiber_progress[OF q this lt live te] show ?thesis by blast
    qed
  qed
next
  case True
  show ?thesis
  proof (cases "terminator_exited s")
    case te: False
    show ?thesis
    proof (cases "pool_pop X (fiber_pool (sd s))")
      case None
      then show ?thesis using shutdown_step.terminator_ends[OF True te] by blast
    next
      case (Some a)
      then show ?thesis using shutdown_step.terminator_sends[OF te] by (cases a) blast
    qed
  qed (use shutdown_step.worker_returns[OF r True] in blast)
qed

section \<open>Termination\<close>

text \<open>How much is left to do: a job to run costs more than a sender in the pool, which costs more
  than a shutdown in an inbox.\<close>

fun job_weight :: "Job \<Rightarrow> nat" where
  "job_weight (Execute job) = 3"
| "job_weight Shutdown = 1"

definition fiber_weight :: "fiber \<Rightarrow> nat" where
  "fiber_weight fb = sum_list (map job_weight (inbox fb))"

definition fibers_weight :: "('t, 'q, 'p) rt \<Rightarrow> nat" where
  "fibers_weight s = (\<Sum>f < n_fibers s. fiber_weight (fibers s f))"

definition sd_measure :: "('p \<Rightarrow> nat list) \<Rightarrow> ('t, 'q, 'p) shutdown \<Rightarrow> nat" where
  "sd_measure pitems s =
     fibers_weight (sd s) + 2 * length (pitems (fiber_pool (sd s))) +
     (length (fiber_handles (sd s)) - joined s) + of_bool (\<not> done_flag s) +
     of_bool (\<not> terminator_exited s) + of_bool (status (sd s) = Terminating)"

lemma fiber_turn_weight:
  fixes s :: "('t, 'q, 'p) rt"
  assumes q: "seg_queue pitems (pool_push X) (pool_pop X)" and t: "fiber_tokens pitems s"
    and box: "inbox (fibers s f) \<noteq> []" and turn: "fiber_turn X f s = Inr s'"
  shows "fibers_weight s' + 2 * length (pitems (fiber_pool s')) < fibers_weight s + 2 * length (pitems (fiber_pool s))"
proof -
  obtain msg rest where c: "inbox (fibers s f) = msg # rest" using box by (cases "inbox (fibers s f)") auto
  note l = live_inbox[OF t c]
  have pop: "inbox_pop (fibers s f) = Some (msg, (fibers s f)\<lparr> inbox := [] \<rparr>)" using c l(2) by (simp add: inbox_pop_def)
  have wt: "fibers_weight u + job_weight msg = fibers_weight s"
    if "n_fibers u = n_fibers s" "fibers u = (fibers s)(f := fb)" "inbox fb = []" for u :: "('t, 'q, 'p) rt" and fb
    using sum_upd_less[OF l(1), of fiber_weight "fibers s" fb] c l(2) that
    by (simp add: fibers_weight_def fiber_weight_def)
  show ?thesis
  proof (cases msg)
    case Shutdown
    then have s': "n_fibers s' = n_fibers s" "fiber_pool s' = fiber_pool s"
      "fibers s' = (fibers s)(f := (fibers s f)\<lparr> inbox := [], exited := True \<rparr>)"
      using turn pop l(3) by (auto simp: fiber_turn_def upd_fiber_def)
    then show ?thesis using wt[OF s'(1,3)] Shutdown by simp
  next
    case (Execute job)
    let ?s1 = "upd_fiber f (\<lambda>_. (fibers s f)\<lparr> inbox := [] \<rparr>) s"
    obtain s2 pan where run: "run_launch_job X job ?s1 = Inr (s2, pan)"
      and s': "s' = (if pan then upd_fiber f (\<lambda>fb. fb\<lparr> exited := True \<rparr>) s2
        else s2\<lparr> fiber_pool := pool_push X f (fiber_pool s2) \<rparr>)"
      using turn pop l(3) Execute by (auto simp: fiber_turn_def split: sum.splits prod.splits if_splits)
    have s2: "n_fibers s2 = n_fibers s" "fibers s2 = (fibers s)(f := (fibers s f)\<lparr> inbox := [] \<rparr>)" "fiber_pool s2 = fiber_pool s"
      using run_launch_job_frame[OF run] by (auto simp: drop_prop_arc_def Let_def upd_fiber_def)
    obtain fb where fb: "n_fibers s' = n_fibers s" "fibers s' = (fibers s)(f := fb)" "inbox fb = []"
      using s' s2 by (auto simp: upd_fiber_def split: if_splits)
    have "length (pitems (fiber_pool s')) \<le> Suc (length (pitems (fiber_pool s)))"
      using s' s2(3) seg_queue.items_push[OF q] by (auto simp: upd_fiber_def)
    then show ?thesis using wt[OF fb] Execute by simp
  qed
qed

lemma sd_measure_decreases:
  assumes q: "seg_queue pitems (pool_push X) (pool_pop X)" and i: "sd_inv pitems s" and st: "shutdown_step X s s'"
  shows "sd_measure pitems s' < sd_measure pitems s"
  using st
proof cases
  case (fiber_works f t)
  have tok: "fiber_tokens pitems (sd s)" using i by (simp add: sd_inv_def pool_inv_def)
  show ?thesis
    using fiber_turn_weight[OF q tok fiber_works(2,4)] fiber_turn_frame[OF fiber_works(4)] fiber_works(1)
    by (simp add: sd_measure_def)
next
  case (terminator_sends tx p)
  have tok: "fiber_tokens pitems (sd s)" using i by (simp add: sd_inv_def pool_inv_def)
  have it: "pitems (fiber_pool (sd s)) = tx # pitems p" by (rule seg_queue.pop_Some[OF q terminator_sends(3)])
  have tx: "tx < n_fibers (sd s)" "inbox (fibers (sd s) tx) = []" using pooled_fiber[OF tok, of tx] it by simp_all
  have "fibers_weight (tell_shutdown tx ((sd s)\<lparr> fiber_pool := p \<rparr>)) = Suc (fibers_weight (sd s))"
    using sum_upd_less[OF tx(1), of fiber_weight "fibers (sd s)" "(fibers (sd s) tx)\<lparr> inbox := [Shutdown] \<rparr>"] tx(2)
    by (simp add: tell_pooled[OF q tok terminator_sends(3)] fibers_weight_def fiber_weight_def)
  then show ?thesis using terminator_sends(1) it by (simp add: sd_measure_def)
next
  case worker_returns
  then show ?thesis by (simp add: sd_measure_def fibers_weight_def)
qed (auto simp: sd_measure_def)

section \<open>A shutdown\<close>

lemma demo_shutdown:
  "\<exists>s. shutdown_reachable (\<lambda>p. p) demo_world s \<and> status (sd s) = Terminating \<and>
     \<not> done_flag s \<and> \<not> terminator_exited s \<and> joined s = 0 \<and> n_fibers (sd s) = 0 \<and> fiber_pool (sd s) = []"
proof -
  obtain s where s: "rt_reachable (\<lambda>p. p) demo_world s" "status s = Terminating" "n_fibers s = 0" "fiber_pool s = []"
    using demo_terminating by blast
  show ?thesis
    by (rule exI[of _ "shutdown_start s"]) (use s shutdown_reachable.begins[OF s(1,2)] in \<open>simp add: shutdown_start_def\<close>)
qed

lemma demo_queues: "launch_queues (\<lambda>q. q) demo_world (\<lambda>p. p)"
  by (rule demo_launch.launch_queues_axioms)

section \<open>Properties\<close>

text \<open>C13. A shutdown ends: in whatever order the fibers, the terminator and the worker proceed and
  whatever clients do meanwhile, there is no infinite sequence of their steps, and as long as the
  worker has not returned one of them can make a step - unless a launched closure has undefined
  behaviour.\<close>

theorem shutdown_terminates:
  assumes "launch_queues items X pitems"
  shows "wf {(s', s). shutdown_reachable pitems X s \<and> shutdown_step X s s'} \<and>
    (\<forall>s. shutdown_reachable pitems X s \<longrightarrow> status (sd s) = Exited \<or>
       (\<exists>s'. shutdown_step X s s') \<or> (\<exists>f u. fiber_turn X f (sd s) = Inl u))"
proof -
  have q: "seg_queue pitems (pool_push X) (pool_pop X)" using assms by (simp add: launch_queues_def)
  have "{(s', s). shutdown_reachable pitems X s \<and> shutdown_step X s s'} \<subseteq> measure (sd_measure pitems)"
    using sd_measure_decreases[OF q sd_inv_reachable[OF assms]] by auto
  then have "wf {(s', s). shutdown_reachable pitems X s \<and> shutdown_step X s s'}" by (rule wf_subset[OF wf_measure])
  moreover have "status (sd s) = Exited \<or> (\<exists>s'. shutdown_step X s s') \<or> (\<exists>f u. fiber_turn X f (sd s) = Inl u)"
    if "shutdown_reachable pitems X s" for s
    using shutdown_progress[OF q sd_inv_reachable[OF assms that]] sd_inv_reachable[OF assms that]
    by (auto simp: sd_inv_def)
  ultimately show ?thesis by blast
qed

theorem shutdown_terminates_witness:
  "\<exists>s. shutdown_reachable (\<lambda>p. p) demo_world s \<and> status (sd s) = Terminating \<and>
     ((\<exists>s'. shutdown_step demo_world s s') \<or> (\<exists>f u. fiber_turn demo_world f (sd s) = Inl u))"
proof -
  obtain s where s: "shutdown_reachable (\<lambda>p. p) demo_world s" "status (sd s) = Terminating" using demo_shutdown by blast
  have "status (sd s) = Exited \<or> (\<exists>s'. shutdown_step demo_world s s') \<or> (\<exists>f u. fiber_turn demo_world f (sd s) = Inl u)"
    using conjunct2[OF shutdown_terminates[OF demo_queues], THEN spec, THEN mp, OF s(1)] .
  then have "(\<exists>s'. shutdown_step demo_world s s') \<or> (\<exists>f u. fiber_turn demo_world f (sd s) = Inl u)" using s(2) by simp
  then show ?thesis using s by (intro exI[of _ s] conjI)
qed

text \<open>C14. A shutdown is complete: when the worker has returned, every fiber it ever spawned has
  ended, every launched job has been run, no reference to the property is left and its destructor
  has run once; before that, a job that still waits finds the property alive.\<close>

theorem shutdown_complete:
  assumes "launch_queues items X pitems" "shutdown_reachable pitems X s"
  shows "if status (sd s) = Exited
     then (\<forall>f < n_fibers (sd s). exited (fibers (sd s) f) \<and> inbox (fibers (sd s) f) = []) \<and>
          pitems (fiber_pool (sd s)) = [] \<and> prop_arcs (sd s) = 0 \<and> prop_drops (sd s) = 1
     else prop_arcs (sd s) = Suc (waiting_jobs (sd s)) \<and> prop_drops (sd s) = 0"
proof -
  note i = sd_inv_reachable[OF assms]
  have p: "fiber_tokens pitems (sd s)" "references (sd s)" using i by (simp_all add: sd_inv_def pool_inv_def)
  show ?thesis
  proof (cases "status (sd s) = Exited")
    case True
    then have ex: "\<forall>f < n_fibers (sd s). exited (fibers (sd s) f)" using i by (auto simp: sd_inv_def)
    then have box: "\<forall>f < n_fibers (sd s). inbox (fibers (sd s) f) = []" using p(1) by (simp add: fiber_tokens_def)
    have "waiting_jobs (sd s) = 0" using box by (simp add: waiting_jobs_def jobs_in_def)
    moreover have "pitems (fiber_pool (sd s)) = []"
      using ex pooled_fiber(1,2)[OF p(1)] by (metis hd_in_set)
    ultimately show ?thesis using True p(2) ex box by (simp add: references_def alive_def)
  next
    case False
    then show ?thesis using i p(2) by (auto simp: sd_inv_def references_def alive_def)
  qed
qed

theorem shutdown_complete_witness:
  "\<exists>s. shutdown_reachable (\<lambda>p. p) demo_world s \<and> status (sd s) = Exited \<and> prop_arcs (sd s) = 0 \<and> prop_drops (sd s) = 1"
proof -
  obtain s where s: "shutdown_reachable (\<lambda>p. p) demo_world s" "status (sd s) = Terminating" "\<not> done_flag s"
      "\<not> terminator_exited s" "joined s = 0" "n_fibers (sd s) = 0" "fiber_pool (sd s) = []"
    using demo_shutdown by blast
  have h: "fiber_handles (sd s) = []" using sd_inv_handles[OF sd_inv_reachable[OF demo_queues s(1)] s(2)] s(6) by simp
  let ?a = "s\<lparr> done_flag := True \<rparr>"
  let ?b = "?a\<lparr> terminator_exited := True \<rparr>"
  have a: "shutdown_reachable (\<lambda>p. p) demo_world ?a"
    by (rule shutdown_reachable.steps[OF s(1) shutdown_step.worker_signals]) (use s h in simp_all)
  have b: "shutdown_reachable (\<lambda>p. p) demo_world ?b"
    by (rule shutdown_reachable.steps[OF a shutdown_step.terminator_ends]) (use s in \<open>simp_all add: demo_world_def\<close>)
  have c: "shutdown_reachable (\<lambda>p. p) demo_world (?b\<lparr> sd := leave_worker Exited (sd ?b) \<rparr>)"
    by (rule shutdown_reachable.steps[OF b shutdown_step.worker_returns]) (use s in simp_all)
  from shutdown_complete[OF demo_queues c] c show ?thesis
    by (intro exI[of _ "?b\<lparr> sd := leave_worker Exited (sd ?b) \<rparr>"]) simp
qed

section \<open>Runtimes that end without a shutdown\<close>

text \<open>A worker that ends by handing its value out or by a panic tells nobody: a fiber that waits for
  work then waits forever.\<close>

lemma orphan_step:
  assumes st: "rt_step X s s'" and e: "\<not> alive s" and q: "seg_queue pitems (pool_push X) (pool_pop X)"
    and f: "f \<in> set (pitems (fiber_pool s))"
  shows "\<not> alive s' \<and> f \<in> set (pitems (fiber_pool s'))"
  using st
proof cases
  case (fiber g)
  have "pitems (fiber_pool s') = pitems (fiber_pool s) \<or> pitems (fiber_pool s') = pitems (fiber_pool s) @ [g]"
    using fiber seg_queue.items_push[OF q]
    by (auto simp: fiber_turn_def upd_fiber_def drop_prop_arc_def Let_def
        split: option.splits if_splits Job.splits sum.splits dest!: run_launch_job_frame)
  then show ?thesis using fiber_turn_frame[OF fiber] e f by (auto simp: alive_def)
next
  case (handle b own r)
  then show ?thesis using e f by (auto simp: entrust_handle_def new_chan_def register_def Let_def alive_def)
qed (use e f in \<open>auto simp: alive_def\<close>)

lemma orphan_steps:
  assumes "(rt_step X)\<^sup>*\<^sup>* s s'" "\<not> alive s" "seg_queue pitems (pool_push X) (pool_pop X)"
    "f \<in> set (pitems (fiber_pool s))" "rt_reachable pitems X s"
  shows "\<not> alive s' \<and> f \<in> set (pitems (fiber_pool s')) \<and> rt_reachable pitems X s'"
  using assms
proof (induction rule: rtranclp_induct)
  case (step y z)
  then show ?case using orphan_step[of X y z pitems f] rt_reachable.step[of pitems X y z] by blast
qed simp

text \<open>A launched call and then the value taken out, on the small program.\<close>

lemma demo_orphan:
  obtains s f where "rt_reachable (\<lambda>p. p) demo_world s" "status s = Exited" "f < n_fibers s"
    "\<not> exited (fibers s f)" "inbox (fibers s f) = []"
proof -
  have vt: "vt_out demo_world (fn_vtable (fv (add_fn 0))) =
      Some (VTABLE (fn_size (fv (add_fn 0))) (fn_align (fv (add_fn 0))) (apply_adapter u64_ret (body (add_fn 0))))"
    by (simp add: demo_world_def add_fn_def)
  have call: "call_fn (add_fn 0) (prop_cell (snd demo)) = (5, Some 5)"
    by (simp add: call_fn_def add_fn_def add_body_def del: le_bytes.simps)
  have ok: "pool_ok (\<lambda>p. p) (snd demo)" "1 \<le> prop_arcs (snd demo)" "0 \<in> set (registered (\<lambda>q. q) (snd demo))"
    using demo_launch.pool_inv_reachable[OF demo_reachable] by (simp_all add: pool_inv_def fiber_tokens_def demo_arcs)
  have "ret_size u64_ret \<le> 1148" "distance (\<lambda>q. q) (snd demo) + 2 \<le> 34" by (simp_all add: u64_ret_def demo_distance)
  from demo_launch.delegate_launch[OF demo_calm ok(3,1,2) demo_fits(1) wf_ret_codes[OF u64_ret_wf(1)] this(1) vt call this(2)]
  obtain s tx where l: "delegate demo_world 34 0 Launch (fv (add_fn 0)) [] (\<lambda>h. h)
        (read_response (ret_size u64_ret) (ret_dec u64_ret)) (snd demo) = (Returned 5, s)"
      "prop_cell s = 5" "calm (\<lambda>q. q) s" "op_frame (\<lambda>q. q) 0 (snd demo) s" "tx < n_fibers s" "\<not> exited (fibers s tx)" by blast
  have r: "rt_reachable (\<lambda>p. p) demo_world s" by (rule delegate_reachable[OF demo_reachable l(1)])
  have i: "0 \<in> set (registered (\<lambda>q. q) s)" "prop_arcs s = 1" using l(4) by (simp_all add: op_frame_def demo_arcs)
  have p: "prop_bytes demo_world (prop_cell s) = ret_enc u64_ret (prop_cell s)"
    by (simp add: demo_world_def u64_ret_def del: le_bytes.simps)
  have "ret_size u64_ret \<le> 1148" by (simp add: u64_ret_def)
  from demo_system.delegate_into_inner[OF l(3) i(1) small_fits u64_ret_wf(1) this p order_refl i(2)]
  obtain s' where d: "delegate demo_world (distance (\<lambda>q. q) s + 2) 0 IntoInner
        \<lparr> fn_size = 0, fn_align = 1, fn_env = [], fn_vtable = 0 \<rparr> [] (\<lambda>h. h)
        (read_response (ret_size u64_ret) (ret_dec u64_ret)) s = (Returned (prop_cell s), s')"
      "status s' = Exited" "fibers s' = fibers s" "n_fibers s' = n_fibers s" by blast
  have r': "rt_reachable (\<lambda>p. p) demo_world s'" by (rule delegate_reachable[OF r d(1)])
  have box: "inbox (fibers s' tx) = []" using l(3) d(3) by (simp add: calm_def resting_def)
  show ?thesis using that[OF r' d(2)] l(5,6) d(3,4) box by simp
qed

text \<open>C17. A runtime that ends without a terminate record abandons its fibers: once the worker has
  handed the value out or unwound, a fiber that waits for work is never told to end - no step of
  the system changes it - so it and what it holds are never released.\<close>

theorem fibers_abandoned:
  assumes "launch_queues items X pitems" "rt_reachable pitems X s" "status s = Exited \<or> status s = Unwound"
    and "f < n_fibers s" "\<not> exited (fibers s f)" "inbox (fibers s f) = []" "(rt_step X)\<^sup>*\<^sup>* s s'"
  shows "\<not> exited (fibers s' f) \<and> inbox (fibers s' f) = []"
proof -
  have q: "seg_queue pitems (pool_push X) (pool_pop X)" using assms(1) by (simp add: launch_queues_def)
  have "fiber_tokens pitems s" using launch_queues.pool_inv_reachable[OF assms(1,2)] by (simp add: pool_inv_def)
  then have "count_list (pitems (fiber_pool s)) f = 1" using assms(4-6) by (auto simp: fiber_tokens_def)
  then have f: "f \<in> set (pitems (fiber_pool s))" by (metis count_notin zero_neq_one)
  have "\<not> alive s" using assms(3) by (auto simp: alive_def)
  from orphan_steps[OF assms(7) this q f assms(2)]
  have "f \<in> set (pitems (fiber_pool s'))" "rt_reachable pitems X s'" by simp_all
  then show ?thesis
    using pooled_fiber[of pitems s' f] launch_queues.pool_inv_reachable[OF assms(1)] by (auto simp: pool_inv_def)
qed

theorem fibers_abandoned_witness:
  "\<exists>s f. status s = Exited \<and> f < n_fibers s \<and> \<not> exited (fibers s f) \<and>
     \<not> (\<exists>s'. (rt_step demo_world)\<^sup>*\<^sup>* s s' \<and> exited (fibers s' f))"
proof -
  obtain s f where s: "rt_reachable (\<lambda>p. p) demo_world s" "status s = Exited" "f < n_fibers s"
      "\<not> exited (fibers s f)" "inbox (fibers s f) = []" by (rule demo_orphan)
  have "\<not> exited (fibers s' f)" if "(rt_step demo_world)\<^sup>*\<^sup>* s s'" for s'
    using fibers_abandoned[OF demo_queues s(1) disjI1[OF s(2)] s(3-5) that] by blast
  then show ?thesis using s by blast
qed

end
