(* ===== verification/Ownership.thy ===== *)
theory Ownership
  imports Runtime_Drop
begin

text \<open>
  Who keeps the worker alive (src/runtime/runtime.rs, src/trust/remote.rs): the runtime that holds the
  join handle of the worker, its clones, which do not, and the handles that share a runtime through
  a reference count. Dropping the last reference drops the runtime, and dropping a runtime with the
  join handle posts the terminate record.
\<close>

section \<open>Runtimes and shared ownership\<close>

record Runtime =
  rt_worker :: bool

text \<open>The system, the reference-counted runtimes and, for the statements, the number of terminate
  records posted so far.\<close>

record ('t, 'q, 'p) program =
  psys :: "('t, 'q, 'p) rt"
  strong :: "nat \<Rightarrow> nat"
  boxed :: "nat \<Rightarrow> Runtime"
  n_boxes :: nat
  stops :: nat

record handle =
  h_chan :: nat
  h_owner :: "nat option"

definition as_remote :: "handle \<Rightarrow> remote" where
  "as_remote h = \<lparr> r_chan = h_chan h, r_owner = (h_owner h \<noteq> None) \<rparr>"

definition Runtime_clone :: "Runtime \<Rightarrow> Runtime" where
  "Runtime_clone r = r\<lparr> rt_worker := False \<rparr>"

definition arc_new :: "Runtime \<Rightarrow> ('t, 'q, 'p) program \<Rightarrow> nat \<times> ('t, 'q, 'p) program" where
  "arc_new r pr = (n_boxes pr, pr\<lparr> strong := (strong pr)(n_boxes pr := 1), boxed := (boxed pr)(n_boxes pr := r),
     n_boxes := Suc (n_boxes pr) \<rparr>)"

definition Runtime_drop ::
    "('t, 'q, 'p) world \<Rightarrow> u64 \<Rightarrow> Runtime \<Rightarrow> ('t, 'q, 'p) program \<Rightarrow> ('t, 'q, 'p) program outcome" where
  "Runtime_drop X b r pr =
     (if rt_worker r
      then obind (runtime_drop X b (psys pr)) (\<lambda>s. Ok (pr\<lparr> psys := s, stops := Suc (stops pr) \<rparr>))
      else Ok pr)"

definition Remote_drop ::
    "('t, 'q, 'p) world \<Rightarrow> u64 \<Rightarrow> handle \<Rightarrow> ('t, 'q, 'p) program \<Rightarrow> ('t, 'q, 'p) program outcome" where
  "Remote_drop X b h pr =
     (case h_owner h of
        None \<Rightarrow> Ok pr
      | Some a \<Rightarrow>
          (let pr' = pr\<lparr> strong := (strong pr)(a := strong pr a - 1) \<rparr>
           in if strong pr a = 1 then Runtime_drop X b (boxed pr a) pr' else Ok pr'))"

definition Remote_clone ::
    "('t, 'q, 'p) world \<Rightarrow> u64 \<Rightarrow> handle \<Rightarrow> ('t, 'q, 'p) program \<Rightarrow> handle \<times> ('t, 'q, 'p) program" where
  "Remote_clone X b h pr =
     (case remote_clone X b (as_remote h) (psys pr) of
        (r, s) \<Rightarrow>
          (let pr' = pr\<lparr> psys := s \<rparr>
           in (\<lparr> h_chan = r_chan r, h_owner = h_owner h \<rparr>,
               (case h_owner h of
                  None \<Rightarrow> pr'
                | Some a \<Rightarrow> pr'\<lparr> strong := (strong pr')(a := Suc (strong pr' a)) \<rparr>))))"

text \<open>Spawning gives the runtime with the join handle, and a first handle whose owner is a clone of
  it.\<close>

definition spawn_program ::
    "('t, 'q, 'p) world \<Rightarrow> 't \<Rightarrow> usize \<Rightarrow> u64 \<Rightarrow> 'q \<Rightarrow> 'p \<Rightarrow> Runtime \<times> handle \<times> ('t, 'q, 'p) program" where
  "spawn_program X value tid b q p =
     (let (r, s) = spawn_with_pin X value tid b q p;
          rt = \<lparr> rt_worker = True \<rparr>;
          (a, pr) = arc_new (Runtime_clone rt)
            \<lparr> psys = s, strong = (\<lambda>_. 0), boxed = (\<lambda>_. \<lparr> rt_worker = False \<rparr>), n_boxes = 0, stops = 0 \<rparr>
      in (rt, \<lparr> h_chan = r_chan r, h_owner = Some a \<rparr>, pr))"

text \<open>\<open>Remote::entrust\<close> makes the runtime itself the owner; the first handle is dropped at the end.\<close>

definition entrust_program ::
    "('t, 'q, 'p) world \<Rightarrow> u64 \<Rightarrow> 't \<Rightarrow> usize \<Rightarrow> u64 \<Rightarrow> 'q \<Rightarrow> 'p \<Rightarrow> (handle \<times> ('t, 'q, 'p) program) outcome" where
  "entrust_program X b' value tid b q p =
     (let (rt, first, pr) = spawn_program X value tid b q p;
          (a, pr) = arc_new rt pr;
          h = \<lparr> h_chan = h_chan first, h_owner = Some a \<rparr>
      in obind (Remote_drop X b' first pr) (\<lambda>pr. Ok (h, pr)))"

section \<open>What a program does with its handles\<close>

text \<open>Handles are cloned and dropped; in between the system takes any steps.\<close>

inductive own_step ::
    "('t, 'q, 'p) world \<Rightarrow> ('t, 'q, 'p) program \<times> handle list \<Rightarrow> ('t, 'q, 'p) program \<times> handle list \<Rightarrow> bool" for X where
  clones: "h \<in> set hs \<Longrightarrow> Remote_clone X b h pr = (h', pr') \<Longrightarrow> own_step X (pr, hs) (pr', hs @ [h'])"
| drops: "h \<in> set hs \<Longrightarrow> Remote_drop X b h pr = Ok pr' \<Longrightarrow> own_step X (pr, hs) (pr', remove1 h hs)"
| runs: "own_step X (pr, hs) (pr\<lparr> psys := s \<rparr>, hs)"

inductive own_reachable :: "('t, 'q, 'p) world \<Rightarrow> ('t, 'q, 'p) program \<times> handle list \<Rightarrow> bool" for X where
  entrusts: "entrust_program X b' value tid b q p = Ok (h, pr) \<Longrightarrow> own_reachable X (pr, [h])"
| steps: "own_reachable X c \<Longrightarrow> own_step X c c' \<Longrightarrow> own_reachable X c'"

text \<open>All handles share one owner, which holds the join handle and is counted right.\<close>

definition owned :: "('t, 'q, 'p) program \<times> handle list \<Rightarrow> bool" where
  "owned c \<longleftrightarrow> (case c of (pr, hs) \<Rightarrow>
     \<exists>a. (\<forall>h \<in> set hs. h_owner h = Some a) \<and> strong pr a = length hs \<and> rt_worker (boxed pr a) \<and>
       stops pr = (if hs = [] then 1 else 0))"

text \<open>Posting the terminate record never fails.\<close>

lemma runtime_drop_total: "\<exists>s'. runtime_drop X b s = Ok s'"
proof -
  have hl: "length (hdr_bytes terminate_header) = 40" by (rule hdr_layout.enc_length)
  let ?m = "request (ChannelPair_default (arc_address b))"
  have "length ?m = 1152" using wf_chan_default[OF arc_address_dvd[of b]] by (simp add: wf_chan_def)
  then obtain m where "write_at 8 (hdr_bytes terminate_header) ?m = Some m"
    using write_at_Some_iff[of 8 "hdr_bytes terminate_header" ?m] hl by auto
  then show ?thesis by (simp add: runtime_drop_def new_chan_def register_def write_unaligned_def Let_def split_beta)
qed

lemma Runtime_drop_cases:
  "\<exists>pr'. Runtime_drop X b r pr = Ok pr' \<and> strong pr' = strong pr \<and> boxed pr' = boxed pr \<and>
     stops pr' = (if rt_worker r then Suc (stops pr) else stops pr)"
  using runtime_drop_total[of X b "psys pr"] by (auto simp: Runtime_drop_def)

lemma drop_owned:
  assumes o: "owned (pr, hs)" and h: "h \<in> set hs"
  shows "\<exists>pr'. Remote_drop X b h pr = Ok pr' \<and> owned (pr', remove1 h hs)"
proof -
  obtain a where a: "\<forall>h \<in> set hs. h_owner h = Some a" "strong pr a = length hs" "rt_worker (boxed pr a)"
    "stops pr = (if hs = [] then 1 else 0)" using o by (auto simp: owned_def)
  have l: "length (remove1 h hs) = length hs - 1" using h by (simp add: length_remove1)
  have sub: "\<forall>h' \<in> set (remove1 h hs). h_owner h' = Some a" using a(1) set_remove1_subset[of h hs] by blast
  let ?pr = "pr\<lparr> strong := (strong pr)(a := strong pr a - 1) \<rparr>"
  show ?thesis
  proof (cases "length hs = 1")
    case True
    obtain pr' where pr': "Runtime_drop X b (boxed pr a) ?pr = Ok pr'" "strong pr' = strong ?pr" "boxed pr' = boxed ?pr"
      "stops pr' = Suc (stops ?pr)" using Runtime_drop_cases[of X b "boxed pr a" ?pr] a(3) by auto
    have "remove1 h hs = []" "hs \<noteq> []" using True l h by auto
    then show ?thesis using a h True pr' by (auto simp: Remote_drop_def owned_def)
  next
    case False
    then have "remove1 h hs \<noteq> []" using l h by (cases hs) auto
    then show ?thesis using a h False l sub by (auto simp: Remote_drop_def owned_def intro!: exI[of _ a])
  qed
qed

lemma owned_step:
  assumes "owned c" "own_step X c c'"
  shows "owned c'"
  using assms(2)
proof cases
  case (clones h hs b pr h' pr')
  then show ?thesis using assms(1) by (auto simp: owned_def Remote_clone_def Let_def split: prod.splits)
next
  case (drops h hs b pr pr')
  then show ?thesis using assms(1) drop_owned[of pr hs h X b] by auto
next
  case (runs pr hs s)
  then show ?thesis using assms(1) by (simp add: owned_def)
qed

lemma entrust_owned: "entrust_program X b' value tid b q p = Ok (h, pr) \<Longrightarrow> owned (pr, [h])"
  by (auto simp: entrust_program_def spawn_program_def arc_new_def Remote_drop_def Runtime_drop_def Runtime_clone_def
      owned_def Let_def split: prod.splits)

lemma own_reachable_owned: "own_reachable X c \<Longrightarrow> owned c"
  by (induction rule: own_reachable.induct) (auto intro: entrust_owned owned_step)

text \<open>An operation on a system whose worker has left its loop waits for ever.\<close>

lemma stopped_apply:
  assumes s: "status s \<noteq> Running" "\<forall>f. inbox (fibers s f) = []" and c: "wf_chan (chans s (r_chan rm))"
    and f: "fits (fv f) 0" and th: "\<not> on_owning_trustee th s" "\<not> caller_trustee th"
  shows "fst (remote_apply X fuel th rm R f s) = NoReply"
proof -
  have fit: "fits (fv f) (length [])" using f by simp
  obtain c1 c2 where w: "write_request CallMutOutPtr (fv f) [] (\<lambda>h. h) (chans s (r_chan rm)) = Ok c1"
    "publish c1 = (\<not> ready (load_flags (response (chans s (r_chan rm)))), c2)"
    "request_of (chans s (r_chan rm)) CallMutOutPtr (fv f) [] (\<lambda>h. h)
      (\<not> ready (load_flags (response (chans s (r_chan rm))))) c2"
    by (rule write_publish[OF c fit])
  let ?b = "\<not> ready (load_flags (response (chans s (r_chan rm))))" and ?s = "s\<lparr> chans := (chans s)(r_chan rm := c2) \<rparr>"
  have "response c2 = response (chans s (r_chan rm))" using w(3) by (simp add: request_of_def)
  then have "await_response X fuel hot (r_chan rm) ?b ?s = StillWaiting ?s"
    by (intro await_stopped) (use s in \<open>simp_all add: response_ready_def\<close>)
  then show ?thesis using w(1,2) th by (simp add: remote_apply_def delegate_def)
qed

section \<open>Properties\<close>

text \<open>C18. The worker lives as long as a handle does: whatever a program that started with
  \<open>Remote::entrust\<close> does with its handle, its clones and their clones, the terminate record is posted
  exactly once, when the last of them is dropped; and dropping a handle never fails.\<close>

theorem last_handle_stops_worker:
  assumes "own_reachable X (pr, hs)"
  shows "stops pr = (if hs = [] then 1 else 0) \<and> (\<forall>h \<in> set hs. \<exists>pr'. Remote_drop X b h pr = Ok pr')"
proof -
  note o = own_reachable_owned[OF assms]
  have "\<exists>pr'. Remote_drop X b h pr = Ok pr'" if "h \<in> set hs" for h using drop_owned[OF o that, of X b] by blast
  then show ?thesis using o by (auto simp: owned_def)
qed

theorem last_handle_stops_worker_witness:
  "\<exists>pr h h'. own_reachable demo_world (pr, [h']) \<and> stops pr = 0 \<and> h_chan h' = 1 \<and>
     (\<exists>pr'. own_reachable demo_world (pr', []) \<and> stops pr' = 1)"
proof -
  obtain h pr where e: "entrust_program demo_world 0x30000 5 7 0x10000 [] [] = Ok (h, pr)" "h_chan h = 0" "n_chans (psys pr) = 1"
    by (auto simp: entrust_program_def spawn_program_def arc_new_def Remote_drop_def Runtime_drop_def Runtime_clone_def
        Let_def spawn_with_pin_def entrust_handle_def new_chan_def register_def worker_start_def)
  have r0: "own_reachable demo_world (pr, [h])" by (rule own_reachable.entrusts[OF e(1)])
  obtain h' pr1 where c: "Remote_clone demo_world 0x20000 h pr = (h', pr1)" by (rule prod.exhaust)
  have h1: "h_chan h' = 1"
    using c e(2,3) by (auto simp: Remote_clone_def remote_clone_def entrust_handle_def new_chan_def Let_def)
  then have h': "h_chan h' = 1" "h' \<noteq> h" using e(2) by auto
  have "own_step demo_world (pr, [h]) (pr1, [h] @ [h'])" by (rule own_step.clones[OF _ c]) simp
  with r0 have r1: "own_reachable demo_world (pr1, [h, h'])" by (auto intro: own_reachable.steps)
  obtain pr2 where d: "Remote_drop demo_world 0x30000 h pr1 = Ok pr2"
    using last_handle_stops_worker[OF r1, where b = "0x30000"] by auto
  have r2: "own_reachable demo_world (pr2, [h'])"
    using own_reachable.steps[OF r1 own_step.drops[OF _ d]] by simp
  obtain pr3 where d': "Remote_drop demo_world 0x40000 h' pr2 = Ok pr3"
    using last_handle_stops_worker[OF r2, where b = "0x40000"] by auto
  have r3: "own_reachable demo_world (pr3, [])"
    using own_reachable.steps[OF r2 own_step.drops[OF _ d']] by simp
  show ?thesis
    using r2 r3 h'(1) last_handle_stops_worker[OF r2, where b = 0] last_handle_stops_worker[OF r3, where b = 0] by auto
qed

text \<open>C19. The handle that \<open>Runtime::spawn\<close> returns does not keep the worker alive, although it has an
  owner: that owner is a clone of the runtime without the join handle. When the runtime returned
  beside it is dropped, the worker leaves its loop, and every later \<open>apply\<close> on the handle waits for
  ever.\<close>

theorem spawned_handle_hangs:
  assumes "seg_queue items (reg_push X) (reg_pop X)" "items q = []" "spawn_program X value tid b q p = (rt, h, pr)"
    and "fits (fv f) 0" "tid \<noteq> caller_id th" "\<not> caller_trustee th"
  shows "h_owner h \<noteq> None \<and>
    (\<exists>pr1 k s. Runtime_drop X b' rt pr = Ok pr1 \<and> run_system X k (psys pr1) = Next s \<and> status s = Terminating \<and>
      (\<forall>fuel. fst (remote_apply X fuel th (as_remote h) R f s) = NoReply))"
proof -
  let ?w = "worker_start value tid q p"
  obtain r s0 where e: "entrust_handle X b True ?w = (r, s0)" by (rule prod.exhaust)
  have pr: "rt = \<lparr> rt_worker = True \<rparr>" "h = \<lparr> h_chan = r_chan r, h_owner = Some 0 \<rparr>" "psys pr = s0"
    using assms(3) e by (auto simp: spawn_program_def spawn_with_pin_def arc_new_def Let_def)
  have c0: "calm items s0" by (rule entrust_handle_calm[OF assms(1) worker_start_calm e]) (rule assms(2))
  obtain s1 where s1: "runtime_drop X b' s0 = Ok s1" "n_chans s0 \<in> set (registered items s1)" "resting items {n_chans s0} s1"
    "posted (chans s1 (n_chans s0)) True terminate_header"
    "\<exists>c. s1 = (snd (entrust_handle X b' False s0))\<lparr> chans := c \<rparr>" by (rule runtime_drop_posts[OF assms(1) c0])
  obtain k s2 where k: "run_system X k s1 = Next (s2\<lparr> status := Terminating \<rparr>)" "tidied items s1 s2"
    using worker_queue.terminate_reaches[OF worker_queue.intro[OF assms(1)] s1(3,2,4)] by blast
  let ?s = "s2\<lparr> status := Terminating \<rparr>"
  have m: "chans s2 = chans s1" "fibers s2 = fibers s1" "trustee_id s2 = trustee_id s1"
    using moved_simps[of s1 s2] k(2) by (auto simp: tidied_def)
  have "trustee_id s1 = tid"
    using s1(5) e by (auto simp: entrust_handle_def new_chan_def register_def worker_start_def Let_def)
  then have own: "\<not> on_owning_trustee th ?s" using m(3) assms(5) by (simp add: on_owning_trustee_def)
  obtain r' s0' where e': "entrust_handle X b' False s0 = (r', s0')" by (rule prod.exhaust)
  have "registered items s1 = registered items s0'" using s1(5) e' by (auto simp: registered_def)
  then have "r_chan r \<in> set (registered items s1)"
    using entrust_handle_registered(1)[OF assms(1) e'] entrust_handle_registered(1,2)[OF assms(1) e] by simp
  then have "wf_chan (chans s1 (r_chan r))" "\<forall>f. inbox (fibers s1 f) = []" using s1(3) by (auto simp: resting_def)
  then have "fst (remote_apply X fuel th (as_remote h) R f ?s) = NoReply" for fuel
    by (intro stopped_apply) (use m own assms(4,6) pr(2) in \<open>simp_all add: as_remote_def\<close>)
  moreover have "Runtime_drop X b' rt pr = Ok (pr\<lparr> psys := s1, stops := Suc (stops pr) \<rparr>)"
    using s1(1) pr by (simp add: Runtime_drop_def)
  ultimately show ?thesis using pr(2) k(1) by (intro conjI exI) auto
qed

theorem spawned_handle_hangs_witness:
  "\<exists>rt h pr pr1 k s. spawn_program demo_world 5 7 0x10000 [] [] = (rt, h, pr) \<and>
     Runtime_drop demo_world 0x20000 rt pr = Ok pr1 \<and> run_system demo_world k (psys pr1) = Next s \<and>
     fst (remote_apply demo_world 1000 client_thread (as_remote h) u64_ret (add_fn 3) s) = NoReply"
proof -
  obtain rt h pr where e: "spawn_program demo_world 5 7 0x10000 [] [] = (rt, h, pr)" by (metis prod_cases3)
  have "tid \<noteq> caller_id client_thread" if "tid = 7" for tid using that by (simp add: client_thread_def)
  from spawned_handle_hangs[OF demo_queue refl e demo_fits(1) this[OF refl] demo_not_owner(2), where b' = "0x20000" and R = u64_ret]
  show ?thesis using e by blast
qed

end
