(* ===== verification/Protocol.thy ===== *)
theory Protocol
  imports Prelude
begin

text \<open>
  The channel protocol under concurrency: clients and the worker interleave at the granularity of
  their accesses to the shared slots - the write of the request bytes, the loads and stores of the
  two flag words, the execution of the record with the write of the response bytes, the read of
  the response (src/trust/remote.rs, the body of an operation; src/runtime/runtime.rs, the visit
  of a client). The worker may turn to any client at any time, which covers every order of the
  scan. Operations and their effect on the property are parameters; the records and bytes behind
  them are the subject of the other theories.
\<close>

section \<open>State and steps\<close>

text \<open>Where a client is in an operation.\<close>

datatype 'op client_pc =
    Idle
  | Written 'op
  | Published 'op bool
  | Answered 'op

text \<open>Where the worker is in a visit: between visits, after the load of the request's flag word,
  after both loads, or with the record executed and the response word still to be stored.\<close>

datatype worker_pc =
    Between
  | LoadedReq nat bool
  | LoadedBoth nat bool bool
  | Executed nat bool

record ('t, 'op, 'r) proto =
  property :: 't
  req_flag :: "nat \<Rightarrow> bool"
  resp_flag :: "nat \<Rightarrow> bool"
  req_slot :: "nat \<Rightarrow> 'op option"
  resp_slot :: "nat \<Rightarrow> 'r option"
  client :: "nat \<Rightarrow> 'op client_pc"
  worker :: worker_pc
  executed :: "(nat \<times> 'op \<times> 'r) list"
  returned :: "nat \<Rightarrow> ('op \<times> 'r) list"

definition proto_init :: "'t \<Rightarrow> ('t, 'op, 'r) proto" where
  "proto_init v =
     \<lparr> property = v, req_flag = (\<lambda>_. False), resp_flag = (\<lambda>_. False),
       req_slot = (\<lambda>_. None), resp_slot = (\<lambda>_. None), client = (\<lambda>_. Idle), worker = Between,
       executed = [], returned = (\<lambda>_. []) \<rparr>"

text \<open>The two kinds of steps; \<open>eval\<close> runs an operation on the property.\<close>

inductive client_step :: "('t, 'op, 'r) proto \<Rightarrow> nat \<Rightarrow> ('t, 'op, 'r) proto \<Rightarrow> bool" where
  put: "client s j = Idle \<Longrightarrow>
    client_step s j (s\<lparr> req_slot := (req_slot s)(j := Some x), client := (client s)(j := Written x) \<rparr>)"
| publish: "client s j = Written x \<Longrightarrow> b = (\<not> resp_flag s j) \<Longrightarrow>
    client_step s j (s\<lparr> req_flag := (req_flag s)(j := b), client := (client s)(j := Published x b) \<rparr>)"
| poll: "client s j = Published x b \<Longrightarrow> resp_flag s j = b \<Longrightarrow>
    client_step s j (s\<lparr> client := (client s)(j := Answered x) \<rparr>)"
| get: "client s j = Answered x \<Longrightarrow> resp_slot s j = Some r \<Longrightarrow>
    client_step s j (s\<lparr> client := (client s)(j := Idle), returned := (returned s)(j := returned s j @ [(x, r)]) \<rparr>)"

inductive worker_step :: "('op \<Rightarrow> 't \<Rightarrow> 't \<times> 'r) \<Rightarrow> ('t, 'op, 'r) proto \<Rightarrow> ('t, 'op, 'r) proto \<Rightarrow> bool"
  for eval where
  load_req: "worker s = Between \<Longrightarrow>
    worker_step eval s (s\<lparr> worker := LoadedReq j (req_flag s j) \<rparr>)"
| load_resp: "worker s = LoadedReq j b \<Longrightarrow>
    worker_step eval s (s\<lparr> worker := LoadedBoth j b (resp_flag s j) \<rparr>)"
| skip: "worker s = LoadedBoth j b b \<Longrightarrow> worker_step eval s (s\<lparr> worker := Between \<rparr>)"
| execute: "worker s = LoadedBoth j b b' \<Longrightarrow> b \<noteq> b' \<Longrightarrow> req_slot s j = Some x \<Longrightarrow> eval x (property s) = (t, r) \<Longrightarrow>
    worker_step eval s (s\<lparr> property := t, resp_slot := (resp_slot s)(j := Some r),
      executed := executed s @ [(j, x, r)], worker := Executed j b \<rparr>)"
| store: "worker s = Executed j b \<Longrightarrow>
    worker_step eval s (s\<lparr> resp_flag := (resp_flag s)(j := b), worker := Between \<rparr>)"

inductive_simps client_step_iff: "client_step s j s'"
inductive_simps worker_step_iff: "worker_step eval s s'"

inductive reachable :: "('op \<Rightarrow> 't \<Rightarrow> 't \<times> 'r) \<Rightarrow> 't \<Rightarrow> ('t, 'op, 'r) proto \<Rightarrow> bool" for eval v where
  init: "reachable eval v (proto_init v)"
| client: "reachable eval v s \<Longrightarrow> client_step s j s' \<Longrightarrow> reachable eval v s'"
| worker: "reachable eval v s \<Longrightarrow> worker_step eval s s' \<Longrightarrow> reachable eval v s'"

section \<open>The invariant\<close>

text \<open>Replaying the operations executed gives the property and their results.\<close>

fun replay :: "('op \<Rightarrow> 't \<Rightarrow> 't \<times> 'r) \<Rightarrow> (nat \<times> 'op \<times> 'r) list \<Rightarrow> 't \<Rightarrow> 't \<Rightarrow> bool" where
  "replay eval [] v t \<longleftrightarrow> t = v"
| "replay eval ((j, x, r) # es) v t \<longleftrightarrow> snd (eval x v) = r \<and> replay eval es (fst (eval x v)) t"

lemma replay_snoc:
  "replay eval es v t \<Longrightarrow> eval x t = (t', r) \<Longrightarrow> replay eval (es @ [(j, x, r)]) v t'"
  by (induction es arbitrary: v) auto

text \<open>What has been executed for a client.\<close>

definition executed_for :: "nat \<Rightarrow> ('t, 'op, 'r) proto \<Rightarrow> ('op \<times> 'r) list" where
  "executed_for j s = map snd (filter (\<lambda>e. fst e = j) (executed s))"

text \<open>The state of one channel: its flags say whether a request is pending, and what has been
  executed for the client is what it has been returned, plus the operation it is waiting for once
  that has been executed.\<close>

definition busy_with :: "nat \<Rightarrow> ('t, 'op, 'r) proto \<Rightarrow> bool" where
  "busy_with j s \<longleftrightarrow> (\<exists>b. worker s = Executed j b)"

definition chan_inv :: "nat \<Rightarrow> ('t, 'op, 'r) proto \<Rightarrow> bool" where
  "chan_inv j s \<longleftrightarrow>
     (case client s j of
        Idle \<Rightarrow> req_flag s j = resp_flag s j \<and> \<not> busy_with j s \<and> executed_for j s = returned s j
      | Written x \<Rightarrow> req_flag s j = resp_flag s j \<and> \<not> busy_with j s \<and> executed_for j s = returned s j \<and>
          req_slot s j = Some x
      | Published x b \<Rightarrow> req_flag s j = b \<and> req_slot s j = Some x \<and>
          (if resp_flag s j = b \<or> busy_with j s
           then \<exists>r. resp_slot s j = Some r \<and> executed_for j s = returned s j @ [(x, r)]
           else executed_for j s = returned s j) \<and>
          (busy_with j s \<longrightarrow> resp_flag s j \<noteq> b)
      | Answered x \<Rightarrow> req_flag s j = resp_flag s j \<and> \<not> busy_with j s \<and>
          (\<exists>r. resp_slot s j = Some r \<and> executed_for j s = returned s j @ [(x, r)]))"

text \<open>What the worker has loaded is still so: the response word is its own, and a request word that
  differs from it cannot change before the answer.\<close>

definition worker_inv :: "('t, 'op, 'r) proto \<Rightarrow> bool" where
  "worker_inv s \<longleftrightarrow>
     (case worker s of
        Between \<Rightarrow> True
      | LoadedReq j b \<Rightarrow> b \<noteq> resp_flag s j \<longrightarrow> (\<exists>x. client s j = Published x b)
      | LoadedBoth j b b' \<Rightarrow> b' = resp_flag s j \<and> (b \<noteq> b' \<longrightarrow> (\<exists>x. client s j = Published x b))
      | Executed j b \<Rightarrow> \<exists>x. client s j = Published x b)"

definition proto_inv :: "('op \<Rightarrow> 't \<Rightarrow> 't \<times> 'r) \<Rightarrow> 't \<Rightarrow> ('t, 'op, 'r) proto \<Rightarrow> bool" where
  "proto_inv eval v s \<longleftrightarrow> (\<forall>j. chan_inv j s) \<and> worker_inv s \<and> replay eval (executed s) v (property s)"

lemmas proto_inv_defs = proto_inv_def chan_inv_def worker_inv_def busy_with_def executed_for_def

lemma proto_inv_init: "proto_inv eval v (proto_init v)"
  by (simp add: proto_inv_defs proto_init_def)

section \<open>Preservation\<close>

lemma client_step_others:
  assumes "client_step s j s'" "k \<noteq> j" "chan_inv k s"
  shows "chan_inv k s'"
  using assms
  by (cases; auto simp: chan_inv_def busy_with_def executed_for_def split: client_pc.splits if_splits)

lemma client_step_own:
  assumes "client_step s j s'" "chan_inv j s"
  shows "chan_inv j s'"
  using assms by (cases; auto simp: chan_inv_def busy_with_def executed_for_def split: if_splits)

lemma client_step_worker:
  assumes "client_step s j s'" "worker_inv s" "chan_inv j s"
  shows "worker_inv s'"
  using assms
  by (cases; auto simp: worker_inv_def chan_inv_def busy_with_def split: worker_pc.splits)

lemma client_step_frame: "client_step s j s' \<Longrightarrow> executed s' = executed s \<and> property s' = property s"
  by (auto simp: client_step_iff)

lemma client_step_inv: "proto_inv eval v s \<Longrightarrow> client_step s j s' \<Longrightarrow> proto_inv eval v s'"
  unfolding proto_inv_def
  by (metis client_step_others client_step_own client_step_worker client_step_frame)

lemma worker_step_chan:
  assumes "worker_step eval s s'" "chan_inv k s" "worker_inv s"
  shows "chan_inv k s'"
  using assms(1)
proof cases
  case (execute j b b' x t r)
  then obtain y where y: "client s j = Published y b" "b' = resp_flag s j" using assms(3) by (auto simp: worker_inv_def)
  show ?thesis
  proof (cases "k = j")
    case True
    then show ?thesis using execute y assms(2) by (auto simp: chan_inv_def busy_with_def executed_for_def)
  next
    case False
    then show ?thesis using execute assms(2)
      by (auto simp: chan_inv_def busy_with_def executed_for_def split: client_pc.splits)
  qed
next
  case (store j b)
  then show ?thesis using assms(2,3)
    by (auto simp: chan_inv_def busy_with_def executed_for_def worker_inv_def split: client_pc.splits if_splits)
qed (use assms(2) in \<open>auto simp: chan_inv_def busy_with_def executed_for_def split: client_pc.splits\<close>)

lemma worker_step_worker:
  assumes "worker_step eval s s'" "worker_inv s" "\<forall>j. chan_inv j s"
  shows "worker_inv s'"
  using assms(1)
proof cases
  case (load_req j)
  then show ?thesis using spec[OF assms(3), of j]
    by (auto simp: worker_inv_def chan_inv_def busy_with_def split: client_pc.splits)
qed (use assms(2) in \<open>auto simp: worker_inv_def\<close>)

lemma worker_step_inv: "proto_inv eval v s \<Longrightarrow> worker_step eval s s' \<Longrightarrow> proto_inv eval v s'"
proof -
  assume inv: "proto_inv eval v s" and st: "worker_step eval s s'"
  have "replay eval (executed s') v (property s')"
    using st inv by cases (auto simp: proto_inv_def intro: replay_snoc)
  then show ?thesis
    using inv worker_step_chan[OF st] worker_step_worker[OF st] by (simp add: proto_inv_def)
qed

lemma reachable_inv: "reachable eval v s \<Longrightarrow> proto_inv eval v s"
  by (induction rule: reachable.induct) (auto intro: proto_inv_init client_step_inv worker_step_inv)

lemma reachable_chan: "reachable eval v s \<Longrightarrow> chan_inv j s"
  and reachable_worker: "reachable eval v s \<Longrightarrow> worker_inv s"
  using reachable_inv[of eval v s] by (simp_all add: proto_inv_def)

lemma worker_steps_reachable:
  "(worker_step eval)\<^sup>*\<^sup>* s s' \<Longrightarrow> reachable eval v s \<Longrightarrow> reachable eval v s'"
  by (induction rule: rtranclp_induct) (auto intro: reachable.worker)

section \<open>Ending a visit\<close>

text \<open>The worker's steps leave the clients alone.\<close>

lemma worker_step_client: "worker_step eval s s' \<Longrightarrow> client s' = client s \<and> returned s' = returned s"
  by (auto simp: worker_step_iff)

lemma worker_steps_client:
  "(worker_step eval)\<^sup>*\<^sup>* s s' \<Longrightarrow> client s' = client s \<and> returned s' = returned s"
  by (induction rule: rtranclp_induct) (auto dest: worker_step_client)

text \<open>A visit under way can always be ended.\<close>

lemma from_Executed:
  assumes "worker s = Executed j b"
  shows "\<exists>s'. (worker_step eval)\<^sup>*\<^sup>* s s' \<and> worker s' = Between \<and> resp_flag s' j = b"
  using worker_step.store[OF assms, of eval] by (intro exI conjI, rule r_into_rtranclp) auto

lemma from_LoadedBoth:
  assumes "reachable eval v s" "worker s = LoadedBoth j b b'"
  shows "\<exists>s'. (worker_step eval)\<^sup>*\<^sup>* s s' \<and> worker s' = Between \<and> resp_flag s' j = b"
proof (cases "b = b'")
  case True
  then show ?thesis
    using worker_step.skip[of s j b eval] assms(2) reachable_worker[OF assms(1)]
    by (intro exI[of _ "s\<lparr> worker := Between \<rparr>"]) (auto simp: worker_inv_def)
next
  case False
  obtain x where "client s j = Published x b"
    using reachable_worker[OF assms(1)] assms(2) False by (auto simp: worker_inv_def)
  then have "req_slot s j = Some x" using reachable_chan[OF assms(1), of j] by (simp add: chan_inv_def)
  moreover obtain t r where "eval x (property s) = (t, r)" by (rule prod.exhaust)
  ultimately have "worker_step eval s (s\<lparr> property := t, resp_slot := (resp_slot s)(j := Some r),
      executed := executed s @ [(j, x, r)], worker := Executed j b \<rparr>)" (is "worker_step eval s ?u")
    using assms(2) False by (intro worker_step.execute)
  moreover obtain s' where "(worker_step eval)\<^sup>*\<^sup>* ?u s'" "worker s' = Between" "resp_flag s' j = b"
    using from_Executed[of ?u j b eval] by auto
  ultimately show ?thesis by (meson converse_rtranclp_into_rtranclp)
qed

lemma from_LoadedReq:
  assumes "reachable eval v s" "worker s = LoadedReq j b"
  shows "\<exists>s'. (worker_step eval)\<^sup>*\<^sup>* s s' \<and> worker s' = Between \<and> resp_flag s' j = b"
proof -
  have st: "worker_step eval s (s\<lparr> worker := LoadedBoth j b (resp_flag s j) \<rparr>)" (is "worker_step eval s ?u")
    using assms(2) by (rule worker_step.load_resp)
  have "worker ?u = LoadedBoth j b (resp_flag s j)" by simp
  from from_LoadedBoth[OF reachable.worker[OF assms(1) st] this]
  show ?thesis using st by (meson converse_rtranclp_into_rtranclp)
qed

lemma to_Between:
  assumes "reachable eval v s"
  shows "\<exists>s'. (worker_step eval)\<^sup>*\<^sup>* s s' \<and> worker s' = Between"
proof (cases "worker s")
  case (LoadedReq j b)
  then show ?thesis using from_LoadedReq[OF assms] by blast
next
  case (LoadedBoth j b b')
  then show ?thesis using from_LoadedBoth[OF assms] by blast
next
  case (Executed j b)
  then show ?thesis using from_Executed by blast
qed blast

text \<open>What an invariant channel says of the log.\<close>

lemma chan_inv_log:
  "chan_inv j s \<Longrightarrow> \<exists>rest. executed_for j s = returned s j @ rest \<and> length rest \<le> 1 \<and>
    (client s j = Idle \<longrightarrow> rest = [])"
  by (auto simp: chan_inv_def split: client_pc.splits if_splits)

lemma answered_step:
  assumes "chan_inv j s" "client s j = Published x b" "resp_flag s j = b"
  shows "\<exists>s2 s3 r. client_step s j s2 \<and> client_step s2 j s3 \<and>
    returned s3 j = returned s j @ [(x, r)] \<and> executed_for j s3 = returned s3 j"
proof -
  obtain r where r: "resp_slot s j = Some r" "executed_for j s = returned s j @ [(x, r)]"
    using assms by (auto simp: chan_inv_def)
  have 2: "client_step s j (s\<lparr> client := (client s)(j := Answered x) \<rparr>)" (is "client_step s j ?s2")
    using assms(2,3) by (rule client_step.poll)
  have "client_step ?s2 j (?s2\<lparr> client := (client ?s2)(j := Idle),
      returned := (returned ?s2)(j := returned ?s2 j @ [(x, r)]) \<rparr>)"
    using r by (intro client_step.get) simp_all
  then show ?thesis using 2 r by (intro exI conjI) (auto simp: executed_for_def)
qed

section \<open>Whole operations\<close>

text \<open>The worker's whole visit of a pending request.\<close>

lemma proto_serves:
  assumes r: "reachable eval v p" and w: "worker p = Between"
    and n: "req_flag p j = b" "resp_flag p j = (\<not> b)" and x: "req_slot p j = Some f"
    and e: "eval f (property p) = (t, r')"
  shows "reachable eval v (p\<lparr> property := t, resp_slot := (resp_slot p)(j := Some r'),
    executed := executed p @ [(j, f, r')], resp_flag := (resp_flag p)(j := b), worker := Between \<rparr>)"
proof -
  let ?p1 = "p\<lparr> worker := LoadedReq j b \<rparr>" and ?p2 = "p\<lparr> worker := LoadedBoth j b (\<not> b) \<rparr>"
  let ?p3 = "?p2\<lparr> property := t, resp_slot := (resp_slot p)(j := Some r'),
    executed := executed p @ [(j, f, r')], worker := Executed j b \<rparr>"
  have "worker_step eval p ?p1" using worker_step.load_req[OF w, of eval j] n by simp
  with r have "reachable eval v ?p1" by (rule reachable.worker)
  moreover have "worker_step eval ?p1 ?p2" using worker_step.load_resp[of ?p1 j b eval] n by simp
  ultimately have "reachable eval v ?p2" by (rule reachable.worker)
  moreover have "worker_step eval ?p2 ?p3" using worker_step.execute[of ?p2 j b "\<not> b" f eval t r'] x e by simp
  ultimately have "reachable eval v ?p3" by (rule reachable.worker)
  moreover have "worker_step eval ?p3 (?p3\<lparr> resp_flag := (resp_flag ?p3)(j := b), worker := Between \<rparr>)"
    by (rule worker_step.store) simp
  ultimately have "reachable eval v (?p3\<lparr> resp_flag := (resp_flag ?p3)(j := b), worker := Between \<rparr>)"
    by (rule reachable.worker)
  then show ?thesis by simp
qed

text \<open>The channels in order, between two visits of the worker, whatever the property holds and whatever
  the operations have returned: what is left of the invariant when the property has been damaged.\<close>

definition in_order :: "('t, 'op, 'r) proto \<Rightarrow> bool" where
  "in_order p \<longleftrightarrow> worker p = Between \<and> (\<forall>j. chan_inv j p)"

lemma in_order_init: "in_order (proto_init v)"
  by (simp add: in_order_def chan_inv_def busy_with_def executed_for_def proto_init_def)

lemma in_order_client: "client_step p j p' \<Longrightarrow> in_order p \<Longrightarrow> in_order p'"
  using client_step_own[of p j p'] client_step_others[of p j p']
  by (force simp: in_order_def client_step_iff)

lemma in_order_property [simp]: "in_order (p\<lparr> property := t \<rparr>) = in_order p"
proof -
  have "chan_inv j (p\<lparr> property := t \<rparr>) = chan_inv j p" for j
    by (cases "client p j") (simp_all add: chan_inv_def busy_with_def executed_for_def)
  then show ?thesis by (simp add: in_order_def)
qed

lemma in_order_serves:
  assumes r: "in_order p" and n: "req_flag p j = b" "resp_flag p j = (\<not> b)" and x: "req_slot p j = Some f"
  shows "in_order (p\<lparr> property := t, resp_slot := (resp_slot p)(j := Some r'),
    executed := executed p @ [(j, f, r')], resp_flag := (resp_flag p)(j := b), worker := Between \<rparr>)" (is "in_order ?p")
proof -
  have "chan_inv k ?p" for k
  proof -
    have k: "chan_inv k p" "worker p = Between" using r by (simp_all add: in_order_def)
    show ?thesis
    proof (cases "k = j")
      case True
      then show ?thesis using k n x
        by (auto simp: chan_inv_def busy_with_def executed_for_def split: client_pc.splits)
    next
      case False
      then show ?thesis using k
        by (auto simp: chan_inv_def busy_with_def executed_for_def split: client_pc.splits)
    qed
  qed
  then show ?thesis by (simp add: in_order_def)
qed

text \<open>An operation run from its first step to its last while nobody else moves.\<close>

definition at_rest :: "('t, 'op, 'r) proto \<Rightarrow> bool" where
  "at_rest s \<longleftrightarrow> worker s = Between \<and> (\<forall>j. client s j = Idle)"

lemma operation_run:
  assumes r: "reachable eval v s" and i: "at_rest s"
  obtains s' where "reachable eval v s'" "at_rest s'" "property s' = fst (eval x (property s))"
    "executed s' = executed s @ [(j, x, snd (eval x (property s)))]"
    "returned s' = (returned s)(j := returned s j @ [(x, snd (eval x (property s)))])"
proof -
  let ?b = "\<not> resp_flag s j" and ?e = "eval x (property s)"
  let ?s1 = "s\<lparr> req_slot := (req_slot s)(j := Some x), client := (client s)(j := Written x) \<rparr>"
  let ?s2 = "?s1\<lparr> req_flag := (req_flag s)(j := ?b), client := (client ?s1)(j := Published x ?b) \<rparr>"
  have "client_step s j ?s1" by (rule client_step.put) (use i in \<open>simp add: at_rest_def\<close>)
  with r have "reachable eval v ?s1" by (rule reachable.client)
  moreover have "client_step ?s1 j ?s2" using client_step.publish[of ?s1 j x ?b] by simp
  ultimately have r2: "reachable eval v ?s2" by (rule reachable.client)
  let ?s3 = "?s2\<lparr> property := fst ?e, resp_slot := (resp_slot ?s2)(j := Some (snd ?e)),
    executed := executed ?s2 @ [(j, x, snd ?e)], resp_flag := (resp_flag ?s2)(j := ?b), worker := Between \<rparr>"
  have r3: "reachable eval v ?s3" by (rule proto_serves[OF r2]) (use i in \<open>simp_all add: at_rest_def\<close>)
  let ?s4 = "?s3\<lparr> client := (client ?s3)(j := Answered x) \<rparr>"
  have "client_step ?s3 j ?s4" by (rule client_step.poll) simp_all
  with r3 have "reachable eval v ?s4" by (rule reachable.client)
  moreover have "client_step ?s4 j (?s4\<lparr> client := (client ?s4)(j := Idle),
      returned := (returned ?s4)(j := returned ?s4 j @ [(x, snd ?e)]) \<rparr>)" by (rule client_step.get) simp_all
  ultimately have "reachable eval v (?s4\<lparr> client := (client ?s4)(j := Idle),
      returned := (returned ?s4)(j := returned ?s4 j @ [(x, snd ?e)]) \<rparr>)" by (rule reachable.client)
  then show ?thesis by (rule that) (use i in \<open>simp_all add: at_rest_def\<close>)
qed

lemma sequential_run: "\<exists>s. reachable eval v s \<and> at_rest s \<and> map (\<lambda>(j, x, r). (j, x)) (executed s) = xs"
proof (induction xs rule: rev_induct)
  case Nil
  then show ?case using reachable.init[of eval v] by (intro exI[of _ "proto_init v"]) (simp add: proto_init_def at_rest_def)
next
  case (snoc jx xs)
  then obtain s where s: "reachable eval v s" "at_rest s" "map (\<lambda>(j, x, r). (j, x)) (executed s) = xs" by blast
  obtain s' where "reachable eval v s'" "at_rest s'" "executed s' = executed s @ [(fst jx, snd jx, snd (eval (snd jx) (property s)))]"
    by (rule operation_run[OF s(1,2), of "snd jx" "fst jx"])
  then show ?case using s(3) by (intro exI[of _ s']) simp
qed

section \<open>A run\<close>

text \<open>A counter of 10 behind one client's fetch-and-add of 3: the request published, loaded by the
  worker, and executed.\<close>

definition fetch_add :: "nat \<Rightarrow> nat \<Rightarrow> nat \<times> nat" where
  "fetch_add x t = (t + x, t)"

definition demo_waiting :: "(nat, nat, nat) proto" where
  "demo_waiting = (proto_init 10)\<lparr> req_slot := [0 \<mapsto> 3], req_flag := (\<lambda>_. False)(0 := True),
     client := (\<lambda>_. Idle)(0 := Published 3 True) \<rparr>"

definition demo_loaded :: "(nat, nat, nat) proto" where
  "demo_loaded = demo_waiting\<lparr> worker := LoadedBoth 0 True False \<rparr>"

definition demo_executed :: "(nat, nat, nat) proto" where
  "demo_executed = demo_loaded\<lparr> property := 13, resp_slot := [0 \<mapsto> 10], executed := [(0, 3, 10)],
     worker := Executed 0 True \<rparr>"

lemma demo_waiting_reachable: "reachable fetch_add 10 demo_waiting"
proof -
  let ?w = "(proto_init 10 :: (nat, nat, nat) proto)\<lparr> req_slot := [0 \<mapsto> 3], client := (\<lambda>_. Idle)(0 := Written 3) \<rparr>"
  have "client_step (proto_init 10) 0 ?w"
    using client_step.put[of "proto_init 10" 0 3] by (simp add: proto_init_def)
  moreover have "client_step ?w 0 demo_waiting"
    by (simp add: client_step_iff demo_waiting_def proto_init_def)
  ultimately show ?thesis by (meson reachable.intros)
qed

lemma demo_loaded_reachable: "reachable fetch_add 10 demo_loaded"
proof -
  have "worker_step fetch_add demo_waiting (demo_waiting\<lparr> worker := LoadedReq 0 True \<rparr>)"
    (is "worker_step _ _ ?w")
    using worker_step.load_req[of demo_waiting fetch_add 0] by (simp add: demo_waiting_def proto_init_def)
  moreover have "worker_step fetch_add ?w demo_loaded"
    using worker_step.load_resp[of ?w 0 True fetch_add]
    by (simp add: demo_loaded_def demo_waiting_def proto_init_def)
  ultimately show ?thesis using demo_waiting_reachable by (meson reachable.intros)
qed

lemma demo_executed_reachable: "reachable fetch_add 10 demo_executed"
proof -
  have "worker_step fetch_add demo_loaded demo_executed"
    using worker_step.execute[of demo_loaded 0 True False 3 fetch_add 13 10]
    by (simp add: demo_executed_def demo_loaded_def demo_waiting_def proto_init_def fetch_add_def)
  then show ?thesis using demo_loaded_reachable by (rule reachable.worker[rotated])
qed

lemmas demo_states = demo_executed_def demo_loaded_def demo_waiting_def proto_init_def

section \<open>Properties\<close>

text \<open>However clients and worker interleave, the property is what the operations give when they
  are run one at a time in the order the worker executed them, with the results they then have; and
  each client has been returned exactly the results of its own operations in the order it issued
  them, all of them but at most the one it is waiting for.\<close>

lemma channel_linearizable:
  assumes "reachable eval v s"
  shows "replay eval (executed s) v (property s) \<and>
    (\<exists>rest. executed_for j s = returned s j @ rest \<and> length rest \<le> 1 \<and>
      (client s j = Idle \<longrightarrow> rest = []))"
  using reachable_inv[OF assms] chan_inv_log[OF reachable_chan[OF assms, of j]]
  by (simp add: proto_inv_def)

text \<open>C24. The slots are never accessed from both sides: while the worker is at a request it found
  pending - from the second load to the store of the response word - the request is the one the
  client published, and the client has no step but the poll of a word that does not change yet.\<close>

theorem channel_exclusive:
  assumes "reachable eval v s" "worker s = LoadedBoth j b (\<not> b) \<or> worker s = Executed j b"
  shows "(\<exists>x. client s j = Published x b \<and> req_slot s j = Some x) \<and> (\<forall>s'. \<not> client_step s j s')"
proof -
  obtain x where x: "client s j = Published x b" "resp_flag s j \<noteq> b"
    using reachable_worker[OF assms(1)] reachable_chan[OF assms(1), of j] assms(2)
    by (auto simp: worker_inv_def chan_inv_def busy_with_def)
  then show ?thesis
    using reachable_chan[OF assms(1), of j] by (auto simp: chan_inv_def client_step_iff)
qed

theorem channel_exclusive_witness:
  "req_slot demo_loaded 0 = Some 3 \<and> worker demo_loaded = LoadedBoth 0 True False \<and>
   \<not> (\<exists>s'. client_step demo_loaded 0 s')"
  using channel_exclusive[OF demo_loaded_reachable, of 0 True] by (auto simp: demo_states)

text \<open>No deadlock: from every reachable state the worker can, by its own steps alone, answer a
  client that has published a request, and the client can then take a result, which is the one its
  operation was executed with.\<close>

lemma channel_answerable:
  assumes "reachable eval v s" "client s j = Published x b"
  shows "\<exists>s1 s2 s3 r. (worker_step eval)\<^sup>*\<^sup>* s s1 \<and> client_step s1 j s2 \<and> client_step s2 j s3 \<and>
    returned s3 j = returned s j @ [(x, r)] \<and> executed_for j s3 = returned s3 j"
proof -
  obtain u where u: "(worker_step eval)\<^sup>*\<^sup>* s u" "worker u = Between"
    using to_Between[OF assms(1)] by blast
  have ru: "reachable eval v u" and cu: "client u = client s"
    using worker_steps_reachable[OF u(1) assms(1)] worker_steps_client[OF u(1)] by auto
  have "req_flag u j = b" using reachable_chan[OF ru, of j] cu assms(2) by (simp add: chan_inv_def)
  then have st: "worker_step eval u (u\<lparr> worker := LoadedReq j b \<rparr>)" (is "worker_step eval u ?w")
    using worker_step.load_req[OF u(2), of eval j] by simp
  then obtain s1 where s1: "(worker_step eval)\<^sup>*\<^sup>* ?w s1" "resp_flag s1 j = b"
    using from_LoadedReq[OF reachable.worker[OF ru st], of j b] by auto
  have run: "(worker_step eval)\<^sup>*\<^sup>* s s1" using u(1) st s1(1) by (meson converse_rtranclp_into_rtranclp rtranclp_trans)
  have "chan_inv j s1" "client s1 j = Published x b" "returned s1 = returned s"
    using reachable_chan[OF worker_steps_reachable[OF run assms(1)]] worker_steps_client[OF run] assms(2) by auto
  then show ?thesis using run answered_step[of j s1 x b] s1(2) by metis
qed

end
