(* ===== verification/Concurrent.thy ===== *)
theory Concurrent
  imports Client_Ops Protocol
begin

text \<open>
  Many clients at once, byte for byte: clients write, publish, poll and read on their channels
  (src/trust/remote.rs) while the worker polls registrations and visits one client after the other
  (src/runtime/runtime.rs) and its fibers run the launched closures, each for as long as it likes,
  with other steps in between. As long as no two closures have overlapped, a run is a run of the
  abstract protocol, so what holds of the protocol under interleaving holds of the bytes.
\<close>

section \<open>The concurrent system\<close>

text \<open>The system, where each client is in its operation, what it has been returned, and where the
  worker is in its round: the number of clients it scans, the next offset, whether it has served
  one. The fibers that are in the middle of a launched closure - it runs on a coroutine of its own,
  beside the worker - and whether a closure has ever run on the property while another was under way.\<close>

record ('t, 'q, 'p, 'v, 'r) conc =
  sys :: "('t, 'q, 'p) rt"
  at :: "nat \<Rightarrow> ('t, 'v, 'r) client_op client_pc"
  got :: "nat \<Rightarrow> (('t, 'v, 'r) client_op \<times> 'r answer) list"
  scanning :: "(nat \<times> nat \<times> bool) option"
  inside :: "nat set"
  overlapped :: bool

definition conc_start :: "'t \<Rightarrow> usize \<Rightarrow> 'q \<Rightarrow> 'p \<Rightarrow> ('t, 'q, 'p, 'v, 'r) conc" where
  "conc_start v tid q p =
     \<lparr> sys = worker_start v tid q p, at = (\<lambda>_. Idle), got = (\<lambda>_. []), scanning = None,
       inside = {}, overlapped = False \<rparr>"

definition put_chan :: "nat \<Rightarrow> ChannelPair \<Rightarrow> ('t, 'q, 'p) rt \<Rightarrow> ('t, 'q, 'p) rt" where
  "put_chan j c s = s\<lparr> chans := (chans s)(j := c) \<rparr>"

definition round_start :: "('t, 'q, 'p) world \<Rightarrow> ('t, 'q, 'p) rt \<Rightarrow> ('t, 'q, 'p) rt" where
  "round_start X s = poll_registrations X (s\<lparr> loop_counter := loop_counter s + 1 \<rparr>)"

text \<open>The closure of a request the worker is to run itself, and not to hand to a fiber.\<close>

definition calls_closure :: "('t, 'q, 'p, 'v, 'r) conc \<Rightarrow> nat \<Rightarrow> bool" where
  "calls_closure c idx \<longleftrightarrow>
     (case at c (cp_chan (clients (sys c) ! idx)) of Published x b \<Rightarrow> op_tag x \<noteq> Launch | _ \<Rightarrow> False)"

text \<open>A launched closure takes time: its fiber enters it with the job at the head of its inbox, and leaves
  it with the effect on the property, the answer and the return to the pool. Any steps of the worker,
  of the clients and of other fibers may come in between. A visit is one step: a launched closure that
  starts while the worker is in the middle of a visit was in its inbox before, and counts as entered
  before it. A closure that starts while another is under way overlaps it. Both then hold references to
  the property: the worker's is exclusive, and those of launched closures are shared references to a
  value that need only be fit to be sent. The model takes every overlap for a data race: from then on the
  property may change to any value at any moment. What else undefined behaviour may do is left out.\<close>

inductive conc_step ::
    "('t, 'q, 'p) world \<Rightarrow> 'v codec \<Rightarrow> ('t, 'q, 'p, 'v, 'r) conc \<Rightarrow> ('t, 'q, 'p, 'v, 'r) conc \<Rightarrow> bool" for X B where
  writes: "at c j = Idle \<Longrightarrow> j < n_chans (sys c) \<Longrightarrow> sendable X B x \<Longrightarrow> op_write B x (chans (sys c) j) = Ok c1 \<Longrightarrow>
    conc_step X B c (c\<lparr> sys := put_chan j c1 (sys c), at := (at c)(j := Written x) \<rparr>)"
| publishes: "at c j = Written x \<Longrightarrow> publish (chans (sys c) j) = (b, c2) \<Longrightarrow>
    conc_step X B c (c\<lparr> sys := put_chan j c2 (sys c), at := (at c)(j := Published x b) \<rparr>)"
| polls: "at c j = Published x b \<Longrightarrow> response_ready b (chans (sys c) j) \<Longrightarrow>
    conc_step X B c (c\<lparr> at := (at c)(j := Answered x) \<rparr>)"
| reads: "at c j = Answered x \<Longrightarrow> op_read x (chans (sys c) j) = Ok a \<Longrightarrow>
    conc_step X B c (c\<lparr> at := (at c)(j := Idle), got := (got c)(j := got c j @ [(x, a)]) \<rparr>)"
| opens: "entrust_handle X b own (sys c) = (rm, s') \<Longrightarrow> conc_step X B c (c\<lparr> sys := s' \<rparr>)"
| idles: "scanning c = None \<Longrightarrow> clients (round_start X (sys c)) = [] \<Longrightarrow>
    conc_step X B c (c\<lparr> sys := idle_step (round_start X (sys c)) \<rparr>)"
| starts: "scanning c = None \<Longrightarrow> clients (round_start X (sys c)) \<noteq> [] \<Longrightarrow>
    conc_step X B c (c\<lparr> sys := round_start X (sys c),
      scanning := Some (length (clients (round_start X (sys c))), 0, False) \<rparr>)"
| visits: "scanning c = Some (n, offs, pr) \<Longrightarrow> offs < n \<Longrightarrow>
    visit X n (scan_index n (start_idx (sys c)) offs) (sys c) = Next (s', served) \<Longrightarrow>
    conc_step X B c (c\<lparr> sys := s', scanning := Some (n, Suc offs, pr \<or> served),
      overlapped := overlapped c \<or>
        served \<and> inside c \<noteq> {} \<and> calls_closure c (scan_index n (start_idx (sys c)) offs) \<rparr>)"
| ends: "scanning c = Some (n, n, pr) \<Longrightarrow>
    conc_step X B c (c\<lparr> sys := (if pr then (sys c)\<lparr> idle_rounds := 0 \<rparr> else idle_step (sys c)), scanning := None \<rparr>)"
| enters: "inbox_pop (fibers (sys c) g) = Some (Execute job, fb) \<Longrightarrow> g \<notin> inside c \<Longrightarrow>
    conc_step X B c (c\<lparr> inside := insert g (inside c), overlapped := overlapped c \<or> inside c \<noteq> {} \<rparr>)"
| leaves: "g \<in> inside c \<Longrightarrow> fiber_turn X g (sys c) = Inr s' \<Longrightarrow>
    conc_step X B c (c\<lparr> sys := s', inside := inside c - {g} \<rparr>)"
| races: "overlapped c \<Longrightarrow> conc_step X B c (c\<lparr> sys := (sys c)\<lparr> prop_cell := t \<rparr> \<rparr>)"

inductive conc_reachable ::
    "('q \<Rightarrow> ClientPair list) \<Rightarrow> ('p \<Rightarrow> nat list) \<Rightarrow> ('t, 'q, 'p) world \<Rightarrow> 'v codec \<Rightarrow> 't \<Rightarrow>
     ('t, 'q, 'p, 'v, 'r) conc \<Rightarrow> bool"
  for items pitems X B v where
  start: "items q = [] \<Longrightarrow> pitems p = [] \<Longrightarrow> conc_reachable items pitems X B v (conc_start v tid q p)"
| step: "conc_reachable items pitems X B v c \<Longrightarrow> conc_step X B c c' \<Longrightarrow> conc_reachable items pitems X B v c'"

text \<open>A visit that serves nobody, or that finds no launched closure under way, overlaps nothing.\<close>

lemma quiet_visits:
  assumes "scanning c = Some (n, offs, pr)" "offs < n"
    and "visit X n (scan_index n (start_idx (sys c)) offs) (sys c) = Next (s', served)"
    and "\<not> served \<or> inside c = {} \<or> \<not> calls_closure c (scan_index n (start_idx (sys c)) offs)"
  shows "conc_step X B c (c\<lparr> sys := s', scanning := Some (n, Suc offs, pr \<or> served) \<rparr>)"
proof -
  have "c\<lparr> sys := s', scanning := k \<rparr> = c\<lparr> sys := s', scanning := k, overlapped := overlapped c \<rparr>" for k by (cases c) simp
  moreover have "(overlapped c \<or> served \<and> inside c \<noteq> {} \<and> calls_closure c (scan_index n (start_idx (sys c)) offs)) = overlapped c"
    using assms(4) by blast
  ultimately show ?thesis using conc_step.visits[OF assms(1-3), of B] by simp
qed

text \<open>The worker's steps alone are a round of its loop.\<close>

lemma scan_visits:
  assumes "scan X n [offs..<n] pr (sys c) = Next (s', pr')" "scanning c = Some (n, offs, pr)" "offs \<le> n"
  shows "\<exists>ov. (conc_step X B)\<^sup>*\<^sup>* c (c\<lparr> sys := s', scanning := Some (n, n, pr'), overlapped := ov \<rparr>) \<and>
    (ov \<longrightarrow> overlapped c \<or> inside c \<noteq> {})"
  using assms
proof (induction "n - offs" arbitrary: offs pr c)
  case 0
  then have "c\<lparr> sys := s', scanning := Some (n, n, pr'), overlapped := overlapped c \<rparr> = c" by (cases c) auto
  then have "(conc_step X B)\<^sup>*\<^sup>* c (c\<lparr> sys := s', scanning := Some (n, n, pr'), overlapped := overlapped c \<rparr>)" by simp
  then show ?case by blast
next
  case (Suc k)
  then have lt: "offs < n" by simp
  then have l: "[offs..<n] = offs # [Suc offs..<n]" by (rule upt_conv_Cons)
  obtain s1 b where v: "visit X n (scan_index n (start_idx (sys c)) offs) (sys c) = Next (s1, b)"
    and r: "scan X n [Suc offs..<n] (pr \<or> b) s1 = Next (s', pr')"
    using Suc.prems(1) unfolding l by (rule scan_ConsE)
  let ?o = "overlapped c \<or> b \<and> inside c \<noteq> {} \<and> calls_closure c (scan_index n (start_idx (sys c)) offs)"
  let ?c = "c\<lparr> sys := s1, scanning := Some (n, Suc offs, pr \<or> b), overlapped := ?o \<rparr>"
  have st: "conc_step X B c ?c" by (rule conc_step.visits[OF Suc.prems(2) lt v])
  have "\<exists>ov. (conc_step X B)\<^sup>*\<^sup>* ?c (?c\<lparr> sys := s', scanning := Some (n, n, pr'), overlapped := ov \<rparr>) \<and>
      (ov \<longrightarrow> overlapped ?c \<or> inside ?c \<noteq> {})"
    by (rule Suc.hyps(1)) (use Suc.hyps(2) r in simp_all, use lt in linarith)
  then obtain ov where "(conc_step X B)\<^sup>*\<^sup>* ?c (?c\<lparr> sys := s', scanning := Some (n, n, pr'), overlapped := ov \<rparr>)"
    and ov: "ov \<longrightarrow> overlapped c \<or> inside c \<noteq> {}" by auto
  from converse_rtranclp_into_rtranclp[OF st this(1)] show ?case by (intro exI[of _ ov] conjI ov) simp
qed

text \<open>A round overlaps nothing when no launched closure is under way at its start.\<close>

lemma round_is_run:
  assumes w: "worker_round X (sys c) = Next s'" and n: "scanning c = None"
  shows "\<exists>ov. (conc_step X B)\<^sup>*\<^sup>* c (c\<lparr> sys := s', overlapped := ov \<rparr>) \<and> (ov \<longrightarrow> overlapped c \<or> inside c \<noteq> {})"
proof (cases "clients (round_start X (sys c)) = []")
  case True
  then have "s' = idle_step (round_start X (sys c))" using w by (simp add: worker_round_def round_start_def Let_def)
  then have "conc_step X B c (c\<lparr> sys := s' \<rparr>)" using conc_step.idles[OF n True, of B] by simp
  moreover have "c\<lparr> sys := s' \<rparr> = c\<lparr> sys := s', overlapped := overlapped c \<rparr>" by (cases c) simp
  ultimately have "(conc_step X B)\<^sup>*\<^sup>* c (c\<lparr> sys := s', overlapped := overlapped c \<rparr>)" by (metis r_into_rtranclp)
  then show ?thesis by blast
next
  case False
  let ?s = "round_start X (sys c)" and ?n = "length (clients (round_start X (sys c)))"
  obtain s2 pr where sc: "scan X ?n [0..<?n] False ?s = Next (s2, pr)"
    and s': "s' = (if pr then s2\<lparr> idle_rounds := 0 \<rparr> else idle_step s2)"
    using w False by (auto simp: worker_round_def round_start_def Let_def split: flow.splits prod.splits)
  let ?c0 = "c\<lparr> sys := ?s, scanning := Some (?n, 0, False) \<rparr>"
  obtain ov where ov: "(conc_step X B)\<^sup>*\<^sup>* ?c0 (?c0\<lparr> sys := s2, scanning := Some (?n, ?n, pr), overlapped := ov \<rparr>)"
    and i: "ov \<longrightarrow> overlapped c \<or> inside c \<noteq> {}"
    using scan_visits[of X ?n 0 False ?c0 s2 pr B] sc by auto
  let ?c1 = "c\<lparr> sys := s2, scanning := Some (?n, ?n, pr), overlapped := ov \<rparr>"
  have "conc_step X B c ?c0" by (rule conc_step.starts[OF n False])
  also have "(conc_step X B)\<^sup>*\<^sup>* ?c0 ?c1" using ov by simp
  also have "conc_step X B ?c1 (?c1\<lparr> sys := s', scanning := None \<rparr>)"
    unfolding s' using conc_step.ends[of ?c1 ?n pr X B] by (cases pr) simp_all
  also have "?c1\<lparr> sys := s', scanning := None \<rparr> = c\<lparr> sys := s', overlapped := ov \<rparr>" using n by (cases c) simp
  finally show ?thesis using i by blast
qed

section \<open>The bytes of a channel\<close>

text \<open>Writing a request leaves the response and the flag word of the request alone.\<close>

lemma write_request_frame:
  assumes c: "wf_chan c" and f: "fits f (length args)" and w: "write_request p f args fix_hdr c = Ok c1"
  shows "wf_chan c1" "response c1 = response c" "load_flags (request c1) = load_flags (request c)"
proof -
  have wf: "wf_fn f" and n: "length args < 2 ^ 63" using f by (auto simp: fits_def)
  obtain w' m hdr where e: "encode_closure (request_writer c) p f args (request c) = Ok (w', m, hdr)"
    using w by (auto simp: write_request_def obind_Ok_iff)
  obtain m' where m': "write_at 8 (hdr_bytes (fix_hdr hdr)) m = Some m'" and c1: "c1 = c\<lparr> request := m' \<rparr>"
    using w e by (cases "write_at 8 (hdr_bytes (fix_hdr hdr)) m") (auto simp: write_request_def write_unaligned_def)
  have "length m = length (request c)" "load_flags m = load_flags (request c)"
    using encode_closure_memory(1)[OF wf_request_writer[OF c] wf n e] by (simp_all add: encoded_in_def Let_def)
  then show "wf_chan c1" "response c1 = response c" "load_flags (request c1) = load_flags (request c)"
    using c write_at_length[OF m'] load_flags_write_at[OF m'] by (simp_all add: c1 wf_chan_def)
qed

lemma publish_written:
  assumes c: "wf_chan c0" and f: "fits f (length args)" and w: "write_request p f args fix_hdr c0 = Ok c1"
    and pub: "publish c1 = (b, c2)"
  shows "b = (\<not> ready (load_flags (response c1)))" "request_of c0 p f args fix_hdr b c2"
    "response c2 = response c1" "ready (load_flags (request c2)) = b"
proof -
  obtain d1 d2 where d: "write_request p f args fix_hdr c0 = Ok d1"
    "publish d1 = (\<not> ready (load_flags (response c0)), d2)"
    "request_of c0 p f args fix_hdr (\<not> ready (load_flags (response c0))) d2"
    by (rule write_publish[OF c f])
  have r: "response c1 = response c0" by (rule write_request_frame(2)[OF c f w])
  have e: "d1 = c1" "b = (\<not> ready (load_flags (response c0)))" "d2 = c2" using d(1,2) w pub by auto
  show "b = (\<not> ready (load_flags (response c1)))" "request_of c0 p f args fix_hdr b c2"
    using d(3) by (simp_all add: e r)
  then show "response c2 = response c1" "ready (load_flags (request c2)) = b"
    using r by (simp_all add: request_of_def posted_def)
qed

text \<open>What the bytes of a channel say, given the abstract state of the channel.\<close>

definition chan_bytes ::
    "('t, 'q, 'p) world \<Rightarrow> 'v codec \<Rightarrow> nat \<Rightarrow> ChannelPair \<Rightarrow> ('t, ('t, 'v, 'r) client_op, 'r answer) proto \<Rightarrow> bool" where
  "chan_bytes X B j ch p \<longleftrightarrow>
     wf_chan ch \<and> ready (load_flags (request ch)) = req_flag p j \<and> ready (load_flags (response ch)) = resp_flag p j \<and>
     (case client p j of
        Idle \<Rightarrow> True
      | Written x \<Rightarrow> sendable X B x \<and> (\<exists>c0. wf_chan c0 \<and> op_write B x c0 = Ok ch)
      | Published x b \<Rightarrow> sendable X B x \<and>
          (if resp_flag p j = b then \<forall>a. resp_slot p j = Some a \<longrightarrow> op_read x ch = Ok a
           else \<exists>c0. requested B c0 x b ch)
      | Answered x \<Rightarrow> (\<forall>a. resp_slot p j = Some a \<longrightarrow> op_read x ch = Ok a))"

text \<open>The simulation relation: the abstract worker is between visits.\<close>

definition sim ::
    "('t, 'q, 'p) world \<Rightarrow> 'v codec \<Rightarrow> ('t, 'q, 'p, 'v, 'r) conc \<Rightarrow>
     ('t, ('t, 'v, 'r) client_op, 'r answer) proto \<Rightarrow> bool" where
  "sim X B c p \<longleftrightarrow>
     property p = prop_cell (sys c) \<and> client p = at c \<and> returned p = got c \<and> worker p = Between \<and>
     (\<forall>j. chan_bytes X B j (chans (sys c) j) p) \<and>
     (\<forall>j \<ge> n_chans (sys c). client p j = Idle \<and> resp_slot p j = None \<and> \<not> req_flag p j \<and> \<not> resp_flag p j)"

text \<open>A step on one channel, on both sides, keeps the relation when it keeps it there.\<close>

definition view :: "('t, 'op, 'r) proto \<Rightarrow> nat \<Rightarrow> 'op client_pc \<times> bool \<times> bool \<times> 'r option" where
  "view p j = (client p j, req_flag p j, resp_flag p j, resp_slot p j)"

lemma chan_bytes_view: "view p' j = view p j \<Longrightarrow> chan_bytes X B j ch p' = chan_bytes X B j ch p"
  by (cases "client p j") (auto simp: chan_bytes_def view_def)

lemma sim_open: "sim X B c p \<Longrightarrow> at c j \<noteq> Idle \<Longrightarrow> j < n_chans (sys c)"
  by (auto simp: sim_def not_le[symmetric])

lemma sim_local:
  assumes s: "sim X B c p" and j: "j < n_chans (sys c)"
    and c': "chans (sys c') = (chans (sys c))(j := ch)" "n_chans (sys c') = n_chans (sys c)"
    and o: "\<And>k. k \<noteq> j \<Longrightarrow> view p' k = view p k" and h: "chan_bytes X B j ch p'"
    and p': "property p' = prop_cell (sys c')" "client p' = at c'" "returned p' = got c'" "worker p' = Between"
  shows "sim X B c' p'"
proof -
  have "chan_bytes X B k (chans (sys c') k) p'" for k
    using s h chan_bytes_view[OF o, of k X B "chans (sys c) k"] by (cases "k = j") (simp_all add: sim_def c')
  moreover have "client p' k = Idle \<and> resp_slot p' k = None \<and> \<not> req_flag p' k \<and> \<not> resp_flag p' k"
    if "n_chans (sys c') \<le> k" for k
    using s o[of k] that j by (cases "k = j") (auto simp: sim_def c' view_def)
  ultimately show ?thesis using p' by (simp add: sim_def)
qed

text \<open>What a channel looks like when a request is pending on it.\<close>

lemma pending_published:
  assumes ch: "chan_inv j p" and w: "worker p = Between" and n: "req_flag p j \<noteq> resp_flag p j"
  obtains f b where "client p j = Published f b" "req_flag p j = b" "resp_flag p j = (\<not> b)" "req_slot p j = Some f"
  using assms by (auto simp: chan_inv_def split: client_pc.splits)

section \<open>Launches under way\<close>

text \<open>A job in a fiber's inbox is the launch its client is waiting for, and the worker has marked
  the client.\<close>

definition job_ok ::
    "('q \<Rightarrow> ClientPair list) \<Rightarrow> 'v codec \<Rightarrow> ('t, 'q, 'p, 'v, 'r) conc \<Rightarrow> launch_job \<Rightarrow> bool" where
  "job_ok items B c job \<longleftrightarrow>
     (let j = job_chan job; b = job_req_ready job
      in (\<exists>x. at c j = Published x b \<and> op_tag x = Launch \<and> job_hdr job = op_header B (chans (sys c) j) x) \<and>
         \<not> response_ready b (chans (sys c) j) \<and>
         (\<exists>cp \<in> set (clients (sys c) @ items (reg (sys c))).
            cp_chan cp = j \<and> pending_launch cp \<and> launch_req_ready cp = b))"

definition has_job :: "('t, 'q, 'p) rt \<Rightarrow> nat \<Rightarrow> launch_job \<Rightarrow> bool" where
  "has_job s g job \<longleftrightarrow> Execute job \<in> set (inbox (fibers s g))"

text \<open>A fiber under way has its job in its inbox.\<close>

definition entered :: "('t, 'q, 'p, 'v, 'r) conc \<Rightarrow> bool" where
  "entered c \<longleftrightarrow> (\<forall>g \<in> inside c. \<exists>job. has_job (sys c) g job)"

text \<open>The launches that clients have issued; nothing overlaps without one.\<close>

fun under_way :: "('t, 'v, 'r) client_op client_pc \<Rightarrow> ('t, 'v, 'r) client_op set" where
  "under_way Idle = {}"
| "under_way (Written x) = {x}"
| "under_way (Published x b) = {x}"
| "under_way (Answered x) = {x}"

definition issued :: "('t, 'q, 'p, 'v, 'r) conc \<Rightarrow> ('t, 'v, 'r) client_op set" where
  "issued c = (\<Union>j. under_way (at c j) \<union> fst ` set (got c j))"

definition launch_issued :: "('t, 'q, 'p, 'v, 'r) conc \<Rightarrow> bool" where
  "launch_issued c \<longleftrightarrow> (\<exists>x \<in> issued c. op_tag x = Launch)"

text \<open>The inboxes hold such jobs, at most one for a channel.\<close>

definition jobs_ok :: "('q \<Rightarrow> ClientPair list) \<Rightarrow> 'v codec \<Rightarrow> ('t, 'q, 'p, 'v, 'r) conc \<Rightarrow> bool" where
  "jobs_ok items B c \<longleftrightarrow>
     (\<forall>g. Shutdown \<notin> set (inbox (fibers (sys c) g))) \<and>
     (\<forall>g job. has_job (sys c) g job \<longrightarrow> job_ok items B c job) \<and>
     (\<forall>g job g' job'. has_job (sys c) g job \<longrightarrow> has_job (sys c) g' job' \<longrightarrow> job_chan job = job_chan job' \<longrightarrow> g = g')"

text \<open>A marked client's launch has been answered, or its job is in an inbox.\<close>

definition mark_ok :: "('t, 'q, 'p) rt \<Rightarrow> ClientPair \<Rightarrow> bool" where
  "mark_ok s cp \<longleftrightarrow> (pending_launch cp \<longrightarrow>
     response_ready (launch_req_ready cp) (chans s (cp_chan cp)) \<or>
     (\<exists>g job. has_job s g job \<and> job_chan job = cp_chan cp \<and> job_req_ready job = launch_req_ready cp))"

text \<open>The worker's bookkeeping: every opened channel is registered once, the scan is
  within the list, and the fibers and their launches are in order.\<close>

fun scan_ok :: "nat \<Rightarrow> (nat \<times> nat \<times> bool) option \<Rightarrow> bool" where
  "scan_ok m None \<longleftrightarrow> True"
| "scan_ok m (Some (n, offs, pr)) \<longleftrightarrow> n = m \<and> 0 < n \<and> offs \<le> n"

definition conc_wf ::
    "('q \<Rightarrow> ClientPair list) \<Rightarrow> ('p \<Rightarrow> nat list) \<Rightarrow> 'v codec \<Rightarrow> ('t, 'q, 'p, 'v, 'r) conc \<Rightarrow> bool" where
  "conc_wf items pitems B c \<longleftrightarrow>
     wf_loop (sys c) \<and> status (sys c) = Running \<and> pool_inv pitems (sys c) \<and>
     distinct (registered items (sys c)) \<and> set (registered items (sys c)) = {..<n_chans (sys c)} \<and>
     scan_ok (length (clients (sys c))) (scanning c) \<and>
     jobs_ok items B c \<and> (\<forall>cp \<in> set (clients (sys c) @ items (reg (sys c))). mark_ok (sys c) cp)"

end
