(* ===== verification/Concurrent_Sim.thy ===== *)
theory Concurrent_Sim
  imports Concurrent
begin

text \<open>
  The simulation: every step of the concurrent system on the bytes is a step, a visit or nothing
  of the abstract protocol, and keeps the worker's bookkeeping in order.
\<close>

section \<open>Bookkeeping\<close>

lemma conc_wfD:
  assumes "conc_wf items pitems B c"
  shows "wf_loop (sys c)" "status (sys c) = Running" "pool_inv pitems (sys c)" "distinct (registered items (sys c))"
    "scan_ok (length (clients (sys c))) (scanning c)" "jobs_ok items B c"
    "\<And>cp. cp \<in> set (clients (sys c) @ items (reg (sys c))) \<Longrightarrow> mark_ok (sys c) cp"
    "set (registered items (sys c)) = {..<n_chans (sys c)}"
    "\<And>cp. cp \<in> set (clients (sys c) @ items (reg (sys c))) \<Longrightarrow> cp_chan cp < n_chans (sys c)"
proof -
  show r: "set (registered items (sys c)) = {..<n_chans (sys c)}" using assms by (simp add: conc_wf_def)
  fix cp assume "cp \<in> set (clients (sys c) @ items (reg (sys c)))"
  then have "cp_chan cp \<in> set (registered items (sys c))" unfolding registered_def by auto
  then show "cp_chan cp < n_chans (sys c)" using r by simp
qed (use assms in \<open>auto simp: conc_wf_def\<close>)

lemma job_okD:
  assumes "job_ok items B c job"
  obtains x cp where "at c (job_chan job) = Published x (job_req_ready job)" "op_tag x = Launch"
    "job_hdr job = op_header B (chans (sys c) (job_chan job)) x"
    "\<not> response_ready (job_req_ready job) (chans (sys c) (job_chan job))"
    "cp \<in> set (clients (sys c) @ items (reg (sys c)))" "cp_chan cp = job_chan job" "pending_launch cp"
    "launch_req_ready cp = job_req_ready job"
  using assms by (auto simp: job_ok_def Let_def)

lemma job_okI:
  assumes "at c (job_chan job) = Published x (job_req_ready job)" "op_tag x = Launch"
    "job_hdr job = op_header B (chans (sys c) (job_chan job)) x"
    "\<not> response_ready (job_req_ready job) (chans (sys c) (job_chan job))"
    "cp \<in> set (clients (sys c) @ items (reg (sys c)))" "cp_chan cp = job_chan job" "pending_launch cp"
    "launch_req_ready cp = job_req_ready job"
  shows "job_ok items B c job"
  using assms unfolding job_ok_def Let_def by blast

lemma jobs_okD: "jobs_ok items B c \<Longrightarrow> has_job (sys c) g job \<Longrightarrow> job_ok items B c job"
  by (simp add: jobs_ok_def)

lemma kept_client: "y \<in> set xs \<Longrightarrow> y \<noteq> xs ! idx \<Longrightarrow> y \<in> set (xs[idx := z])"
  by (metis in_set_conv_nth length_list_update nth_list_update_neq)

text \<open>No job is under way for a channel.\<close>

definition no_job :: "('t, 'q, 'p) rt \<Rightarrow> nat \<Rightarrow> bool" where
  "no_job s j \<longleftrightarrow> (\<forall>g job. has_job s g job \<longrightarrow> job_chan job \<noteq> j)"

lemma no_job_unless_waiting:
  assumes "jobs_ok items B c" "\<And>x b. at c j = Published x b \<Longrightarrow> response_ready b (chans (sys c) j)"
  shows "no_job (sys c) j"
  unfolding no_job_def
proof (intro allI impI notI)
  fix g job assume h: "has_job (sys c) g job" "job_chan job = j"
  then have "job_ok items B c job" using assms(1) by (simp add: jobs_ok_def)
  then show False using assms(2) h(2) by (auto elim!: job_okD)
qed

text \<open>A step that leaves the inboxes alone and touches one channel without a job keeps the jobs in
  order.\<close>

lemma jobs_ok_frame:
  assumes j: "jobs_ok items B c" and n: "no_job (sys c) j" and f: "fibers (sys c') = fibers (sys c)"
    and o: "\<And>k. k \<noteq> j \<Longrightarrow> at c' k = at c k \<and> chans (sys c') k = chans (sys c) k"
    and cl: "\<And>cp. cp \<in> set (clients (sys c) @ items (reg (sys c))) \<Longrightarrow> cp_chan cp \<noteq> j \<Longrightarrow>
      cp \<in> set (clients (sys c') @ items (reg (sys c')))"
  shows "jobs_ok items B c'"
proof -
  have h: "has_job (sys c') = has_job (sys c)" using f by (simp add: has_job_def fun_eq_iff)
  have "job_ok items B c' job" if "has_job (sys c) g job" for g job
  proof -
    have k: "job_chan job \<noteq> j" using n that by (auto simp: no_job_def)
    have "job_ok items B c job" using j that by (simp add: jobs_ok_def)
    then show ?thesis using o[OF k] k by (elim job_okD) (rule job_okI; use cl in simp)
  qed
  then show ?thesis using j f h by (simp add: jobs_ok_def)
qed

lemma mark_ok_frame:
  assumes "mark_ok s cp" "fibers s' = fibers s" "response (chans s' (cp_chan cp)) = response (chans s (cp_chan cp))"
  shows "mark_ok s' cp"
  using assms by (simp add: mark_ok_def has_job_def response_ready_def)

text \<open>A client's step on its channel.\<close>

lemma put_chan_simps [simp]:
  "chans (put_chan j ch s) = (chans s)(j := ch)" "clients (put_chan j ch s) = clients s" "reg (put_chan j ch s) = reg s"
  "fibers (put_chan j ch s) = fibers s" "n_chans (put_chan j ch s) = n_chans s" "status (put_chan j ch s) = status s"
  "prop_cell (put_chan j ch s) = prop_cell s" "start_idx (put_chan j ch s) = start_idx s"
  "loop_counter (put_chan j ch s) = loop_counter s" "wf_loop (put_chan j ch s) = wf_loop s"
  "pool_inv pitems (put_chan j ch s) = pool_inv pitems s"
  by (simp_all add: put_chan_def wf_loop_def)

lemma put_chan_same: "put_chan j (chans s j) s = s"
  by (simp add: put_chan_def)

lemma conc_wf_client:
  assumes c: "conc_wf items pitems B c" and w: "\<And>x b. at c j = Published x b \<Longrightarrow> response_ready b (chans (sys c) j)"
    and r: "response ch = response (chans (sys c) j)"
    and c': "sys c' = put_chan j ch (sys c)" "at c' = (at c)(j := a)" "scanning c' = scanning c"
  shows "conc_wf items pitems B c'"
proof -
  note wf = conc_wfD[OF c]
  have "jobs_ok items B c'"
    by (rule jobs_ok_frame[OF wf(6) no_job_unless_waiting[OF wf(6) w]]) (simp_all add: c')
  moreover have "mark_ok (sys c') cp" if "cp \<in> set (clients (sys c') @ items (reg (sys c')))" for cp
    by (rule mark_ok_frame[OF wf(7)]) (use that r in \<open>auto simp: c'\<close>)
  ultimately show ?thesis using wf(1-5,8) by (auto simp: conc_wf_def c' registered_def)
qed

text \<open>Steps of the worker that only keep books.\<close>

lemma conc_wf_moved:
  assumes c: "conc_wf items pitems B c" and m: "moved (sys c) s'" and w: "wf_loop s'"
    and r: "clients s' @ items (reg s') = clients (sys c) @ items (reg (sys c))"
    and k: "scan_ok (length (clients s')) k"
  shows "conc_wf items pitems B (c\<lparr> sys := s', scanning := k \<rparr>)"
proof -
  note wf = conc_wfD[OF c] and m' = moved_simps[OF m]
  have "jobs_ok items B (c\<lparr> sys := s', scanning := k \<rparr>)"
    using wf(6) m' r unfolding jobs_ok_def job_ok_def has_job_def by simp
  moreover have "mark_ok s' cp" if "cp \<in> set (clients (sys c) @ items (reg (sys c)))" for cp
    by (rule mark_ok_frame[OF wf(7)[OF that]]) (use m' in simp_all)
  ultimately show ?thesis
    using wf m' r w k pool_inv_moved[OF wf(3) m] unfolding conc_wf_def registered_def by simp
qed

text \<open>The client the worker visits: a job for its channel excludes service and a cleared mark.\<close>

lemma visited_no_job:
  assumes c: "conc_wf items pitems B c" and i: "idx < length (clients (sys c))" "cp_chan (clients (sys c) ! idx) = j"
    and f: "\<And>x b. at c j = Published x b \<Longrightarrow> ready (load_flags (request (chans (sys c) j))) = b"
    and s: "servable (sys c) idx \<or> idle_chan (chans (sys c) j)"
  shows "no_job (sys c) j"
  unfolding no_job_def
proof (intro allI impI notI)
  fix g job assume h: "has_job (sys c) g job" "job_chan job = j"
  note wf = conc_wfD[OF c]
  have "job_ok items B c job" using wf(6) h by (simp add: jobs_ok_def)
  then obtain x cp where x: "at c j = Published x (job_req_ready job)" "\<not> response_ready (job_req_ready job) (chans (sys c) j)"
    and cp: "cp \<in> set (clients (sys c) @ items (reg (sys c)))" "cp_chan cp = j" "pending_launch cp"
      "launch_req_ready cp = job_req_ready job"
    using h(2) by (auto elim!: job_okD)
  have "cp = clients (sys c) ! idx" by (rule distinct_chan_unique[OF wf(4) cp(1) i(1)]) (use i cp in simp)
  then show False using s f[OF x(1)] x(2) cp i by (auto simp: servable_def Let_def idle_chan_def response_ready_def)
qed

lemma pool_inv_start_idx: "pool_inv pitems (s\<lparr> start_idx := st \<rparr>) = pool_inv pitems s"
  by (simp add: pool_inv_defs)

text \<open>The worker clears the client's mark, and may answer on its channel.\<close>

lemma conc_wf_visited:
  assumes c: "conc_wf items pitems B c" and i: "idx < length (clients (sys c))" "cp_chan (clients (sys c) ! idx) = j"
    and n: "no_job (sys c) j" and st: "st < length (clients (sys c))" and k: "scan_ok (length (clients (sys c))) k"
    and c': "c' = c\<lparr> sys := (clear_pending idx (sys c))\<lparr> prop_cell := t, start_idx := st, chans := (chans (sys c))(j := ch) \<rparr>,
      scanning := k \<rparr>"
  shows "conc_wf items pitems B c'"
proof -
  note wf = conc_wfD[OF c]
  let ?cp = "(clients (sys c) ! idx)\<lparr> pending_launch := False \<rparr>"
  have cl: "clients (sys c') = (clients (sys c))[idx := ?cp]" "reg (sys c') = reg (sys c)" "fibers (sys c') = fibers (sys c)"
    "chans (sys c') = (chans (sys c))(j := ch)" "at c' = at c"
    by (simp_all add: c' clear_pending_def upd_client_def)
  have reg: "registered items (sys c') = registered items (sys c)"
    using i by (simp add: registered_def cl map_update list_update_same_conv)
  have keep: "cp \<in> set (clients (sys c') @ items (reg (sys c')))"
    if m: "cp \<in> set (clients (sys c) @ items (reg (sys c)))" "cp_chan cp \<noteq> j" for cp
    using m kept_client[of cp "clients (sys c)" idx ?cp] i(2) by (auto simp: cl)
  have "jobs_ok items B c'" by (rule jobs_ok_frame[OF wf(6) n cl(3) _ keep]) (use cl in simp_all)
  moreover have "mark_ok (sys c') cp" if "cp \<in> set (clients (sys c') @ items (reg (sys c')))" for cp
  proof (cases "cp = ?cp")
    case True
    then show ?thesis by (simp add: mark_ok_def)
  next
    case False
    have "cp_chan cp \<noteq> j"
      using distinct_chan_unique[of items "sys c'" cp idx] that False i wf(4) by (auto simp: reg cl(1))
    moreover have "cp \<in> set (clients (sys c) @ items (reg (sys c)))"
      using that False set_update_subset_insert[of "clients (sys c)" idx ?cp] by (auto simp: cl)
    ultimately show ?thesis by (intro mark_ok_frame[OF wf(7)]) (simp_all add: cl)
  qed
  moreover have "pool_inv pitems (sys c')"
    using wf(3) by (simp add: c' clear_pending_def pool_inv_start_idx)
  moreover have "wf_loop (sys c')" using wf(1) st by (auto simp: wf_loop_def c' clear_pending_def upd_client_def)
  ultimately show ?thesis
    using wf(2,4,5,8) k reg by (auto simp: conc_wf_def c' clear_pending_def upd_client_def registered_def)
qed

section \<open>Handing over and running a job\<close>

text \<open>The state after a launch has been handed over, and after its fiber has run it.\<close>

locale conc_system = launch_queues items X pitems
  for items :: "'q \<Rightarrow> ClientPair list" and X :: "('t, 'q, 'p) world" and pitems :: "'p \<Rightarrow> nat list" +
  fixes B :: "'v codec"
begin

lemma serve_launch_hands_over:
  assumes i: "pool_inv pitems s"
  obtains tx fb p n hs where "serve_Launch X idx j b hdr s = Next (s\<lparr> clients := (clients s)[idx := marked b (clients s ! idx)],
      prop_arcs := Suc (prop_arcs s), fiber_pool := p, fibers := (fibers s)(tx := fb), n_fibers := n, fiber_handles := hs \<rparr>, True)"
    "inbox (fibers s tx) = []" "inbox fb = [Execute \<lparr> job_chan = j, job_hdr = hdr, job_req_ready = b \<rparr>]"
proof -
  let ?u = "clone_prop_arc (upd_client idx (\<lambda>cp. cp\<lparr> pending_launch := True, launch_req_ready := b \<rparr>) s)"
  let ?job = "Execute \<lparr> job_chan = j, job_hdr = hdr, job_req_ready = b \<rparr>"
  have u: "fiber_pool ?u = fiber_pool s" "fibers ?u = fibers s" "n_fibers ?u = n_fibers s" "fiber_handles ?u = fiber_handles s"
    and t: "fiber_tokens pitems ?u" "fiber_tokens pitems s"
    using i by (simp_all add: pool_inv_defs clone_prop_arc_def upd_client_def)
  have e: "?u = s\<lparr> clients := (clients s)[idx := marked b (clients s ! idx)], prop_arcs := Suc (prop_arcs s) \<rparr>"
    by (simp add: clone_prop_arc_def upd_client_def marked_def)
  show ?thesis
  proof (cases "pool_pop X (fiber_pool s)")
    case None
    then have d: "dispatch_job X ?job ?u = Some (spawn_fiber ?job ?u)" by (intro dispatch_job_spawned) (simp add: u)
    have "inbox (fibers s (n_fibers s)) = []" using t(2) by (simp add: fiber_tokens_def)
    with d show ?thesis
      by (intro that[of "fiber_handles s @ [n_fibers s]" "Suc (n_fibers s)" "n_fibers s" "\<lparr> inbox = [?job], exited = False \<rparr>" "fiber_pool s"])
        (simp_all add: serve_Launch_def Let_def spawn_fiber_def e)
  next
    case (Some a)
    obtain tx p where a: "a = (tx, p)" by force
    have d: "dispatch_job X ?job ?u = Some (?u\<lparr> fiber_pool := p, fibers := (fibers ?u)(tx := (fibers ?u tx)\<lparr> inbox := [?job] \<rparr>) \<rparr>)"
      by (rule dispatch_job_pooled[OF pool.seg_queue_axioms t(1)]) (use Some a u in simp)
    have "tx \<in> set (pitems (fiber_pool s))" using pool.pop_Some Some a by simp
    then have "inbox (fibers s tx) = []" by (rule pooled_fiber(3)[OF t(2)])
    with d show ?thesis
      by (intro that[of "fiber_handles s" "n_fibers s" tx "(fibers s tx)\<lparr> inbox := [?job] \<rparr>" p])
        (simp_all add: serve_Launch_def Let_def e)
  qed
qed

lemma conc_wf_launched:
  assumes c: "conc_wf items pitems B c" and i: "idx < length (clients (sys c))" "cp_chan (clients (sys c) ! idx) = j"
    and n: "no_job (sys c) j" and st: "st < length (clients (sys c))" and k: "scan_ok (length (clients (sys c))) k"
    and x: "at c j = Published x b" "op_tag x = Launch" "\<not> response_ready b (chans (sys c) j)"
    and tx: "inbox (fibers (sys c) tx) = []" "inbox fb = [Execute \<lparr> job_chan = j, job_hdr = op_header B (chans (sys c) j) x, job_req_ready = b \<rparr>]"
    and c': "c' = c\<lparr> sys := s', scanning := k \<rparr>" "clients s' = (clients (sys c))[idx := marked b (clients (sys c) ! idx)]"
      "reg s' = reg (sys c)" "chans s' = chans (sys c)" "fibers s' = (fibers (sys c))(tx := fb)" "n_chans s' = n_chans (sys c)"
      "start_idx s' = st" "idle_rounds s' = idle_rounds (sys c)" "status s' = Running" "pool_inv pitems s'"
  shows "conc_wf items pitems B c'"
proof -
  note wf = conc_wfD[OF c]
  let ?cp = "marked b (clients (sys c) ! idx)"
  let ?job = "\<lparr> job_chan = j, job_hdr = op_header B (chans (sys c) j) x, job_req_ready = b \<rparr>"
  have cp: "?cp \<in> set (clients s')" "cp_chan ?cp = j" "pending_launch ?cp" "launch_req_ready ?cp = b"
    using i set_update_memI[OF i(1), of ?cp] by (simp_all add: c' marked_def)
  have reg: "registered items s' = registered items (sys c)"
    using i by (simp add: registered_def c' marked_def map_update list_update_same_conv)
  have jobs: "has_job s' g job \<longleftrightarrow> g = tx \<and> job = ?job \<or> has_job (sys c) g job" for g job
    using tx by (auto simp: has_job_def c')
  have old: "job_chan job \<noteq> j" "job_ok items B c job" if "has_job (sys c) g job" for g job
    using n wf(6) that by (auto simp: no_job_def jobs_ok_def)
  have "job_ok items B c' job" if "has_job s' g job" for g job
  proof (cases "job = ?job")
    case True
    then show ?thesis using x cp by (intro job_okI[of c' job x B ?cp]) (simp_all add: c')
  next
    case False
    then have h: "has_job (sys c) g job" using that jobs by auto
    have kc: "cp \<in> set (clients s' @ items (reg s'))"
      if "cp \<in> set (clients (sys c) @ items (reg (sys c)))" "cp_chan cp = job_chan job" for cp
    proof -
      have "cp \<noteq> clients (sys c) ! idx" using that(2) old(1)[OF h] i(2) by auto
      then show ?thesis using that(1) kept_client[of cp "clients (sys c)" idx ?cp] by (auto simp: c')
    qed
    show ?thesis using old(2)[OF h] by (elim job_okD) (rule job_okI; use kc in \<open>simp add: c'\<close>)
  qed
  moreover have "\<forall>g. Shutdown \<notin> set (inbox (fibers s' g))" using wf(6) tx by (simp add: c' jobs_ok_def)
  moreover have "g = g'" if "has_job s' g job" "has_job s' g' job'" "job_chan job = job_chan job'" for g g' job job'
    using that wf(6) old(1) unfolding jobs jobs_ok_def by (metis launch_job.select_convs(1))
  ultimately have "jobs_ok items B c'" unfolding jobs_ok_def by (simp add: c')
  moreover have "mark_ok s' y" if "y \<in> set (clients s' @ items (reg s'))" for y
  proof (cases "y = ?cp")
    case True
    have "has_job s' tx ?job" "job_chan ?job = cp_chan y" "job_req_ready ?job = launch_req_ready y"
      using True cp jobs by simp_all
    then show ?thesis unfolding mark_ok_def by blast
  next
    case False
    then have "y \<in> set (clients (sys c) @ items (reg (sys c)))"
      using that set_update_subset_insert[of "clients (sys c)" idx ?cp] by (auto simp: c')
    from wf(7)[OF this] show ?thesis using jobs by (auto simp: mark_ok_def c')
  qed
  ultimately show ?thesis
    using wf st k c' reg by (auto simp: conc_wf_def wf_loop_def registered_def)
qed

lemma conc_wf_ran:
  assumes c: "conc_wf items pitems B c" and g: "inbox (fibers (sys c) g) = [Execute job]" and j: "job_chan job = j"
    and r: "response_ready (job_req_ready job) ch" and p: "pool_inv pitems (launch_end X g j t ch (sys c))"
  shows "conc_wf items pitems B (c\<lparr> sys := launch_end X g j t ch (sys c) \<rparr>)"
proof -
  note wf = conc_wfD[OF c]
  let ?s = "launch_end X g j t ch (sys c)" and ?c = "c\<lparr> sys := launch_end X g j t ch (sys c) \<rparr>"
  have h: "has_job (sys c) g job" using g by (simp add: has_job_def)
  have jobs: "has_job ?s g' job' \<longleftrightarrow> g' \<noteq> g \<and> has_job (sys c) g' job'" for g' job'
    by (auto simp: has_job_def)
  have other: "job_chan job' \<noteq> j" if "has_job (sys c) g' job'" "g' \<noteq> g" for g' job'
    using wf(6) that h j unfolding jobs_ok_def by blast
  have "job_ok items B ?c job'" if "has_job ?s g' job'" for g' job'
  proof -
    have "job_ok items B c job'" "job_chan job' \<noteq> j" using wf(6) that jobs other by (auto simp: jobs_ok_def)
    then show ?thesis by (simp add: job_ok_def Let_def)
  qed
  moreover have "\<forall>g'. Shutdown \<notin> set (inbox (fibers ?s g'))" using wf(6) by (simp add: jobs_ok_def)
  moreover have "g1 = g2" if "has_job ?s g1 j1" "has_job ?s g2 j2" "job_chan j1 = job_chan j2" for g1 g2 j1 j2
    using that wf(6) unfolding jobs jobs_ok_def by blast
  ultimately have "jobs_ok items B ?c" unfolding jobs_ok_def by simp
  moreover have "mark_ok ?s y" if "y \<in> set (clients (sys c) @ items (reg (sys c)))" for y
  proof (cases "cp_chan y = j")
    case True
    note jy = wf(7)[OF that]
    have "job_ok items B c job" using wf(6) h by (simp add: jobs_ok_def)
    then have "launch_req_ready y = job_req_ready job"
      using that True j wf(4) unfolding registered_def distinct_map inj_on_def by (elim job_okD) metis
    then show ?thesis using True r by (simp add: mark_ok_def)
  next
    case False
    have ne: "g' \<noteq> g" if "has_job (sys c) g' job'" "job_chan job' = cp_chan y" for g' job'
      using that False g j by (auto simp: has_job_def)
    have "chans ?s (cp_chan y) = chans (sys c) (cp_chan y)" using False by simp
    then show ?thesis using wf(7)[OF that] ne unfolding mark_ok_def jobs by metis
  qed
  ultimately show ?thesis using wf p by (auto simp: conc_wf_def wf_loop_def registered_def)
qed

end

text \<open>A client that waits for its answer, and one whose request the worker has still to serve: a launch
  that has been handed to a fiber is out of its hands. What the worker's steps keep: registrations, the
  answers clients have not yet seen, and the jobs of the fibers.\<close>

definition waiting :: "('t, 'q, 'p, 'v, 'r) conc \<Rightarrow> nat \<Rightarrow> bool" where
  "waiting c j \<longleftrightarrow> (\<exists>x b. at c j = Published x b \<and> \<not> response_ready b (chans (sys c) j))"

definition pending :: "('t, 'q, 'p, 'v, 'r) conc \<Rightarrow> nat \<Rightarrow> bool" where
  "pending c j \<longleftrightarrow> waiting c j \<and> no_job (sys c) j"

definition answers_kept :: "('t, 'q, 'p, 'v, 'r) conc \<Rightarrow> ('t, 'q, 'p) rt \<Rightarrow> bool" where
  "answers_kept c s' \<longleftrightarrow>
     (\<forall>j x b. at c j = Published x b \<longrightarrow> response_ready b (chans (sys c) j) \<longrightarrow> response_ready b (chans s' j)) \<and>
     (\<forall>g job. has_job (sys c) g job \<longrightarrow> has_job s' g job)"

definition kept :: "('t, 'q, 'p, 'v, 'r) conc \<Rightarrow> ('t, 'q, 'p) rt \<Rightarrow> bool" where
  "kept c s' \<longleftrightarrow>
     reg s' = reg (sys c) \<and> loop_counter s' = loop_counter (sys c) \<and> n_chans s' = n_chans (sys c) \<and>
     map cp_chan (clients s') = map cp_chan (clients (sys c)) \<and> answers_kept c s'"

definition serves :: "('t, 'q, 'p, 'v, 'r) conc \<Rightarrow> ('t, 'q, 'p) rt \<Rightarrow> bool" where
  "serves c s' \<longleftrightarrow> (\<exists>j. pending c j \<and> \<not> pending (c\<lparr> sys := s' \<rparr>) j)"

lemma keptI:
  assumes "reg s' = reg (sys c)" "loop_counter s' = loop_counter (sys c)" "n_chans s' = n_chans (sys c)"
    and "map cp_chan (clients s') = map cp_chan (clients (sys c))"
    and "\<And>j x b. at c j = Published x b \<Longrightarrow> response_ready b (chans (sys c) j) \<Longrightarrow> response_ready b (chans s' j)"
    and "\<And>g job. has_job (sys c) g job \<Longrightarrow> has_job s' g job"
  shows "kept c s'"
  using assms by (simp add: kept_def answers_kept_def)

lemma visited_chans:
  "idx < length cs \<Longrightarrow> cp_chan cp = cp_chan (cs ! idx) \<Longrightarrow> map cp_chan (cs[idx := cp]) = map cp_chan cs"
  by (simp add: map_update list_update_same_conv)

lemma visited_simps [simp]:
  "clients (clear_pending k s) = (clients s)[k := (clients s ! k)\<lparr> pending_launch := False \<rparr>]"
  "reg (clear_pending k s) = reg s" "loop_counter (clear_pending k s) = loop_counter s"
  "reg (skip_client k s) = reg s" "loop_counter (skip_client k s) = loop_counter s"
  "n_chans (skip_client k s) = n_chans s" "fibers (skip_client k s) = fibers s"
  "start_idx (skip_client k s) = start_idx s" "chans (skip_client k s) = chans s"
  "length (clients (skip_client k s)) = length (clients s)" "map cp_chan (clients (skip_client k s)) = map cp_chan (clients s)"
proof -
  show "map cp_chan (clients (skip_client k s)) = map cp_chan (clients s)"
    using skip_clients_simps(2,4)[of "[k]" s] by (intro nth_equalityI) (simp_all add: skip_clients_def)
qed (simp_all add: clear_pending_def skip_client_def upd_client_def)

section \<open>Visits\<close>

text \<open>A visit of a pending request that is not a launch: the record is executed and answered.\<close>

lemma visit_serves:
  assumes idx: "idx < length (clients s)" "cp_chan (clients s ! idx) = j" and sv: "servable s idx"
    and x: "sendable X B x" "requested B c0 x b (chans s j)" "op_tag x \<noteq> Launch" and e: "op_eval x (prop_cell s) = (t, a)"
  shows "visit X n idx s = Next ((clear_pending idx s)\<lparr> prop_cell := t, start_idx := (idx + 1) mod n,
    chans := (chans s)(j := answered b (op_after x (resp_data c0) a) (chans s j)) \<rparr>, True)"
proof -
  have p: "posted (chans s j) b (op_header B c0 x)" by (rule requested_facts(2)[OF x(2)])
  have "prop_cell (clear_pending idx s) = prop_cell s" by (simp add: clear_pending_def upd_client_def)
  then have d: "dispatch_record X idx j b (op_header B c0 x) (clear_pending idx s) =
      Next (upd_chan j (set_resp_data (op_after x (resp_data c0) a)) ((clear_pending idx s)\<lparr> prop_cell := t \<rparr>), False)"
    by (intro dispatch_op[OF x(2,1,3)]) (use e in simp_all)
  show ?thesis
    unfolding visit_posted[OF idx(1) idx(2)[symmetric] p sv] d
    by (simp add: finish_request_def upd_chan_def answered_def clear_pending_def upd_client_def)
qed

section \<open>The simulation\<close>

text \<open>A run of the protocol from an initial value whose log extends a given one.\<close>

definition run_to ::
    "'t \<times> (nat \<times> ('t, 'v, 'r) client_op \<times> 'r answer) list \<Rightarrow> ('t, ('t, 'v, 'r) client_op, 'r answer) proto \<Rightarrow> bool" where
  "run_to v p \<longleftrightarrow> reachable op_eval (fst v) p \<and> (\<exists>es. executed p = snd v @ es)"

lemma run_to_init: "run_to (v, []) (proto_init v)"
  by (simp add: run_to_def reachable.init)

lemma run_to_chan: "run_to v p \<Longrightarrow> chan_inv j p"
  by (auto simp: run_to_def intro: reachable_chan)

lemma run_to_client: "run_to v p \<Longrightarrow> client_step p j p' \<Longrightarrow> run_to v p'"
  using client_step_frame[of p j p'] by (auto simp: run_to_def intro: reachable.client)

lemma run_to_serves:
  assumes r: "run_to v p" and w: "worker p = Between" and n: "req_flag p j = b" "resp_flag p j = (\<not> b)"
    and x: "req_slot p j = Some f" and e: "op_eval f (property p) = (t, r')"
  shows "run_to v (p\<lparr> property := t, resp_slot := (resp_slot p)(j := Some r'),
    executed := executed p @ [(j, f, r')], resp_flag := (resp_flag p)(j := b), worker := Between \<rparr>)"
proof -
  obtain es where es: "executed p = snd v @ es" and re: "reachable op_eval (fst v) p" using r by (auto simp: run_to_def)
  show ?thesis using proto_serves[OF re w n x e] es by (simp add: run_to_def)
qed

text \<open>How a run of the protocol follows a run on the bytes: the channels are in order, and as long as no
  two closures have overlapped it is a run of the protocol, with its log.\<close>

definition follows ::
    "'t \<times> (nat \<times> ('t, 'v, 'r) client_op \<times> 'r answer) list \<Rightarrow> bool \<Rightarrow>
     ('t, ('t, 'v, 'r) client_op, 'r answer) proto \<Rightarrow> bool" where
  "follows v ov p \<longleftrightarrow> in_order p \<and> (\<not> ov \<longrightarrow> run_to v p)"

lemma follows_init: "follows (v, []) ov (proto_init v)"
  by (simp add: follows_def in_order_init run_to_init)

lemma follows_chan: "follows v ov p \<Longrightarrow> chan_inv j p"
  by (simp add: follows_def in_order_def)

lemma follows_client: "follows v ov p \<Longrightarrow> client_step p j p' \<Longrightarrow> follows v ov p'"
  by (auto simp: follows_def intro: in_order_client run_to_client)

lemma follows_serves:
  assumes "follows v ov p" "worker p = Between" "req_flag p j = b" "resp_flag p j = (\<not> b)"
    and "req_slot p j = Some f" "op_eval f (property p) = (t, r')"
  shows "follows v ov (p\<lparr> property := t, resp_slot := (resp_slot p)(j := Some r'),
    executed := executed p @ [(j, f, r')], resp_flag := (resp_flag p)(j := b), worker := Between \<rparr>)"
proof -
  have "in_order p" "\<not> ov \<Longrightarrow> run_to v p" using assms(1) by (simp_all add: follows_def)
  then show ?thesis unfolding follows_def
    by (intro conjI impI in_order_serves[OF _ assms(3-5)] run_to_serves[OF _ assms(2-6)])
qed

lemma follows_overlap: "follows v ov p \<Longrightarrow> follows v (ov \<or> ov') p"
  by (simp add: follows_def)

lemma follows_races: "follows v True p \<Longrightarrow> follows v True (p\<lparr> property := t \<rparr>)"
  by (simp add: follows_def)

text \<open>What a log says of a state: run one after the other, the operations give the property and
  their results, and each client's are those it has been returned, and at most one more.\<close>

definition logged :: "'t \<Rightarrow> (nat \<times> ('t, 'v, 'r) client_op \<times> 'r answer) list \<Rightarrow> ('t, 'q, 'p, 'v, 'r) conc \<Rightarrow> bool" where
  "logged v log c \<longleftrightarrow> replay op_eval log v (prop_cell (sys c)) \<and>
     (\<forall>j. \<exists>rest. map snd (filter (\<lambda>e. fst e = j) log) = got c j @ rest \<and> length rest \<le> 1 \<and> (at c j = Idle \<longrightarrow> rest = []))"

context conc_system
begin

text \<open>A visit of a pending launch: the job is handed to a fiber and the response is left to it.\<close>

lemma visit_launches:
  assumes idx: "idx < length (clients s)" "cp_chan (clients s ! idx) = j" and sv: "servable s idx"
    and x: "requested B c0 x b (chans s j)" "op_tag x = Launch" and i: "pool_inv pitems s"
  obtains tx fb p n hs where "visit X m idx s = Next (s\<lparr> clients := (clients s)[idx := marked b (clients s ! idx)],
      prop_arcs := Suc (prop_arcs s), fiber_pool := p, fibers := (fibers s)(tx := fb), n_fibers := n, fiber_handles := hs,
      start_idx := (idx + 1) mod m \<rparr>, True)"
    "inbox (fibers s tx) = []"
    "inbox fb = [Execute \<lparr> job_chan = j, job_hdr = op_header B (chans s j) x, job_req_ready = b \<rparr>]"
proof -
  let ?h = "op_header B (chans s j) x"
  have p: "posted (chans s j) b ?h" using requested_facts(2,4)[OF x(1)] by simp
  have tag: "property_ptr ?h = Launch" using x(2) by (cases x) (simp_all add: op_header_def encoded_header_def)
  have i': "pool_inv pitems (clear_pending idx s)" using i by (simp add: clear_pending_def)
  obtain tx fb p n hs where sl: "serve_Launch X idx j b ?h (clear_pending idx s) =
      Next ((clear_pending idx s)\<lparr> clients := (clients (clear_pending idx s))[idx := marked b (clients (clear_pending idx s) ! idx)],
        prop_arcs := Suc (prop_arcs (clear_pending idx s)), fiber_pool := p, fibers := (fibers (clear_pending idx s))(tx := fb),
        n_fibers := n, fiber_handles := hs \<rparr>, True)"
    "inbox (fibers (clear_pending idx s) tx) = []" "inbox fb = [Execute \<lparr> job_chan = j, job_hdr = ?h, job_req_ready = b \<rparr>]"
    by (rule serve_launch_hands_over[OF i'])
  have "marked b ((clients s ! idx)\<lparr> pending_launch := False \<rparr>) = marked b (clients s ! idx)" by (simp add: marked_def)
  then show ?thesis
    by (intro that[of hs n tx fb p]) (use sl idx in
      \<open>simp_all add: visit_posted[OF idx(1) idx(2)[symmetric] p sv] dispatch_record_def tag finish_request_def
        clear_pending_def upd_client_def\<close>)
qed

text \<open>The invariant of a run: its bookkeeping, and a run of the protocol that it simulates.\<close>

definition simulated :: "'t \<times> (nat \<times> ('t, 'v, 'r) client_op \<times> 'r answer) list \<Rightarrow> ('t, 'q, 'p, 'v, 'r) conc \<Rightarrow> bool" where
  "simulated v c \<longleftrightarrow> conc_wf items pitems B c \<and> (\<exists>p. follows v (overlapped c) p \<and> sim X B c p)"

lemma simulatedE:
  assumes "simulated v c"
  obtains p where "conc_wf items pitems B c" "follows v (overlapped c) p" "sim X B c p"
  using assms by (auto simp: simulated_def)

lemma simulatedI:
  "conc_wf items pitems B c \<Longrightarrow> follows v ov p \<Longrightarrow> sim X B c p \<Longrightarrow> overlapped c = ov \<Longrightarrow> simulated v c"
  unfolding simulated_def by blast

lemma simulated_start: "items q = [] \<Longrightarrow> pitems pl = [] \<Longrightarrow> simulated (v, []) (conc_start v tid q pl)"
proof (rule simulatedI[OF _ follows_init[where ov = False]])
  show "sim X B (conc_start v tid q pl) (proto_init v)"
    by (simp add: sim_def chan_bytes_def conc_start_def worker_start_def proto_init_def)
  assume "items q = []" "pitems pl = []"
  then show "conc_wf items pitems B (conc_start v tid q pl)"
    using pool_inv_start[of pitems pl v tid q]
    by (simp add: conc_wf_def conc_start_def worker_start_def wf_loop_def registered_def jobs_ok_def has_job_def)
  show "overlapped (conc_start v tid q pl) = False" by (simp add: conc_start_def)
qed

lemma simulated_writes:
  assumes s: "simulated v c" and c: "at c j = Idle" "j < n_chans (sys c)" "sendable X B x"
    and w: "op_write B x (chans (sys c) j) = Ok c1"
  shows "simulated v (c\<lparr> sys := put_chan j c1 (sys c), at := (at c)(j := Written x) \<rparr>)"
proof -
  obtain p where wf: "conc_wf items pitems B c" and p: "follows v (overlapped c) p" "sim X B c p" using s by (rule simulatedE)
  have ch: "wf_chan (chans (sys c) j)" using p(2) by (simp add: sim_def chan_bytes_def)
  obtain args where a: "op_args B x = Some args" "fits (op_fv x) (length args)" by (rule sendable_args[OF c(3)])
  note fr = write_request_frame[OF ch a(2) w[unfolded op_write_sendable[OF a(1)]]]
  let ?p = "p\<lparr> req_slot := (req_slot p)(j := Some x), client := (client p)(j := Written x) \<rparr>"
  have "client_step p j ?p" by (rule client_step.put) (use p c in \<open>simp add: sim_def\<close>)
  then have rp: "follows v (overlapped c) ?p" by (rule follows_client[OF p(1)])
  have sm: "sim X B (c\<lparr> sys := put_chan j c1 (sys c), at := (at c)(j := Written x) \<rparr>) ?p"
    by (rule sim_local[OF p(2) c(2)])
      (use p(2) fr c w ch in \<open>auto simp: sim_def chan_bytes_def view_def\<close>)
  show ?thesis
    by (rule simulatedI[OF conc_wf_client[OF wf, of j c1] rp sm]) (use c fr in simp_all)
qed

lemma simulated_publishes:
  assumes s: "simulated v c" and c: "at c j = Written x" and w: "publish (chans (sys c) j) = (b, c2)"
  shows "simulated v (c\<lparr> sys := put_chan j c2 (sys c), at := (at c)(j := Published x b) \<rparr>)"
proof -
  obtain p where wf: "conc_wf items pitems B c" and p: "follows v (overlapped c) p" "sim X B c p" using s by (rule simulatedE)
  have pc: "client p j = Written x" "chan_bytes X B j (chans (sys c) j) p" using p(2) c by (auto simp: sim_def)
  then obtain c0 where x: "sendable X B x" and c0: "wf_chan c0" "op_write B x c0 = Ok (chans (sys c) j)"
    by (auto simp: chan_bytes_def)
  obtain args where a: "op_args B x = Some args" "fits (op_fv x) (length args)" by (rule sendable_args[OF x])
  note pub = publish_written[OF c0(1) a(2) c0(2)[unfolded op_write_sendable[OF a(1)]] w]
  have wf2: "wf_chan c2" and rq: "requested B c0 x b c2" using pub(2) a(1) by (auto simp: request_of_def requested_def)
  have b: "b = (\<not> resp_flag p j)" using pub(1) pc(2) by (simp add: chan_bytes_def)
  let ?p = "p\<lparr> req_flag := (req_flag p)(j := b), client := (client p)(j := Published x b) \<rparr>"
  have "client_step p j ?p" by (rule client_step.publish[OF pc(1) b])
  then have rp: "follows v (overlapped c) ?p" by (rule follows_client[OF p(1)])
  have sm: "sim X B (c\<lparr> sys := put_chan j c2 (sys c), at := (at c)(j := Published x b) \<rparr>) ?p"
    by (rule sim_local[OF p(2) sim_open[OF p(2), of j]])
      (use p(2) pub wf2 rq x c b in \<open>auto simp: sim_def chan_bytes_def view_def\<close>)
  show ?thesis
    by (rule simulatedI[OF conc_wf_client[OF wf, of j c2] rp sm]) (use c pub in simp_all)
qed

lemma simulated_polls:
  assumes s: "simulated v c" and c: "at c j = Published x b" "response_ready b (chans (sys c) j)"
  shows "simulated v (c\<lparr> at := (at c)(j := Answered x) \<rparr>)"
proof -
  obtain p where wf: "conc_wf items pitems B c" and p: "follows v (overlapped c) p" "sim X B c p" using s by (rule simulatedE)
  let ?p = "p\<lparr> client := (client p)(j := Answered x) \<rparr>"
  have "client_step p j ?p"
    by (rule client_step.poll) (use p(2) c in \<open>auto simp: sim_def chan_bytes_def response_ready_def\<close>)
  then have rp: "follows v (overlapped c) ?p" by (rule follows_client[OF p(1)])
  have cb: "chan_bytes X B j (chans (sys c) j) p" "client p j = Published x b" using p(2) c by (auto simp: sim_def)
  then have sm: "sim X B (c\<lparr> at := (at c)(j := Answered x) \<rparr>) ?p"
    by (intro sim_local[OF p(2) sim_open[OF p(2), of j], where ch = "chans (sys c) j"])
      (use p(2) c in \<open>auto simp: sim_def chan_bytes_def view_def response_ready_def\<close>)
  show ?thesis
    by (rule simulatedI[OF conc_wf_client[OF wf, of j "chans (sys c) j"] rp sm]) (use c in \<open>simp_all add: put_chan_same\<close>)
qed

text \<open>A client that has seen its answer reads the result the protocol has for it.\<close>

lemma answered_reads:
  assumes "follows v ov p" "sim X B c p" "at c j = Answered x"
  obtains a where "resp_slot p j = Some a" "op_read x (chans (sys c) j) = Ok a"
proof -
  have "chan_bytes X B j (chans (sys c) j) p" "client p j = Answered x" using assms(2,3) by (auto simp: sim_def)
  then show ?thesis using that follows_chan[OF assms(1), of j] by (auto simp: chan_bytes_def chan_inv_def)
qed

lemma simulated_reads:
  assumes s: "simulated v c" and c: "at c j = Answered x" and rd: "op_read x (chans (sys c) j) = Ok a"
  shows "simulated v (c\<lparr> at := (at c)(j := Idle), got := (got c)(j := got c j @ [(x, a)]) \<rparr>)"
proof -
  obtain p where wf: "conc_wf items pitems B c" and p: "follows v (overlapped c) p" "sim X B c p" using s by (rule simulatedE)
  obtain a' where a': "resp_slot p j = Some a'" "op_read x (chans (sys c) j) = Ok a'" by (rule answered_reads[OF p c])
  let ?p = "p\<lparr> client := (client p)(j := Idle), returned := (returned p)(j := returned p j @ [(x, a)]) \<rparr>"
  have "client_step p j ?p" by (rule client_step.get) (use p(2) c a' rd in \<open>auto simp: sim_def\<close>)
  then have rp: "follows v (overlapped c) ?p" by (rule follows_client[OF p(1)])
  have sm: "sim X B (c\<lparr> at := (at c)(j := Idle), got := (got c)(j := got c j @ [(x, a)]) \<rparr>) ?p"
    by (rule sim_local[OF p(2) sim_open[OF p(2), of j], where ch = "chans (sys c) j"])
      (use p(2) c in \<open>auto simp: sim_def chan_bytes_def view_def\<close>)
  show ?thesis
    by (rule simulatedI[OF conc_wf_client[OF wf, of j "chans (sys c) j"] rp sm]) (use c in \<open>simp_all add: put_chan_same\<close>)
qed

text \<open>The worker's bookkeeping is invisible to the protocol.\<close>

lemma simulated_moved:
  assumes s: "simulated v c" and m: "moved (sys c) s'" and w: "wf_loop s'"
    and r: "clients s' @ items (reg s') = clients (sys c) @ items (reg (sys c))"
    and k: "scan_ok (length (clients s')) k"
  shows "simulated v (c\<lparr> sys := s', scanning := k \<rparr>)"
proof -
  obtain p where wf: "conc_wf items pitems B c" and p: "follows v (overlapped c) p" "sim X B c p" using s by (rule simulatedE)
  have "sim X B (c\<lparr> sys := s', scanning := k \<rparr>) p" using p(2) moved_simps[OF m] by (auto simp: sim_def)
  then show ?thesis by (intro simulatedI[OF conc_wf_moved[OF wf m w r k] p(1)]) simp_all
qed

lemma round_start_facts:
  "moved s (round_start X s)" "wf_loop s \<Longrightarrow> wf_loop (round_start X s)"
  "clients (round_start X s) @ items (reg (round_start X s)) = clients s @ items (reg s)"
  using polled_wf[of s] poll_items[of "s\<lparr> loop_counter := loop_counter s + 1 \<rparr>"]
    moved_trans[OF _ moved_poll, of s "s\<lparr> loop_counter := loop_counter s + 1 \<rparr>" X]
  by (simp_all add: round_start_def polled_def)

lemma idle_step_facts [simp]:
  "clients (idle_step s) = clients s" "reg (idle_step s) = reg s"
  by (simp_all add: idle_step_def)

lemma simulated_wf: "simulated v c \<Longrightarrow> wf_loop (sys c)"
  by (simp add: simulated_def conc_wf_def)

lemma simulated_idles:
  assumes s: "simulated v c" and n: "scanning c = None" "clients (round_start X (sys c)) = []"
  shows "simulated v (c\<lparr> sys := idle_step (round_start X (sys c)) \<rparr>)"
proof -
  have "simulated v (c\<lparr> sys := idle_step (round_start X (sys c)), scanning := None \<rparr>)"
    by (rule simulated_moved[OF s moved_trans[OF round_start_facts(1) moved_idle_step] wf_loop_idle_step])
      (use round_start_facts(2,3) simulated_wf[OF s] in simp_all)
  moreover have "c\<lparr> sys := s', scanning := None \<rparr> = c\<lparr> sys := s' \<rparr>" for s' using n(1) by (cases c) simp
  ultimately show ?thesis by simp
qed

lemma simulated_starts:
  assumes s: "simulated v c" and n: "clients (round_start X (sys c)) \<noteq> []"
  shows "simulated v (c\<lparr> sys := round_start X (sys c),
    scanning := Some (length (clients (round_start X (sys c))), 0, False) \<rparr>)"
  by (rule simulated_moved[OF s round_start_facts(1) round_start_facts(2)[OF simulated_wf[OF s]] round_start_facts(3)])
    (use n in simp)

lemma simulated_ends:
  assumes s: "simulated v c"
  shows "simulated v (c\<lparr> sys := (if pr then (sys c)\<lparr> idle_rounds := 0 \<rparr> else idle_step (sys c)), scanning := None \<rparr>)"
proof (rule simulated_moved[OF s])
  show "moved (sys c) (if pr then (sys c)\<lparr> idle_rounds := 0 \<rparr> else idle_step (sys c))" by simp
  show "wf_loop (if pr then (sys c)\<lparr> idle_rounds := 0 \<rparr> else idle_step (sys c))"
    using wf_loop_idle_step[OF simulated_wf[OF s]] simulated_wf[OF s]
    by (cases pr) (simp, simp add: wf_loop_def, simp)
qed simp_all

lemma simulated_opens:
  assumes s: "simulated v c" and e: "entrust_handle X b own (sys c) = (rm, s')"
  shows "simulated v (c\<lparr> sys := s' \<rparr>)"
proof -
  obtain p where wf: "conc_wf items pitems B c" and p: "follows v (overlapped c) p" "sim X B c p" using s by (rule simulatedE)
  let ?n = "n_chans (sys c)" and ?c = "c\<lparr> sys := s' \<rparr>"
  note w = conc_wfD[OF wf]
  have s': "s' = (sys c)\<lparr> chans := (chans (sys c))(?n := ChannelPair_default (arc_address b)), n_chans := Suc ?n,
      reg := reg_push X (new_client_pair ?n) (reg (sys c)) \<rparr>"
    using e by (auto simp: entrust_handle_def new_chan_def register_def Let_def)
  have fresh: "client p ?n = Idle" "resp_slot p ?n = None" "\<not> req_flag p ?n" "\<not> resp_flag p ?n"
    using p(2) by (auto simp: sim_def)
  have "chan_bytes X B ?n (ChannelPair_default (arc_address b)) p" using fresh by (simp add: chan_bytes_def)
  then have sm: "sim X B ?c p" using p(2) by (auto simp: sim_def s')
  have it: "clients s' @ items (reg s') = (clients (sys c) @ items (reg (sys c))) @ [new_client_pair ?n]"
    by (simp add: s' items_push)
  have nj: "no_job (sys c) ?n"
    by (rule no_job_unless_waiting[OF w(6)]) (use fresh p(2) in \<open>simp add: sim_def\<close>)
  have "jobs_ok items B ?c"
    by (rule jobs_ok_frame[OF w(6) nj]) (use it in \<open>auto simp: s' items_push\<close>)
  moreover have "mark_ok s' cp" if "cp \<in> set (clients s' @ items (reg s'))" for cp
  proof (cases "cp = new_client_pair ?n")
    case True
    then show ?thesis by (simp add: mark_ok_def new_client_pair_def)
  next
    case False
    then have "cp \<in> set (clients (sys c) @ items (reg (sys c)))" using that it by auto
    then show ?thesis using w(9)[of cp] by (intro mark_ok_frame[OF w(7)]) (auto simp: s')
  qed
  moreover have rg: "registered items s' = registered items (sys c) @ [?n]"
    unfolding registered_def it by (simp add: new_client_pair_def)
  have "distinct (registered items s')" using w(4) unfolding rg by (simp add: w(8))
  moreover have "set (registered items s') = {..<n_chans s'}" unfolding rg by (simp add: w(8) s' lessThan_Suc)
  moreover have "wf_loop s'" "status s' = Running" "clients s' = clients (sys c)"
    using w(1,2) by (simp_all add: s' wf_loop_def)
  ultimately have "conc_wf items pitems B ?c"
    using w(5) pool_inv_handle[OF w(3) e] unfolding conc_wf_def by simp
  then show ?thesis by (rule simulatedI[OF _ p(1) sm]) simp
qed

text \<open>What a client that waits has published.\<close>

lemma published_flags:
  assumes "follows v ov p" "sim X B c p" "at c j = Published x b"
  shows "ready (load_flags (request (chans (sys c) j))) = b" "sendable X B x"
    "\<not> response_ready b (chans (sys c) j) \<Longrightarrow> \<exists>c0. requested B c0 x b (chans (sys c) j)"
    "req_flag p j = b" "resp_flag p j = b \<longleftrightarrow> response_ready b (chans (sys c) j)" "req_slot p j = Some x"
proof -
  have "chan_bytes X B j (chans (sys c) j) p" "client p j = Published x b" using assms(2,3) by (auto simp: sim_def)
  then show "ready (load_flags (request (chans (sys c) j))) = b" "sendable X B x"
    "\<not> response_ready b (chans (sys c) j) \<Longrightarrow> \<exists>c0. requested B c0 x b (chans (sys c) j)"
    "req_flag p j = b" "resp_flag p j = b \<longleftrightarrow> response_ready b (chans (sys c) j)" "req_slot p j = Some x"
    using follows_chan[OF assms(1), of j] by (auto simp: chan_bytes_def chan_inv_def response_ready_def)
qed

text \<open>The answer to a waiting client, on both sides.\<close>

lemma sim_answered:
  assumes p: "follows v ov p" "sim X B c p" and x: "at c j = Published x b" "\<not> response_ready b (chans (sys c) j)"
    and r: "requested B c0 x b (chans (sys c) j)" and e: "op_eval x (prop_cell (sys c)) = (t, a)"
    and ch: "ch = answered b (op_after x (resp_data c0) a) (chans (sys c) j)"
    and c': "chans (sys c') = (chans (sys c))(j := ch)" "n_chans (sys c') = n_chans (sys c)" "prop_cell (sys c') = t"
      "at c' = at c" "got c' = got c"
  shows "\<exists>p'. follows v ov p' \<and> sim X B c' p'" and "response_ready b ch"
proof -
  note pf = published_flags[OF p x(1)]
  have ca: "carries x a" by (rule sendable_returns(2)[OF pf(2) e])
  let ?p = "p\<lparr> property := t, resp_slot := (resp_slot p)(j := Some a), executed := executed p @ [(j, x, a)],
    resp_flag := (resp_flag p)(j := b), worker := Between \<rparr>"
  have pw: "worker p = Between" "property p = prop_cell (sys c)" "client p = at c" "returned p = got c"
    using p(2) by (simp_all add: sim_def)
  have rp: "follows v ov ?p"
    by (rule follows_serves[OF p(1) pw(1) pf(4) _ pf(6)]) (use pf(5) x(2) pw(2) e in auto)
  have cb: "chan_bytes X B j (chans (sys c) j) p" using p(2) by (simp add: sim_def)
  show rr: "response_ready b ch" by (simp add: ch response_ready_def load_store_flags)
  have "length (op_after x (resp_data c0) a) = 1148"
    using op_after_length[OF ca] length_resp_data[OF requested_facts(1)[OF r]] requested_facts(3)[OF r] by simp
  then have "wf_chan ch" unfolding ch by (rule answered_wf[OF requested_facts(1)[OF r]])
  then have "chan_bytes X B j ch ?p"
    using read_op[OF r ca, of b] pf(2) x(1) cb rr pw(3) by (simp add: chan_bytes_def ch response_ready_def)
  then have "sim X B c' ?p"
    by (intro sim_local[OF p(2) sim_open[OF p(2), of j], where ch = ch]) (use pw c' x in \<open>auto simp: view_def\<close>)
  with rp show "\<exists>p'. follows v ov p' \<and> sim X B c' p'" by blast
qed

text \<open>A visit: nothing, the abstract visit of the pending request, or the hand-over of a launch, which
  the protocol does not see.\<close>

lemma simulated_skip:
  assumes s: "simulated v c" and i: "idx < length (clients (sys c))" and n: "\<not> servable (sys c) idx"
    and k: "scan_ok (length (clients (sys c))) k"
  shows "simulated v (c\<lparr> sys := skip_client idx (sys c), scanning := k \<rparr>)"
proof -
  obtain p where wf: "conc_wf items pitems B c" and p: "follows v (overlapped c) p" "sim X B c p" using s by (rule simulatedE)
  note w = conc_wfD[OF wf]
  let ?j = "cp_chan (clients (sys c) ! idx)" and ?c = "c\<lparr> sys := skip_client idx (sys c), scanning := k \<rparr>"
  have "sim X B ?c p" using p(2) by (auto simp: sim_def skip_client_def upd_client_def)
  moreover have "conc_wf items pitems B ?c"
  proof (cases "idle_chan (chans (sys c) ?j)")
    case True
    have nj: "no_job (sys c) ?j" by (rule visited_no_job[OF wf i refl published_flags(1)[OF p]]) (use True in simp_all)
    have st: "start_idx (sys c) < length (clients (sys c))" using w(1) i by (auto simp: wf_loop_def split: if_splits)
    show ?thesis
      by (rule conc_wf_visited[OF wf i refl nj st k, where t = "prop_cell (sys c)" and ch = "chans (sys c) ?j"])
        (use True in \<open>simp add: skip_client_def clear_pending_def upd_client_def\<close>)
  next
    case False
    then show ?thesis using conc_wf_moved[OF wf moved_refl w(1) refl k] by (simp add: skip_client_def)
  qed
  ultimately show ?thesis by (intro simulatedI[OF _ p(1)]) simp_all
qed

lemma simulated_visit:
  assumes s: "simulated v c" and k: "scanning c = Some (n, offs, pr)" "offs < n"
  obtains s' served where "visit X n (scan_index n (start_idx (sys c)) offs) (sys c) = Next (s', served)"
    "simulated v (c\<lparr> sys := s', scanning := Some (n, Suc offs, pr \<or> served) \<rparr>)"
    "served \<longleftrightarrow> servable (sys c) (scan_index n (start_idx (sys c)) offs)"
    "\<not> served \<Longrightarrow> s' = skip_client (scan_index n (start_idx (sys c)) offs) (sys c)"
    "kept c s'" "served \<Longrightarrow> serves c s'"
proof -
  obtain p where wf: "conc_wf items pitems B c" and p: "follows v (overlapped c) p" "sim X B c p" using s by (rule simulatedE)
  note w = conc_wfD[OF wf]
  have n: "n = length (clients (sys c))" using w(5) k by simp
  define idx where "idx = scan_index n (start_idx (sys c)) offs"
  define j where "j = cp_chan (clients (sys c) ! idx)"
  have "start_idx (sys c) < n" using w(1) n k(2) by (auto simp: wf_loop_def split: if_splits)
  then have i: "idx < length (clients (sys c))" using scan_index_lt[of "start_idx (sys c)" n offs] k(2) n by (simp add: idx_def)
  have n0: "0 < n" using k(2) by linarith
  have st: "(idx + 1) mod n < length (clients (sys c))" unfolding n[symmetric] by (rule mod_less_divisor[OF n0])
  have sk: "scan_ok (length (clients (sys c))) (Some (n, Suc offs, b))" for b using n n0 k(2) by simp
  show ?thesis
  proof (cases "servable (sys c) idx")
    case False
    from visit_unserved[OF i False, of X n] simulated_skip[OF s i False sk] show ?thesis
      by (intro that[of "skip_client idx (sys c)" False])
        (simp_all add: idx_def[symmetric] False kept_def answers_kept_def has_job_def)
  next
    case sv: True
    have nj: "no_job (sys c) j"
      by (rule visited_no_job[OF wf i j_def[symmetric] published_flags(1)[OF p]]) (use sv in simp_all)
    have bytes: "chan_bytes X B j (chans (sys c) j) p" and wk: "worker p = Between" using p(2) by (simp_all add: sim_def)
    have "\<not> idle_chan (chans (sys c) j)" using sv by (simp add: servable_def Let_def j_def)
    then have ne: "req_flag p j \<noteq> resp_flag p j" using bytes by (auto simp: chan_bytes_def idle_chan_def)
    obtain x b where xb: "client p j = Published x b" "resp_flag p j = (\<not> b)"
      by (rule pending_published[OF follows_chan[OF p(1)] wk ne])
    then have x: "at c j = Published x b" and nr: "\<not> response_ready b (chans (sys c) j)"
      using p(2) bytes by (simp_all add: sim_def chan_bytes_def response_ready_def)
    note pf = published_flags[OF p x]
    obtain c0 where r: "requested B c0 x b (chans (sys c) j)" using pf(3)[OF nr] by blast
    show ?thesis
    proof (cases "op_tag x = Launch")
      case True
      obtain tx fb q m hs where v: "visit X n idx (sys c) = Next ((sys c)\<lparr> clients := (clients (sys c))[idx := marked b (clients (sys c) ! idx)],
          prop_arcs := Suc (prop_arcs (sys c)), fiber_pool := q, fibers := (fibers (sys c))(tx := fb), n_fibers := m, fiber_handles := hs,
          start_idx := (idx + 1) mod n \<rparr>, True)" (is "_ = Next (?s, True)")
        and tx: "inbox (fibers (sys c) tx) = []"
          "inbox fb = [Execute \<lparr> job_chan = j, job_hdr = op_header B (chans (sys c) j) x, job_req_ready = b \<rparr>]"
        by (rule visit_launches[OF i j_def[symmetric] sv r True w(3), of n])
      have pi: "pool_inv pitems ?s" using pool_life.visit_P[OF w(3,2), of n idx] v by simp
      have "conc_wf items pitems B (c\<lparr> sys := ?s, scanning := Some (n, Suc offs, pr \<or> True) \<rparr>)"
        by (rule conc_wf_launched[OF wf i j_def[symmetric] nj st sk x True nr tx refl]) (use pi w(2) in simp_all)
      moreover have "sim X B (c\<lparr> sys := ?s, scanning := Some (n, Suc offs, pr \<or> True) \<rparr>) p" using p(2) by (auto simp: sim_def)
      moreover have "kept c ?s"
        by (rule keptI) (use i j_def visited_chans[of idx "clients (sys c)"] tx in \<open>auto simp: marked_def has_job_def\<close>)
      moreover have "has_job ?s tx \<lparr> job_chan = j, job_hdr = op_header B (chans (sys c) j) x, job_req_ready = b \<rparr>"
        using tx(2) by (simp add: has_job_def)
      then have "\<not> no_job ?s j" unfolding no_job_def by fastforce
      then have "serves c ?s" using x nr nj unfolding serves_def pending_def waiting_def by auto
      ultimately show ?thesis
        by (intro that[of ?s True]) (use v simulatedI[OF _ p(1), of "c\<lparr> sys := ?s, scanning := Some (n, Suc offs, pr \<or> True) \<rparr>"] sv in \<open>simp_all add: idx_def[symmetric]\<close>)
    next
      case False
      obtain t a where e: "op_eval x (prop_cell (sys c)) = (t, a)" by (rule prod.exhaust)
      let ?ch = "answered b (op_after x (resp_data c0) a) (chans (sys c) j)"
      let ?s = "(clear_pending idx (sys c))\<lparr> prop_cell := t, start_idx := (idx + 1) mod n, chans := (chans (sys c))(j := ?ch) \<rparr>"
      let ?c = "c\<lparr> sys := ?s, scanning := Some (n, Suc offs, pr \<or> True) \<rparr>"
      have v: "visit X n idx (sys c) = Next (?s, True)" by (rule visit_serves[OF i j_def[symmetric] sv pf(2) r False e])
      obtain p' where p': "follows v (overlapped c) p'" "sim X B ?c p'"
        using sim_answered(1)[OF p x nr r e refl, of ?c] by (auto simp: clear_pending_def upd_client_def)
      have "conc_wf items pitems B ?c" by (rule conc_wf_visited[OF wf i j_def[symmetric] nj st sk refl])
      then have "simulated v ?c" by (rule simulatedI[OF _ p']) simp
      moreover have rr: "response_ready b ?ch" by (simp add: response_ready_def load_store_flags)
      then have "serves c ?s" using x nr nj unfolding serves_def pending_def waiting_def by auto
      moreover have "kept c ?s"
        by (rule keptI) (use i j_def x rr visited_chans[of idx "clients (sys c)"] in \<open>auto simp: clear_pending_def upd_client_def has_job_def\<close>)
      ultimately show ?thesis
        by (intro that[of ?s True]) (use v sv in \<open>simp_all add: idx_def[symmetric] has_job_def\<close>)
    qed
  qed
qed

text \<open>A fiber's turn: nothing, or the abstract visit of the launch it runs.\<close>

lemma fiber_runs:
  assumes s: "simulated v c" and g: "inbox (fibers (sys c) g) = m # ms"
  obtains job x t ch where "m = Execute job" "at c (job_chan job) = Published x (job_req_ready job)"
    "fiber_turn X g (sys c) = Inr (launch_end X g (job_chan job) t ch (sys c))" "response_ready (job_req_ready job) ch"
    "simulated v (c\<lparr> sys := launch_end X g (job_chan job) t ch (sys c) \<rparr>)"
proof -
  obtain p where wf: "conc_wf items pitems B c" and p: "follows v (overlapped c) p" "sim X B c p" using s by (rule simulatedE)
  note w = conc_wfD[OF wf]
  have ft: "fiber_tokens pitems (sys c)" using w(3) by (simp add: pool_inv_def)
  note li = live_inbox[OF ft g]
  have "m \<noteq> Shutdown" using w(6) g by (auto simp: jobs_ok_def dest: spec[of _ g])
  then obtain job where job: "m = Execute job" by (cases m) auto
  have "has_job (sys c) g job" using g job by (simp add: has_job_def)
  then have jo: "job_ok items B c job" using w(6) by (simp add: jobs_ok_def)
  define j where "j = job_chan job" define b where "b = job_req_ready job"
  obtain x where x: "at c j = Published x b" "op_tag x = Launch" "job_hdr job = op_header B (chans (sys c) j) x"
    "\<not> response_ready b (chans (sys c) j)"
    using jo unfolding j_def b_def by (rule job_okD)
  obtain R f where xf: "x = Op_launch R f" using x(2) by (cases x) auto
  note pf = published_flags[OF p x(1)]
  obtain c0 where r: "requested B c0 x b (chans (sys c) j)" using pf(3)[OF x(4)] by blast
  have jb: "job = \<lparr> job_chan = j, job_hdr = op_header B c0 x, job_req_ready = b \<rparr>"
    using x(3) requested_facts(4)[OF r] by (simp add: j_def b_def)
  obtain t a where e: "op_eval x (prop_cell (sys c)) = (t, a)" by (rule prod.exhaust)
  let ?ch = "answered b (op_after x (resp_data c0) a) (chans (sys c) j)"
  let ?v = "upd_fiber g (\<lambda>h. h\<lparr> inbox := [] \<rparr>) (sys c)" and ?s = "launch_end X g j t ?ch (sys c)"
  have run: "run_launch_job X job ?v = Inr (drop_prop_arc (?v\<lparr> prop_cell := t, chans := (chans ?v)(j := ?ch) \<rparr>), False)"
    using run_launched[OF xf r pf(2) _ _ jb, of ?v t a] e by (simp add: upd_fiber_def)
  have turn: "fiber_turn X g (sys c) = Inr ?s"
    using fiber_turn_launch[OF _ li(3) run] g job li(2) by (simp add: launch_end_def Let_def)
  have sa: "\<exists>p'. follows v (overlapped c) p' \<and> sim X B (c\<lparr> sys := ?s \<rparr>) p'" "response_ready b ?ch"
    using sim_answered[OF p x(1,4) r e refl, of "c\<lparr> sys := ?s \<rparr>"] by auto
  then obtain p' where p': "follows v (overlapped c) p'" "sim X B (c\<lparr> sys := ?s \<rparr>) p'" by blast
  have "pool_inv pitems ?s" by (rule pool_inv_fiber_turn[OF pool.seg_queue_axioms w(3) turn])
  then have "conc_wf items pitems B (c\<lparr> sys := ?s \<rparr>)"
    by (intro conc_wf_ran[OF wf _ j_def[symmetric]]) (use g job li(2) sa(2) b_def in simp_all)
  then have "simulated v (c\<lparr> sys := ?s \<rparr>)" by (rule simulatedI[OF _ p']) simp
  then show ?thesis using that[of job x t ?ch] job x(1) turn sa(2) by (simp add: j_def b_def)
qed

text \<open>What is said of the fibers under way, and of overlaps, is invisible to the protocol; once closures
  have overlapped it does not say what the property holds.\<close>

lemma sim_notes [simp]:
  "sim X B (c\<lparr> inside := gs \<rparr>) p = sim X B c p" "sim X B (c\<lparr> overlapped := ov \<rparr>) p = sim X B c p"
  by (simp_all add: sim_def)

lemma conc_wf_notes [simp]:
  "conc_wf items pitems B (c\<lparr> inside := gs \<rparr>) = conc_wf items pitems B c"
  "conc_wf items pitems B (c\<lparr> overlapped := ov \<rparr>) = conc_wf items pitems B c"
  by (simp_all add: conc_wf_def jobs_ok_def job_ok_def)

lemma simulated_inside [simp]: "simulated v (c\<lparr> inside := gs \<rparr>) = simulated v c"
  by (simp add: simulated_def)

lemma simulated_overlaps:
  assumes "simulated v c"
  shows "simulated v (c\<lparr> overlapped := overlapped c \<or> ov \<rparr>)"
proof -
  obtain p where p: "conc_wf items pitems B c" "follows v (overlapped c) p" "sim X B c p" using assms by (rule simulatedE)
  show ?thesis by (rule simulatedI[OF _ follows_overlap[OF p(2)]]) (use p in simp_all)
qed

lemma simulated_leaves:
  assumes s: "simulated v c" and t: "fiber_turn X g (sys c) = Inr s'"
  shows "simulated v (c\<lparr> sys := s' \<rparr>)"
proof (cases "inbox (fibers (sys c) g)")
  case Nil
  then have "s' = sys c" using t by (simp add: fiber_turn_def inbox_pop_def)
  then show ?thesis using s by simp
next
  case (Cons m ms)
  show ?thesis by (rule fiber_runs[OF s Cons]) (use t in auto)
qed

lemma simulated_races:
  assumes "simulated v c" "overlapped c"
  shows "simulated v (c\<lparr> sys := (sys c)\<lparr> prop_cell := t \<rparr> \<rparr>)" (is "simulated v ?c")
proof -
  obtain p where p: "conc_wf items pitems B c" "follows v (overlapped c) p" "sim X B c p" using assms(1) by (rule simulatedE)
  have "conc_wf items pitems B ?c"
    using p(1) unfolding conc_wf_def registered_def
    by (simp add: wf_loop_def jobs_ok_def job_ok_def has_job_def mark_ok_def pool_inv_defs)
  moreover have "chan_bytes X B j ch (p\<lparr> property := t \<rparr>) = chan_bytes X B j ch p" for j ch
    by (rule chan_bytes_view) (simp add: view_def)
  then have "sim X B ?c (p\<lparr> property := t \<rparr>)" using p(3) by (auto simp: sim_def)
  ultimately show ?thesis using follows_races[of v p t] p(2) assms(2) by (intro simulatedI) simp_all
qed

section \<open>Every run\<close>

lemma simulated_step:
  assumes s: "simulated v c" and st: "conc_step X B c c'"
  shows "simulated v c'"
  using st
proof cases
  case (visits n offs pr s' served)
  let ?o = "served \<and> inside c \<noteq> {} \<and> calls_closure c (scan_index n (start_idx (sys c)) offs)"
  have "simulated v (c\<lparr> sys := s', scanning := Some (n, Suc offs, pr \<or> served) \<rparr>)"
    by (rule simulated_visit[OF s visits(2,3)]) (use visits(4) in simp)
  from simulated_overlaps[OF this, of ?o] show ?thesis by (simp add: visits(1))
next
  case (enters g job fb)
  from simulated_overlaps[of v "c\<lparr> inside := insert g (inside c) \<rparr>" "inside c \<noteq> {}"] s
  show ?thesis by (simp add: enters(1))
next
  case (leaves g s')
  from simulated_leaves[OF s leaves(3)] show ?thesis unfolding leaves(1)
    using simulated_inside[where v = v and c = "c\<lparr> sys := s' \<rparr>" and gs = "inside c - {g}"] by simp
qed (use s in \<open>auto intro: simulated_writes simulated_publishes simulated_polls simulated_reads simulated_opens
  simulated_idles simulated_starts simulated_races
  simulated_ends[where pr = True, simplified] simulated_ends[where pr = False, simplified]\<close>)

lemma simulated_steps: "(conc_step X B)\<^sup>*\<^sup>* c c' \<Longrightarrow> simulated v c \<Longrightarrow> simulated v c'"
  by (induction rule: rtranclp_induct) (auto intro: simulated_step)

lemma reachable_simulated: "conc_reachable items pitems X B v c \<Longrightarrow> simulated (v, []) c"
  by (induction rule: conc_reachable.induct) (auto intro: simulated_start simulated_step)

text \<open>The log of the simulated run orders the operations; what follows extends it.\<close>

lemma simulated_log:
  assumes "simulated v c" "\<not> overlapped c"
  obtains es where "logged (fst v) (snd v @ es) c" "simulated (fst v, snd v @ es) c"
proof -
  obtain p where wf: "conc_wf items pitems B c" and f: "follows v (overlapped c) p" and s: "sim X B c p"
    using assms(1) by (rule simulatedE)
  have p: "run_to v p" "in_order p" using f assms(2) by (simp_all add: follows_def)
  have e: "property p = prop_cell (sys c)" "client p = at c" "returned p = got c" using s by (simp_all add: sim_def)
  obtain es where es: "reachable op_eval (fst v) p" "executed p = snd v @ es" using p(1) by (auto simp: run_to_def)
  have "follows (fst v, snd v @ es) False p" using es p(2) by (simp add: follows_def run_to_def)
  then have "simulated (fst v, snd v @ es) c" by (rule simulatedI[OF wf _ s]) (use assms(2) in simp)
  moreover have "logged (fst v) (executed p) c"
    using reachable_inv[OF es(1)] chan_inv_log[OF run_to_chan[OF p(1)]]
    by (auto simp: logged_def proto_inv_def executed_for_def e)
  ultimately show ?thesis using that es(2) by simp
qed

lemma overlapped_step: "conc_step X B c c' \<Longrightarrow> overlapped c \<Longrightarrow> overlapped c'"
  by (erule conc_step.cases) auto

lemma overlapped_steps: "(conc_step X B)\<^sup>*\<^sup>* c c' \<Longrightarrow> overlapped c \<Longrightarrow> overlapped c'"
  by (induction rule: rtranclp_induct) (auto intro: overlapped_step)

lemma run_logs:
  assumes "conc_reachable items pitems X B v c" "(conc_step X B)\<^sup>*\<^sup>* c c'" "\<not> overlapped c'"
  obtains log es where "logged v log c" "logged v (log @ es) c'"
proof -
  have "\<not> overlapped c" using overlapped_steps[OF assms(2)] assms(3) by blast
  then obtain log where log: "logged v log c" "simulated (v, log) c"
    using simulated_log[OF reachable_simulated[OF assms(1)]] by auto
  obtain es where "logged v (log @ es) c'" by (rule simulated_log[OF simulated_steps[OF assms(2) log(2)] assms(3)]) auto
  with log(1) show ?thesis by (rule that)
qed

lemma entered_keeps:
  "entered c \<Longrightarrow> (\<And>g job. has_job (sys c) g job \<Longrightarrow> has_job (sys c') g job) \<Longrightarrow> inside c' = inside c \<Longrightarrow> entered c'"
  unfolding entered_def by metis

lemma entered_fibers: "entered c \<Longrightarrow> fibers (sys c') = fibers (sys c) \<Longrightarrow> inside c' = inside c \<Longrightarrow> entered c'"
  by (erule entered_keeps) (simp_all add: has_job_def)

lemma entered_step:
  assumes s: "simulated v c" and e: "entered c" and st: "conc_step X B c c'"
  shows "entered c'"
  using st
proof cases
  case (visits n offs pr s' served)
  have "kept c s'" by (rule simulated_visit[OF s visits(2,3)]) (use visits(4) in simp)
  then have "has_job s' g job" if "has_job (sys c) g job" for g job using that by (simp add: kept_def answers_kept_def)
  then show ?thesis using entered_keeps[OF e, of c'] visits(1) by simp
next
  case (enters g job fb)
  then have "has_job (sys c) g job" by (auto simp: inbox_pop_def has_job_def split: list.splits)
  then show ?thesis using e enters(1) by (auto simp: entered_def)
next
  case (leaves g s')
  have "has_job s' g' job'" if "has_job (sys c) g' job'" "g' \<noteq> g" for g' job'
  proof (cases "inbox (fibers (sys c) g)")
    case Nil
    then have "s' = sys c" using leaves(3) by (simp add: fiber_turn_def inbox_pop_def)
    then show ?thesis using that by simp
  next
    case (Cons m ms)
    show ?thesis by (rule fiber_runs[OF s Cons]) (use leaves(3) that in \<open>auto simp: has_job_def\<close>)
  qed
  moreover have "sys c' = s'" "inside c' = inside c - {g}" using leaves(1) by simp_all
  ultimately show ?thesis using e unfolding entered_def by (metis DiffD1 DiffD2 singletonI)
next
  case (opens b own rm s')
  then have "fibers s' = fibers (sys c)" by (auto simp: entrust_handle_def new_chan_def register_def Let_def)
  then show ?thesis using entered_fibers[OF e, of c'] opens(1) by simp
next
  case idles
  then show ?thesis using entered_fibers[OF e, of c'] moved_simps[OF moved_trans[OF round_start_facts(1) moved_idle_step]] by simp
next
  case starts
  then show ?thesis using entered_fibers[OF e, of c'] moved_simps[OF round_start_facts(1)] by simp
next
  case (ends n pr)
  then show ?thesis using entered_fibers[OF e, of c'] by (simp add: idle_step_def)
qed (use entered_fibers[OF e, of c'] in simp_all)

lemma issued_step: "conc_step X B c c' \<Longrightarrow> issued c \<subseteq> issued c'"
proof (erule conc_step.cases)
  fix d j x c1
  assume d: "c = d" "c' = d\<lparr> sys := put_chan j c1 (sys d), at := (at d)(j := Written x) \<rparr>" "at d j = Idle"
  have "under_way (at c k) \<subseteq> under_way (at c' k)" for k using d by (cases "k = j") simp_all
  moreover have "got c' = got c" using d by simp
  ultimately show "issued c \<subseteq> issued c'" unfolding issued_def by (intro UN_mono) auto
next
  fix d j x b c2
  assume d: "c = d" "c' = d\<lparr> sys := put_chan j c2 (sys d), at := (at d)(j := Published x b) \<rparr>" "at d j = Written x"
  have "under_way (at c k) \<subseteq> under_way (at c' k)" for k using d by (cases "k = j") simp_all
  moreover have "got c' = got c" using d by simp
  ultimately show "issued c \<subseteq> issued c'" unfolding issued_def by (intro UN_mono) auto
next
  fix d j x b
  assume d: "c = d" "c' = d\<lparr> at := (at d)(j := Answered x) \<rparr>" "at d j = Published x b"
  have "under_way (at c k) \<subseteq> under_way (at c' k)" for k using d by (cases "k = j") simp_all
  moreover have "got c' = got c" using d by simp
  ultimately show "issued c \<subseteq> issued c'" unfolding issued_def by (intro UN_mono) auto
next
  fix d j x a
  assume d: "c = d" "c' = d\<lparr> at := (at d)(j := Idle), got := (got d)(j := got d j @ [(x, a)]) \<rparr>" "at d j = Answered x"
  have "under_way (at c k) \<union> fst ` set (got c k) \<subseteq> under_way (at c' k) \<union> fst ` set (got c' k)" for k
    using d by (cases "k = j") auto
  then show "issued c \<subseteq> issued c'" unfolding issued_def by (intro UN_mono) auto
qed (auto simp: issued_def)

lemma launch_issued_steps: "(conc_step X B)\<^sup>*\<^sup>* c c' \<Longrightarrow> launch_issued c \<Longrightarrow> launch_issued c'"
  by (induction rule: rtranclp_induct) (use issued_step in \<open>auto simp: launch_issued_def\<close>)

lemma entered_issued:
  assumes "simulated v c" "entered c" "inside c \<noteq> {}"
  shows "launch_issued c"
proof -
  obtain g job where "has_job (sys c) g job" using assms(2,3) unfolding entered_def by blast
  moreover have "jobs_ok items B c" using assms(1) by (simp add: simulated_def conc_wf_def)
  ultimately have "job_ok items B c job" by (rule jobs_okD[rotated])
  then obtain x where x: "at c (job_chan job) = Published x (job_req_ready job)" "op_tag x = Launch" by (rule job_okD)
  then have "x \<in> under_way (at c (job_chan job))" by simp
  then show ?thesis using x(2) unfolding launch_issued_def issued_def by blast
qed

lemma overlap_step:
  assumes "simulated v c" "entered c" "overlapped c \<longrightarrow> launch_issued c" "conc_step X B c c'" "overlapped c'"
  shows "launch_issued c'"
proof -
  have "overlapped c \<or> inside c \<noteq> {}" using assms(4,5) by cases auto
  then have "launch_issued c" using entered_issued[OF assms(1,2)] assms(3) by blast
  then show ?thesis using launch_issued_steps r_into_rtranclp[of "conc_step X B", OF assms(4)] by blast
qed

lemma reachable_entered:
  "conc_reachable items pitems X B v c \<Longrightarrow> entered c \<and> (overlapped c \<longrightarrow> launch_issued c)"
proof (induction rule: conc_reachable.induct)
  case (start q p tid)
  then show ?case by (simp add: conc_start_def entered_def)
next
  case (step c c')
  note s = reachable_simulated[OF step.hyps(1)]
  show ?case using entered_step[OF s _ step.hyps(2)] overlap_step[OF s _ _ step.hyps(2)] step.IH by blast
qed

text \<open>Until closures overlap, at most one fiber is under way.\<close>

lemma reachable_alone:
  assumes "conc_reachable items pitems X B v c"
  shows "\<not> overlapped c \<longrightarrow> g \<in> inside c \<longrightarrow> inside c = {g}"
  using assms
proof (induction arbitrary: g rule: conc_reachable.induct)
  case (step c c')
  show ?case using step.hyps(2)
  proof cases
    case (leaves h s')
    then show ?thesis using step.IH[of g] step.IH[of h] by auto
  qed (use step.IH[of g] in auto)
qed (simp add: conc_start_def)

text \<open>Nothing goes wrong on the way: writing fits, a visit and a fiber's turn return, an answer can be
  read.\<close>

lemma simulated_safe:
  assumes s: "simulated v c"
  shows "sendable X B x \<Longrightarrow> \<exists>c1. op_write B x (chans (sys c) j) = Ok c1"
    and "at c j = Answered y \<Longrightarrow> \<exists>a. op_read y (chans (sys c) j) = Ok a"
    and "scanning c = Some (n, offs, pr) \<Longrightarrow> offs < n \<Longrightarrow>
      \<exists>s' served. visit X n (scan_index n (start_idx (sys c)) offs) (sys c) = Next (s', served)"
    and "\<exists>s'. fiber_turn X g (sys c) = Inr s'"
proof -
  obtain p where p: "follows v (overlapped c) p" "sim X B c p" using s by (auto simp: simulated_def)
  have wf: "wf_chan (chans (sys c) j)" using p(2) by (simp add: sim_def chan_bytes_def)
  show "\<exists>c1. op_write B x (chans (sys c) j) = Ok c1" if x: "sendable X B x"
  proof -
    obtain args where a: "op_args B x = Some args" "fits (op_fv x) (length args)" by (rule sendable_args[OF x])
    show ?thesis unfolding op_write_sendable[OF a(1)] by (rule write_publish[OF wf a(2)]) blast
  qed
  show "\<exists>a. op_read y (chans (sys c) j) = Ok a" if "at c j = Answered y"
    by (rule answered_reads[OF p that]) blast
  show "\<exists>s' served. visit X n (scan_index n (start_idx (sys c)) offs) (sys c) = Next (s', served)"
    if "scanning c = Some (n, offs, pr)" "offs < n"
    by (rule simulated_visit[OF s that]) blast
  show "\<exists>s'. fiber_turn X g (sys c) = Inr s'"
  proof (cases "inbox (fibers (sys c) g)")
    case Nil
    then show ?thesis by (simp add: fiber_turn_def inbox_pop_def)
  next
    case (Cons m ms)
    show ?thesis by (rule fiber_runs[OF s Cons]) blast
  qed
qed

end

interpretation demo_conc: conc_system "\<lambda>q. q" demo_world "\<lambda>p. p" B for B :: "'v codec"
  by unfold_locales

end
