(* ===== verification/Concurrent_Runs.thy ===== *)
theory Concurrent_Runs
  imports Concurrent_Sim
begin

text \<open>
  Runs of the concurrent system: clients that post, take their results and post again, the rounds
  that serve them, and what every run guarantees - and does not: three clients of which one is never
  served.
\<close>

section \<open>Clients at work\<close>

lemma conc_reachable_steps:
  "(conc_step X B)\<^sup>*\<^sup>* c c' \<Longrightarrow> conc_reachable items pitems X B v c \<Longrightarrow> conc_reachable items pitems X B v c'"
  by (induction rule: rtranclp_induct) (auto intro: conc_reachable.step)

text \<open>Waiting for an operation the worker runs itself, and three clients that wait, before a round
  that starts at the first.\<close>

definition calling :: "('t, 'q, 'p, 'v, 'r) conc \<Rightarrow> nat \<Rightarrow> bool" where
  "calling c j \<longleftrightarrow> (\<exists>x b. at c j = Published x b \<and> \<not> response_ready b (chans (sys c) j) \<and> op_tag x \<noteq> Launch)"

definition trio :: "('q \<Rightarrow> ClientPair list) \<Rightarrow> nat \<Rightarrow> nat \<Rightarrow> nat \<Rightarrow> ('t, 'q, 'p, 'v, 'r) conc \<Rightarrow> bool" where
  "trio items j0 j1 j2 c \<longleftrightarrow>
     distinct [j0, j1, j2] \<and> map cp_chan (clients (sys c)) = [j0, j1, j2] \<and> items (reg (sys c)) = [] \<and>
     start_idx (sys c) = 0 \<and> scanning c = None \<and> calling c j0 \<and> waiting c j1 \<and> calling c j2"

context conc_system
begin

text \<open>A client that waits, and what the worker and the client do with its request.\<close>

lemma answered_idle:
  assumes s: "simulated v c" and w: "at c j = Published x b" "response_ready b (chans (sys c) j)"
  shows "idle_chan (chans (sys c) j)"
proof -
  obtain p where p: "follows v (overlapped c) p" "sim X B c p" using s by (auto simp: simulated_def)
  from published_flags(1)[OF p w(1)] w(2) show ?thesis by (simp add: response_ready_def idle_chan_def)
qed

lemma calling_servable:
  assumes s: "simulated v c" and i: "i < length (clients (sys c))" "cp_chan (clients (sys c) ! i) = j"
    and w: "at c j = Published x b" "\<not> response_ready b (chans (sys c) j)" "op_tag x \<noteq> Launch"
  shows "servable (sys c) i"
proof -
  obtain p where wf: "conc_wf items pitems B c" and p: "follows v (overlapped c) p" "sim X B c p" using s by (rule simulatedE)
  let ?cp = "clients (sys c) ! i"
  have f: "ready (load_flags (request (chans (sys c) j))) = b" by (rule published_flags(1)[OF p w(1)])
  have "no_job (sys c) j" unfolding no_job_def
  proof (intro allI impI notI)
    fix g job assume "has_job (sys c) g job" "job_chan job = j"
    moreover from this have "job_ok items B c job" using conc_wfD(6)[OF wf] by (simp add: jobs_ok_def)
    ultimately show False using w by (elim job_okD) simp
  qed
  moreover have "mark_ok (sys c) ?cp" by (rule conc_wfD(7)[OF wf]) (use i in simp)
  ultimately have "pending_launch ?cp \<Longrightarrow> response_ready (launch_req_ready ?cp) (chans (sys c) j)"
    using i(2) by (auto simp: mark_ok_def no_job_def)
  then show ?thesis using w(2) f i(2) by (auto simp: servable_def Let_def idle_chan_def response_ready_def)
qed

lemma posts:
  assumes s: "simulated v c" and j: "at c j = Idle" "j < n_chans (sys c)" and x: "sendable X B x"
  obtains ch b where "(conc_step X B)\<^sup>*\<^sup>* c (c\<lparr> sys := put_chan j ch (sys c), at := (at c)(j := Published x b) \<rparr>)"
    "\<not> response_ready b ch"
proof -
  obtain c1 where c1: "op_write B x (chans (sys c) j) = Ok c1" using simulated_safe(1)[OF s x] by blast
  let ?c1 = "c\<lparr> sys := put_chan j c1 (sys c), at := (at c)(j := Written x) \<rparr>"
  obtain b c2 where c2: "publish (chans (sys ?c1) j) = (b, c2)" by (rule prod.exhaust)
  have "conc_step X B c ?c1" by (rule conc_step.writes[OF j x c1])
  moreover have "conc_step X B ?c1 (?c1\<lparr> sys := put_chan j c2 (sys ?c1), at := (at ?c1)(j := Published x b) \<rparr>)"
    by (rule conc_step.publishes[OF _ c2]) simp
  moreover have "?c1\<lparr> sys := put_chan j c2 (sys ?c1), at := (at ?c1)(j := Published x b) \<rparr>
      = c\<lparr> sys := put_chan j c2 (sys c), at := (at c)(j := Published x b) \<rparr>" by (simp add: put_chan_def)
  ultimately have "(conc_step X B)\<^sup>*\<^sup>* c (c\<lparr> sys := put_chan j c2 (sys c), at := (at c)(j := Published x b) \<rparr>)"
    by (simp add: converse_rtranclp_into_rtranclp)
  moreover have "\<not> response_ready b c2" using c2 by (auto simp: publish_def Let_def response_ready_def set_req_flags_def)
  ultimately show ?thesis by (rule that)
qed

text \<open>A client whose request has been answered takes the result and posts the next one.\<close>

lemma reposts:
  assumes s: "simulated v c" and w: "at c j = Published f b" "response_ready b (chans (sys c) j)"
    and g: "sendable X B g"
  obtains ch b' r where "(conc_step X B)\<^sup>*\<^sup>* c (c\<lparr> got := (got c)(j := got c j @ [(f, r)]),
      sys := put_chan j ch (sys c), at := (at c)(j := Published g b') \<rparr>)" "\<not> response_ready b' ch"
proof -
  let ?c1 = "c\<lparr> at := (at c)(j := Answered f) \<rparr>"
  have st1: "conc_step X B c ?c1" by (rule conc_step.polls[OF w])
  have s1: "simulated v ?c1" by (rule simulated_polls[OF s w])
  then obtain r where r: "op_read f (chans (sys ?c1) j) = Ok r"
    using simulated_safe(2)[OF s1, of j f] by auto
  let ?c2 = "c\<lparr> at := (at c)(j := Idle), got := (got c)(j := got c j @ [(f, r)]) \<rparr>"
  have st2: "conc_step X B ?c1 ?c2" using conc_step.reads[OF _ r, of X B] by simp
  have s2: "simulated v ?c2" by (rule simulated_step[OF s1 st2])
  have n: "j < n_chans (sys c)" using s w(1) sim_open[of X B c _ j] by (auto simp: simulated_def)
  obtain ch b' where p: "(conc_step X B)\<^sup>*\<^sup>* ?c2 (?c2\<lparr> sys := put_chan j ch (sys ?c2), at := (at ?c2)(j := Published g b') \<rparr>)"
    "\<not> response_ready b' ch"
    by (rule posts[OF s2 _ _ g, of j]) (use n in auto)
  have "(conc_step X B)\<^sup>*\<^sup>* c (?c2\<lparr> sys := put_chan j ch (sys ?c2), at := (at ?c2)(j := Published g b') \<rparr>)"
    using st1 st2 p(1) by (meson converse_rtranclp_into_rtranclp)
  then show ?thesis using that p(2) by simp
qed

lemma round_start_empty:
  assumes "items (reg s) = []"
  shows "round_start X s = s\<lparr> loop_counter := loop_counter s + 1 \<rparr>"
proof -
  have "reg_pop X (reg s) = None" using assms pop_None_iff by simp
  then have "drain X n (s\<lparr> loop_counter := k \<rparr>) = s\<lparr> loop_counter := k \<rparr>" for n k by (cases n) simp_all
  then show ?thesis by (simp add: round_start_def poll_registrations_def)
qed

text \<open>A visit of a calling client as a step.\<close>

lemma visits_calling:
  assumes s: "simulated v c" and k: "scanning c = Some (n, offs, pr)" "offs < n"
    and i: "scan_index n (start_idx (sys c)) offs = i" "i < length (clients (sys c))" "cp_chan (clients (sys c) ! i) = j"
    and w: "at c j = Published x b" "\<not> response_ready b (chans (sys c) j)" "op_tag x \<noteq> Launch"
  obtains t ch where "response_ready b ch" "t = fst (op_eval x (prop_cell (sys c)))"
    "conc_step X B c (c\<lparr> sys := (clear_pending i (sys c))\<lparr> prop_cell := t, start_idx := (i + 1) mod n, chans := (chans (sys c))(j := ch) \<rparr>,
      scanning := Some (n, Suc offs, True), overlapped := overlapped c \<or> inside c \<noteq> {} \<rparr>)"
proof -
  obtain p where p: "follows v (overlapped c) p" "sim X B c p" using s by (rule simulatedE)
  note pf = published_flags[OF p w(1)]
  obtain c0 where r: "requested B c0 x b (chans (sys c) j)" using pf(3)[OF w(2)] by blast
  obtain t a where e: "op_eval x (prop_cell (sys c)) = (t, a)" by (rule prod.exhaust)
  let ?ch = "answered b (op_after x (resp_data c0) a) (chans (sys c) j)"
  have v: "visit X n (scan_index n (start_idx (sys c)) offs) (sys c) = Next ((clear_pending i (sys c))\<lparr> prop_cell := t,
      start_idx := (i + 1) mod n, chans := (chans (sys c))(j := ?ch) \<rparr>, True)"
    unfolding i(1) by (rule visit_serves[OF i(2,3) calling_servable[OF s i(2,3) w] pf(2) r w(3) e])
  have "calls_closure c (scan_index n (start_idx (sys c)) offs)" using w(1,3) i by (simp add: calls_closure_def)
  then show ?thesis
    by (intro that[of ?ch t]) (use e conc_step.visits[OF k v, of B] in \<open>simp_all add: response_ready_def load_store_flags\<close>)
qed

lemma visits_answered:
  assumes s: "simulated v c" and k: "scanning c = Some (n, offs, pr)" "offs < n"
    and i: "scan_index n (start_idx (sys c)) offs = i" "i < length (clients (sys c))" "cp_chan (clients (sys c) ! i) = j"
    and w: "at c j = Published x b" "response_ready b (chans (sys c) j)"
  shows "conc_step X B c (c\<lparr> sys := skip_client i (sys c), scanning := Some (n, Suc offs, pr) \<rparr>)"
proof -
  have "\<not> servable (sys c) i" using answered_idle[OF s w] i(3) by (simp add: servable_def Let_def)
  from visit_unserved[OF i(2) this, of X n] show ?thesis using quiet_visits[OF k, of X "skip_client i (sys c)" False B] i(1) by simp
qed

text \<open>The round: the first and the third client are answered, the second is not.\<close>

lemma trio_round:
  assumes s: "simulated v c" and c: "trio items j0 j1 j2 c"
    and w0: "at c j0 = Published f0 b0" and w2: "at c j2 = Published f2 b2"
  obtains c' ch0 ch2 where "(conc_step X B)\<^sup>*\<^sup>* c c'" "response_ready b0 ch0" "response_ready b2 ch2"
    "at c' = at c" "got c' = got c" "scanning c' = None" "map cp_chan (clients (sys c')) = map cp_chan (clients (sys c))"
    "start_idx (sys c') = 0" "items (reg (sys c')) = []" "chans (sys c') = (chans (sys c))(j0 := ch0, j2 := ch2)"
    "loop_counter (sys c') = loop_counter (sys c) + 1" "inside c' = inside c" "overlapped c' \<longleftrightarrow> overlapped c \<or> inside c \<noteq> {}"
proof -
  have d: "j0 \<noteq> j2" "j0 \<noteq> j1" "j1 \<noteq> j2" and cl: "map cp_chan (clients (sys c)) = [j0, j1, j2]"
    and q: "items (reg (sys c)) = []" "start_idx (sys c) = 0" "scanning c = None"
    and wt: "\<not> response_ready b0 (chans (sys c) j0)" "\<not> response_ready b2 (chans (sys c) j2)"
    and nl: "op_tag f0 \<noteq> Launch" "op_tag f2 \<noteq> Launch"
    using c w0 w2 by (auto simp: trio_def calling_def)
  have len: "length (clients (sys c)) = 3" using arg_cong[OF cl, of length] by simp
  have nth: "cp_chan (clients (sys c) ! 0) = j0" "cp_chan (clients (sys c) ! 2) = j2"
    using arg_cong[OF cl, of "\<lambda>l. l ! 0"] arg_cong[OF cl, of "\<lambda>l. l ! 2"] len by simp_all
  have idx: "scan_index 3 0 0 = 0" "scan_index 3 1 1 = 2" "scan_index 3 0 2 = 2" by (simp_all add: scan_index_def)
  note rs = round_start_empty[OF q(1)]
  let ?c1 = "c\<lparr> sys := round_start X (sys c), scanning := Some (3, 0, False) \<rparr>"
  have "clients (sys c) \<noteq> []" using len by auto
  then have st1: "conc_step X B c ?c1" using conc_step.starts[OF q(3), of X B] len by (simp add: rs)
  have s1: "simulated v ?c1" by (rule simulated_step[OF s st1])
  obtain t1 ch0 where v1: "response_ready b0 ch0" and "t1 = fst (op_eval f0 (prop_cell (sys ?c1)))" and st2: "conc_step X B ?c1 (?c1\<lparr> sys := (clear_pending 0 (sys ?c1))\<lparr> prop_cell := t1,
      start_idx := (0 + 1) mod 3, chans := (chans (sys ?c1))(j0 := ch0) \<rparr>, scanning := Some (3, Suc 0, True),
      overlapped := overlapped ?c1 \<or> inside ?c1 \<noteq> {} \<rparr>)"
    by (rule visits_calling[OF s1, of 3 0 False 0 j0 f0 b0]) (use w0 wt q idx len nth nl in \<open>auto simp: rs\<close>)
  let ?c2 = "?c1\<lparr> sys := (clear_pending 0 (sys ?c1))\<lparr> prop_cell := t1, start_idx := 1, chans := (chans (sys ?c1))(j0 := ch0) \<rparr>,
    scanning := Some (3, 1, True), overlapped := overlapped ?c1 \<or> inside ?c1 \<noteq> {} \<rparr>"
  have st2': "conc_step X B ?c1 ?c2" using st2 by simp
  have s2: "simulated v ?c2" by (rule simulated_step[OF s1 st2'])
  have len2: "length (clients (sys ?c2)) = 3" "cp_chan (clients (sys ?c2) ! 2) = j2" using len nth by (simp_all add: rs)
  obtain t2 ch2 where v2: "response_ready b2 ch2" and "t2 = fst (op_eval f2 (prop_cell (sys ?c2)))" and st3: "conc_step X B ?c2 (?c2\<lparr> sys := (clear_pending 2 (sys ?c2))\<lparr> prop_cell := t2,
      start_idx := (2 + 1) mod 3, chans := (chans (sys ?c2))(j2 := ch2) \<rparr>, scanning := Some (3, Suc 1, True),
      overlapped := overlapped ?c2 \<or> inside ?c2 \<noteq> {} \<rparr>)"
    by (rule visits_calling[OF s2 _ _ _ _ len2(2), of 3 1 True f2 b2]) (use w2 wt idx len2 nl d in \<open>auto simp: rs\<close>)
  let ?c3 = "?c2\<lparr> sys := (clear_pending 2 (sys ?c2))\<lparr> prop_cell := t2, start_idx := 0, chans := (chans (sys ?c2))(j2 := ch2) \<rparr>,
    scanning := Some (3, 2, True), overlapped := overlapped ?c2 \<or> inside ?c2 \<noteq> {} \<rparr>"
  have st3': "conc_step X B ?c2 ?c3" using st3 by (simp add: numeral_2_eq_2)
  have s3: "simulated v ?c3" by (rule simulated_step[OF s2 st3'])
  have len3: "length (clients (sys ?c3)) = 3" "cp_chan (clients (sys ?c3) ! 2) = j2" using len nth by (simp_all add: rs)
  have st4: "conc_step X B ?c3 (?c3\<lparr> sys := skip_client 2 (sys ?c3), scanning := Some (3, Suc 2, True) \<rparr>)"
    by (rule visits_answered[OF s3 _ _ _ _ len3(2), of 3 2 True f2 b2]) (use w2 v2 idx len3 in auto)
  let ?c4 = "?c3\<lparr> sys := skip_client 2 (sys ?c3), scanning := Some (3, 3, True) \<rparr>"
  have st4': "conc_step X B ?c3 ?c4" using st4 by simp
  have st5: "conc_step X B ?c4 (?c4\<lparr> sys := (sys ?c4)\<lparr> idle_rounds := 0 \<rparr>, scanning := None \<rparr>)"
    using conc_step.ends[of ?c4 3 True X B] by simp
  have "(conc_step X B)\<^sup>*\<^sup>* c (?c4\<lparr> sys := (sys ?c4)\<lparr> idle_rounds := 0 \<rparr>, scanning := None \<rparr>)"
    using st1 st2' st3' st4' st5 by (meson converse_rtranclp_into_rtranclp rtranclp.rtrancl_refl)
  then show ?thesis
    by (rule that[OF _ v1 v2]) (use cl len nth q in \<open>simp_all add: rs map_update numeral_2_eq_2\<close>)
qed

text \<open>The round and the next requests of the two clients that were answered.\<close>

lemma trio_again:
  fixes c :: "('t, 'q, 'p, 'v, 'r) conc" and g0 g2 :: "('t, 'v, 'r) client_op"
  assumes s: "simulated v c" and c: "trio items j0 j1 j2 c" and g: "sendable X B g0" "sendable X B g2" "op_tag g0 \<noteq> Launch" "op_tag g2 \<noteq> Launch"
  obtains c' where "(conc_step X B)\<^sup>*\<^sup>* c c'" "trio items j0 j1 j2 c'" "at c' j1 = at c j1"
    "chans (sys c') j1 = chans (sys c) j1" "length (got c' j0) = Suc (length (got c j0))"
    "length (got c' j2) = Suc (length (got c j2))" "got c' j1 = got c j1"
    "loop_counter (sys c') = loop_counter (sys c) + 1" "inside c' = inside c" "overlapped c' \<longleftrightarrow> overlapped c \<or> inside c \<noteq> {}"
proof -
  have d: "j0 \<noteq> j2" "j0 \<noteq> j1" "j1 \<noteq> j2" using c by (auto simp: trio_def)
  obtain f0 b0 f2 b2 where w: "at c j0 = Published f0 b0" "at c j2 = Published f2 b2"
    using c by (auto simp: trio_def calling_def)
  obtain c1 ch0 ch2 where st1: "(conc_step X B)\<^sup>*\<^sup>* c c1" and r: "response_ready b0 ch0" "response_ready b2 ch2"
    and c1: "at c1 = at c" "got c1 = got c" "scanning c1 = None" "map cp_chan (clients (sys c1)) = map cp_chan (clients (sys c))" "start_idx (sys c1) = 0"
    "items (reg (sys c1)) = []" "chans (sys c1) = (chans (sys c))(j0 := ch0, j2 := ch2)"
    "loop_counter (sys c1) = loop_counter (sys c) + 1" "inside c1 = inside c" "overlapped c1 \<longleftrightarrow> overlapped c \<or> inside c \<noteq> {}"
    by (rule trio_round[OF s c w])
  have s1: "simulated v c1" by (rule simulated_steps[OF st1 s])
  obtain d0 b0' r0 where st2: "(conc_step X B)\<^sup>*\<^sup>* c1 (c1\<lparr> got := (got c1)(j0 := got c1 j0 @ [(f0, r0)]),
      sys := put_chan j0 d0 (sys c1), at := (at c1)(j0 := Published g0 b0') \<rparr>)" and n0: "\<not> response_ready b0' d0"
    by (rule reposts[OF s1 _ _ g(1), of j0 f0 b0]) (use c1 w r d in auto)
  let ?c2 = "c1\<lparr> got := (got c1)(j0 := got c1 j0 @ [(f0, r0)]),
      sys := put_chan j0 d0 (sys c1), at := (at c1)(j0 := Published g0 b0') \<rparr>"
  have s2: "simulated v ?c2" by (rule simulated_steps[OF st2 s1])
  obtain d2 b2' r2 where st3: "(conc_step X B)\<^sup>*\<^sup>* ?c2 (?c2\<lparr> got := (got ?c2)(j2 := got ?c2 j2 @ [(f2, r2)]),
      sys := put_chan j2 d2 (sys ?c2), at := (at ?c2)(j2 := Published g2 b2') \<rparr>)" and n2: "\<not> response_ready b2' d2"
    by (rule reposts[OF s2 _ _ g(2), of j2 f2 b2]) (use c1 w r d in \<open>auto simp: put_chan_def\<close>)
  let ?c3 = "?c2\<lparr> got := (got ?c2)(j2 := got ?c2 j2 @ [(f2, r2)]),
      sys := put_chan j2 d2 (sys ?c2), at := (at ?c2)(j2 := Published g2 b2') \<rparr>"
  have st: "(conc_step X B)\<^sup>*\<^sup>* c ?c3" using st1 st2 st3 by (meson rtranclp_trans)
  have "trio items j0 j1 j2 ?c3"
    using c c1 d n0 n2 g(3,4) by (auto simp: trio_def waiting_def calling_def put_chan_def)
  then show ?thesis by (rule that[OF st]) (use c1 d in \<open>auto simp: put_chan_def\<close>)
qed

lemma trio_forever:
  fixes c :: "('t, 'q, 'p, 'v, 'r) conc" and g0 g2 :: "('t, 'v, 'r) client_op"
  assumes s: "simulated v c" and c: "trio items j0 j1 j2 c" and g: "sendable X B g0" "sendable X B g2" "op_tag g0 \<noteq> Launch" "op_tag g2 \<noteq> Launch"
  shows "\<exists>c'. (conc_step X B)\<^sup>*\<^sup>* c c' \<and> trio items j0 j1 j2 c' \<and> at c' j1 = at c j1 \<and>
    chans (sys c') j1 = chans (sys c) j1 \<and> length (got c' j0) = length (got c j0) + k \<and>
    length (got c' j2) = length (got c j2) + k \<and> got c' j1 = got c j1 \<and>
    loop_counter (sys c') = loop_counter (sys c) + of_nat k"
proof (induction k)
  case 0
  then show ?case using c by (intro exI[of _ c]) simp
next
  case (Suc k)
  then obtain c1 where c1: "(conc_step X B)\<^sup>*\<^sup>* c c1" "trio items j0 j1 j2 c1" "at c1 j1 = at c j1"
    "chans (sys c1) j1 = chans (sys c) j1" "length (got c1 j0) = length (got c j0) + k"
    "length (got c1 j2) = length (got c j2) + k" "got c1 j1 = got c j1"
    "loop_counter (sys c1) = loop_counter (sys c) + of_nat k" by blast
  obtain c2 where c2: "(conc_step X B)\<^sup>*\<^sup>* c1 c2" "trio items j0 j1 j2 c2" "at c2 j1 = at c1 j1"
    "chans (sys c2) j1 = chans (sys c1) j1" "length (got c2 j0) = Suc (length (got c1 j0))"
    "length (got c2 j2) = Suc (length (got c1 j2))" "got c2 j1 = got c1 j1"
    "loop_counter (sys c2) = loop_counter (sys c1) + 1"
    by (rule trio_again[OF simulated_steps[OF c1(1) s] c1(2) g])
  show ?case
    by (rule exI[of _ c2]) (use c1 c2 rtranclp_trans[OF c1(1) c2(1)] in simp)
qed

text \<open>A round with no client at work.\<close>

lemma quiet_idle:
  assumes s: "simulated v c" and w: "at c j = Idle"
  shows "idle_chan (chans (sys c) j)"
proof -
  obtain p where p: "follows v (overlapped c) p" "sim X B c p" using s by (rule simulatedE)
  then have "chan_bytes X B j (chans (sys c) j) p" "client p j = Idle" using w by (auto simp: sim_def)
  then show ?thesis using follows_chan[OF p(1), of j] by (auto simp: chan_bytes_def idle_chan_def chan_inv_def)
qed

text \<open>Visits of unmarked clients with no request change nothing.\<close>

definition unmarked :: "('t, 'q, 'p, 'v, 'r) conc \<Rightarrow> bool" where
  "unmarked c \<longleftrightarrow> (\<forall>cp \<in> set (clients (sys c)). \<not> pending_launch cp)"

lemma idle_visits:
  assumes "simulated v c" "\<And>j. at c j = Idle" "unmarked c" "scanning c = Some (n, offs, pr)" "offs \<le> n"
  shows "(conc_step X B)\<^sup>*\<^sup>* c (c\<lparr> scanning := Some (n, n, pr) \<rparr>)"
  using assms
proof (induction "n - offs" arbitrary: offs c)
  case 0
  then show ?case by (cases c) auto
next
  case (Suc k)
  then have lt: "offs < n" by simp
  let ?i = "scan_index n (start_idx (sys c)) offs" and ?c = "c\<lparr> sys := sys c, scanning := Some (n, Suc offs, pr \<or> False) \<rparr>"
  have wf: "conc_wf items pitems B c" using Suc.prems(1) by (simp add: simulated_def)
  then have n: "n = length (clients (sys c))" "start_idx (sys c) < n"
    using Suc.prems(4) lt by (auto simp: conc_wf_def wf_loop_def split: if_splits)
  then have i: "?i < length (clients (sys c))" using scan_index_lt[of "start_idx (sys c)" n offs] lt by simp
  have pl: "\<not> pending_launch (clients (sys c) ! ?i)" using Suc.prems(3) nth_mem[OF i] by (auto simp: unmarked_def)
  have q: "idle_chan (chans (sys c) (cp_chan (clients (sys c) ! ?i)))" by (rule quiet_idle[OF Suc.prems(1,2)])
  then have "\<not> servable (sys c) ?i" by (simp add: servable_def Let_def)
  moreover have "skip_client ?i (sys c) = sys c"
    using q upd_client_same[OF i, of "\<lambda>cp. cp\<lparr> pending_launch := False \<rparr>"] pl by (simp add: skip_client_def clear_pending_id)
  ultimately have "visit X n ?i (sys c) = Next (sys c, False)" using visit_unserved[OF i, of X n] by simp
  then have st: "conc_step X B c ?c" by (rule quiet_visits[OF Suc.prems(4) lt]) simp
  have "(conc_step X B)\<^sup>*\<^sup>* ?c (?c\<lparr> scanning := Some (n, n, pr) \<rparr>)"
    by (rule Suc.hyps(1)) (use Suc.hyps(2) Suc.prems simulated_step[OF Suc.prems(1) st] lt in \<open>simp_all add: unmarked_def, linarith\<close>)
  with st show ?case by (simp add: converse_rtranclp_into_rtranclp)
qed

lemma idle_round:
  assumes s: "simulated v c" and q: "\<And>j. at c j = Idle" "scanning c = None" and ne: "clients (round_start X (sys c)) \<noteq> []"
    and u: "\<forall>cp \<in> set (clients (round_start X (sys c))). \<not> pending_launch cp"
  shows "(conc_step X B)\<^sup>*\<^sup>* c (c\<lparr> sys := idle_step (round_start X (sys c)), scanning := None \<rparr>)"
proof -
  let ?n = "length (clients (round_start X (sys c)))"
  let ?c1 = "c\<lparr> sys := round_start X (sys c), scanning := Some (?n, 0, False) \<rparr>"
  have st: "conc_step X B c ?c1" by (rule conc_step.starts[OF q(2) ne])
  have "(conc_step X B)\<^sup>*\<^sup>* ?c1 (?c1\<lparr> scanning := Some (?n, ?n, False) \<rparr>)"
    by (rule idle_visits[OF simulated_step[OF s st], where offs = 0]) (use q u in \<open>simp_all add: unmarked_def\<close>)
  moreover have "conc_step X B (?c1\<lparr> scanning := Some (?n, ?n, False) \<rparr>)
      (c\<lparr> sys := idle_step (round_start X (sys c)), scanning := None \<rparr>)"
    using conc_step.ends[of "?c1\<lparr> scanning := Some (?n, ?n, False) \<rparr>" ?n False X B] by simp
  ultimately show ?thesis using st by (meson converse_rtranclp_into_rtranclp rtranclp.rtrancl_into_rtrancl)
qed

end

section \<open>Three clients\<close>

text \<open>A trustee with three handles whose channels the worker has taken over. The first client sends a
  batch, the second launches a closure, the third calls with an argument.\<close>

type_synonym demo_conc_state = "(u64, ClientPair list, nat list, u64, u64) conc"

abbreviation demo_reachable_conc :: "demo_conc_state \<Rightarrow> bool" where
  "demo_reachable_conc \<equiv> conc_reachable (\<lambda>q. q) (\<lambda>p. p) demo_world demo_codec 5"

fun demo_op :: "nat \<Rightarrow> (u64, u64, u64) client_op" where
  "demo_op 0 = Op_apply_batch_mut inc_fn 5"
| "demo_op (Suc 0) = Op_launch u64_ret (add_fn 3)"
| "demo_op _ = Op_apply_with u64_ret add_with_fn 4"

definition demo_open :: "demo_conc_state" where
  "demo_open = (let c0 = conc_start 5 7 [] [];
       s1 = snd (entrust_handle demo_world 0x10000 True (sys c0));
       s2 = snd (entrust_handle demo_world 0x20000 True s1)
     in c0\<lparr> sys := snd (entrust_handle demo_world 0x30000 True s2) \<rparr>)"

definition demo_three :: "demo_conc_state" where
  "demo_three = demo_open\<lparr> sys := idle_step (round_start demo_world (sys demo_open)), scanning := None \<rparr>"

lemma demo_open_simps [simp]:
  "at demo_open j = Idle" "scanning demo_open = None" "n_chans (sys demo_open) = 3" "got demo_open j = []"
  "clients (sys demo_open) = []" "reg (sys demo_open) = [new_client_pair 0, new_client_pair 1, new_client_pair 2]"
  "start_idx (sys demo_open) = 0" "inside demo_open = {}" "overlapped demo_open \<longleftrightarrow> False"
  by (simp_all add: demo_open_def conc_start_def worker_start_def entrust_handle_def new_chan_def register_def
      demo_world_def list_push_def Let_def numeral_2_eq_2)

lemma conc_reachable_opens:
  "conc_reachable items pitems X B v c \<Longrightarrow> conc_reachable items pitems X B v (c\<lparr> sys := snd (entrust_handle X b own (sys c)) \<rparr>)"
  by (rule conc_reachable.step) (auto intro: conc_step.opens prod.collapse[symmetric])

lemma demo_open_reachable: "demo_reachable_conc demo_open"
proof -
  let ?c = "conc_start 5 7 [] [] :: demo_conc_state"
  have "demo_reachable_conc ?c" by (rule conc_reachable.start) simp_all
  note 1 = conc_reachable_opens[OF this, where b = "0x10000" and own = True]
  note 2 = conc_reachable_opens[OF 1, where b = "0x20000" and own = True]
  note 3 = conc_reachable_opens[OF 2, where b = "0x30000" and own = True]
  show ?thesis using 3 by (simp add: demo_open_def Let_def)
qed

lemma demo_three_clients:
  "clients (sys demo_three) = [new_client_pair 0, new_client_pair 1, new_client_pair 2]" "reg (sys demo_three) = []"
  "start_idx (sys demo_three) = 0" "n_chans (sys demo_three) = 3"
  using moved_simps(2)[OF demo_conc.round_start_facts(1)[of "sys demo_open"]]
  by (simp_all add: demo_three_def round_start_def poll_registrations_def demo_system.drain_items DRAIN_CHUNK_def idle_step_def)

lemma demo_three_reachable: "demo_reachable_conc demo_three"
proof -
  have "(conc_step demo_world demo_codec)\<^sup>*\<^sup>* demo_open demo_three"
    unfolding demo_three_def
    by (rule demo_conc.idle_round[OF demo_conc.reachable_simulated[OF demo_open_reachable]])
      (use demo_three_clients(1) in \<open>auto simp: demo_three_def new_client_pair_def\<close>)
  then show ?thesis using demo_open_reachable by (rule conc_reachable_steps)
qed

lemma result_ok_u64: "result_ok u64_ret (Some r)"
  using wf_ret_codes[OF u64_ret_wf(1)] by (simp add: result_ok_def)

lemma demo_sendable:
  "sendable demo_world demo_codec (demo_op k)"
  "sendable demo_world demo_codec (Op_apply u64_ret (add_fn m) :: (u64, u64, u64) client_op)"
proof -
  have l: "dec_word (le_bytes 8 w) = Some w" for w :: u64
    using u64_layout.dec_enc by simp
  show "sendable demo_world demo_codec (demo_op k)"
    using demo_fits demo_linked[of 3] l result_ok_u64
    by (cases k rule: demo_op.cases)
      (auto simp: demo_codec_def demo_world_def inc_fn_def add_with_fn_def call_fn_def call_fn_with_def add_with_body_def
        inc_body_def add_fn_def add_body_def)
  show "sendable demo_world demo_codec (Op_apply u64_ret (add_fn m) :: (u64, u64, u64) client_op)"
    using demo_linked[of m] result_ok_u64 by (simp add: call_fn_def add_fn_def add_body_def)
qed

text \<open>Posting in turn.\<close>

lemma demo_posts:
  assumes r: "demo_reachable_conc c" and j: "at c j = Idle" "j < n_chans (sys c)"
  obtains ch b where "demo_reachable_conc (c\<lparr> sys := put_chan j ch (sys c), at := (at c)(j := Published (demo_op j) b) \<rparr>)"
    "\<not> response_ready b ch"
proof -
  obtain ch b where p: "(conc_step demo_world demo_codec)\<^sup>*\<^sup>* c
      (c\<lparr> sys := put_chan j ch (sys c), at := (at c)(j := Published (demo_op j) b) \<rparr>)" "\<not> response_ready b ch"
    by (rule demo_conc.posts[OF demo_conc.reachable_simulated[OF r] j demo_sendable(1)])
  show ?thesis by (rule that[OF conc_reachable_steps[OF p(1) r] p(2)])
qed

lemma demo_trio:
  "\<exists>c. demo_reachable_conc c \<and> trio (\<lambda>q. q) 0 1 2 c \<and> (\<exists>b. at c 1 = Published (demo_op 1) b) \<and> (\<exists>b. at c 2 = Published (demo_op 2) b) \<and>
     got c 0 = [] \<and> got c 1 = [] \<and> got c 2 = [] \<and> inside c = {} \<and> \<not> overlapped c"
proof -
  let ?c = demo_three
  have at: "at ?c j = Idle" "got ?c j = []" "scanning ?c = None" "inside ?c = {}" "\<not> overlapped ?c" for j
    by (simp_all add: demo_three_def)
  obtain ch0 b0 where 0: "demo_reachable_conc
      (?c\<lparr> sys := put_chan 0 ch0 (sys ?c), at := (at ?c)(0 := Published (demo_op 0) b0) \<rparr>)" "\<not> response_ready b0 ch0"
    by (rule demo_posts[OF demo_three_reachable, of 0]) (use at demo_three_clients in simp_all)
  let ?c0 = "?c\<lparr> sys := put_chan 0 ch0 (sys ?c), at := (at ?c)(0 := Published (demo_op 0) b0) \<rparr>"
  obtain ch1 b1 where 1: "demo_reachable_conc
      (?c0\<lparr> sys := put_chan 1 ch1 (sys ?c0), at := (at ?c0)(1 := Published (demo_op 1) b1) \<rparr>)" "\<not> response_ready b1 ch1"
    by (rule demo_posts[OF 0(1), of 1]) (use at demo_three_clients in simp_all)
  let ?c1 = "?c0\<lparr> sys := put_chan 1 ch1 (sys ?c0), at := (at ?c0)(1 := Published (demo_op 1) b1) \<rparr>"
  obtain ch2 b2 where 2: "demo_reachable_conc
      (?c1\<lparr> sys := put_chan 2 ch2 (sys ?c1), at := (at ?c1)(2 := Published (demo_op 2) b2) \<rparr>)" "\<not> response_ready b2 ch2"
    by (rule demo_posts[OF 1(1), of 2]) (use at demo_three_clients in simp_all)
  show ?thesis
    by (rule exI, rule conjI[OF 2(1)])
      (use at demo_three_clients 0(2) 1(2) 2(2) in \<open>simp add: trio_def waiting_def calling_def new_client_pair_def numeral_2_eq_2\<close>)
qed

section \<open>Properties\<close>

lemma conc_systemI:
  "seg_queue items (reg_push X) (reg_pop X) \<Longrightarrow> seg_queue pitems (pool_push X) (pool_pop X) \<Longrightarrow> conc_system items X pitems"
  by (simp add: conc_system_def launch_queues_def worker_queue_def)

lemmas demo_queues = demo_queue demo_launch.pool.seg_queue_axioms

text \<open>C6. However the clients' writes, stores, polls and reads, the worker's rounds and visits and the
  launched closures interleave, on the bytes of the slots, and whichever of apply, apply_with,
  apply_batch_mut, with and launch each client calls: as long as no closure has been run on the property
  while a launched one was in the middle of its run, there is an order of the operations executed such
  that running the closures one after the other in that order gives the property and every result,
  and each client has been returned exactly the results of its own operations in the order it issued
  them, all but at most the one it is waiting for. Whatever happens next only adds to the end of this
  order, so it respects real time: an operation that has returned comes before every operation that
  is called afterwards. And closures only overlap when some client has called launch, so clients that
  never do are always linearizable.\<close>

theorem concurrent_linearizable:
  assumes "seg_queue items (reg_push X) (reg_pop X)" "seg_queue pitems (pool_push X) (pool_pop X)"
    and "conc_reachable items pitems X B v c" "(conc_step X B)\<^sup>*\<^sup>* c c'"
  shows "(\<not> overlapped c' \<longrightarrow> (\<exists>log es. logged v log c \<and> logged v (log @ es) c')) \<and>
    (overlapped c' \<longrightarrow> launch_issued c')"
proof -
  note sy = conc_systemI[OF assms(1,2)]
  have "\<exists>log es. logged v log c \<and> logged v (log @ es) c'" if "\<not> overlapped c'"
    by (rule conc_system.run_logs[OF sy assms(3,4) that]) blast
  then show ?thesis using conc_system.reachable_entered[OF sy conc_reachable_steps[OF assms(4,3)]] by blast
qed

text \<open>Three clients wait in the first state, one of them for a launch; the outer two have been answered
  in the second.\<close>

theorem concurrent_linearizable_witness:
  "\<exists>c c' log es. demo_reachable_conc c \<and> (conc_step demo_world demo_codec)\<^sup>*\<^sup>* c c' \<and> logged 5 log c \<and>
     logged 5 (log @ es) c' \<and> \<not> overlapped c' \<and> length (got c' 0) = 1 \<and> length (got c' 2) = 1"
proof -
  obtain c where c: "demo_reachable_conc c" "trio (\<lambda>q. q) 0 1 2 c" "got c 0 = []" "got c 2 = []" "inside c = {}" "\<not> overlapped c"
    using demo_trio by blast
  obtain c' where st: "(conc_step demo_world demo_codec)\<^sup>*\<^sup>* c c'"
    and g: "length (got c' 0) = Suc (length (got c 0))" "length (got c' 2) = Suc (length (got c 2))"
    and o: "overlapped c' \<longleftrightarrow> overlapped c \<or> inside c \<noteq> {}"
    by (rule demo_conc.trio_again[OF demo_conc.reachable_simulated[OF c(1)] c(2) demo_sendable(2)[of 1] demo_sendable(2)[of 2]]) simp_all
  have n: "\<not> overlapped c'" "length (got c' 0) = 1" "length (got c' 2) = 1" using g o c(3-6) by simp_all
  with concurrent_linearizable[OF demo_queues c(1) st] c(1) st show ?thesis by blast
qed

text \<open>C9. The state keeps its shape in every interleaving: the slots of every channel keep their
  1152 bytes each, the worker's start index and idle counter stay in range, the clients the worker
  serves and those still queued are exactly the channels opened, each once, and every pooled fiber is
  alive and idle.\<close>

theorem concurrent_well_formed:
  assumes "seg_queue items (reg_push X) (reg_pop X)" "seg_queue pitems (pool_push X) (pool_pop X)"
    and "conc_reachable items pitems X B v c"
  shows "wf_chan (chans (sys c) j) \<and> wf_loop (sys c) \<and>
    distinct (registered items (sys c)) \<and> set (registered items (sys c)) = {..<n_chans (sys c)} \<and>
    pool_inv pitems (sys c)"
proof -
  note sy = conc_systemI[OF assms(1,2)]
  show ?thesis using conc_system.reachable_simulated[OF sy assms(3)]
    by (auto simp: conc_system.simulated_def[OF sy] conc_wf_def sim_def chan_bytes_def)
qed

theorem concurrent_well_formed_witness:
  "wf_chan (chans (sys demo_three) 2) \<and> wf_loop (sys demo_three) \<and>
   set (registered (\<lambda>q. q) (sys demo_three)) = {..<3} \<and> length (clients (sys demo_three)) = 3"
  using concurrent_well_formed[OF demo_queues demo_three_reachable, of 2] by (simp add: demo_three_clients)



text \<open>C12. The scan starves clients: with three clients waiting at the start of a round, the two outer
  ones for calls the worker runs itself, those can be answered and post again any number of times,
  one round each, while the one between them is not looked at - its request still posted, no result
  returned to it.\<close>

theorem middle_client_starves:
  fixes c :: "('t, 'q, 'p, 'v, 'r) conc" and g0 g2 :: "('t, 'v, 'r) client_op"
  assumes "seg_queue items (reg_push X) (reg_pop X)" "seg_queue pitems (pool_push X) (pool_pop X)"
    and "conc_reachable items pitems X B v c" "trio items j0 j1 j2 c"
    and "sendable X B g0" "sendable X B g2" "op_tag g0 \<noteq> Launch" "op_tag g2 \<noteq> Launch"
  shows "\<exists>c'. (conc_step X B)\<^sup>*\<^sup>* c c' \<and> loop_counter (sys c') = loop_counter (sys c) + of_nat k \<and>
    length (got c' j0) = length (got c j0) + k \<and> length (got c' j2) = length (got c j2) + k \<and>
    got c' j1 = got c j1 \<and> waiting c' j1 \<and> chans (sys c') j1 = chans (sys c) j1"
proof -
  note sy = conc_systemI[OF assms(1,2)]
  from conc_system.trio_forever[OF sy conc_system.reachable_simulated[OF sy assms(3)] assms(4-8), of k]
  show ?thesis by (auto simp: trio_def)
qed

theorem middle_client_starves_witness:
  "\<exists>c c'. demo_reachable_conc c \<and> (conc_step demo_world demo_codec)\<^sup>*\<^sup>* c c' \<and>
     length (got c' 0) = 1000 \<and> got c' 1 = [] \<and> waiting c' 1"
proof -
  obtain c where c: "demo_reachable_conc c" "trio (\<lambda>q. q) 0 1 2 c" "got c 0 = []" "got c 1 = []"
    using demo_trio by blast
  from middle_client_starves[OF demo_queues c(1,2) demo_sendable(2)[of 1] demo_sendable(2)[of 2], of 1000] c(3,4)
  show ?thesis using c(1) by auto
qed

end
