(* ===== verification/Concurrent_Progress.thy ===== *)
theory Concurrent_Progress
  imports Concurrent_Runs
begin

text \<open>
  Progress of the concurrent system: what the worker does by itself, round after round, while the
  clients only wait and no fiber moves. Every round serves a client whose request is pending - answers
  it, or hands its launch to a fiber - or brings a registration closer, so every request is served
  within a number of rounds that depends on the number of channels only. How long a launched closure
  then takes is up to the closure.
\<close>

section \<open>What a round keeps\<close>

text \<open>Rounds of the worker.\<close>

fun worker_rounds :: "('t, 'q, 'p) world \<Rightarrow> nat \<Rightarrow> ('t, 'q, 'p) rt \<Rightarrow> ('t, 'q, 'p) rt flow" where
  "worker_rounds X 0 s = Next s"
| "worker_rounds X (Suc k) s =
     (case worker_round X s of
        Next s' \<Rightarrow> worker_rounds X k s'
      | Halt s' \<Rightarrow> Halt s'
      | Undefined u \<Rightarrow> Undefined u
      | Diverge \<Rightarrow> Diverge)"

text \<open>The requests the worker has still to serve.\<close>

definition unserved :: "('t, 'q, 'p, 'v, 'r) conc \<Rightarrow> nat set" where
  "unserved c = {j. pending c j}"

lemma kept_answers: "kept c s' \<Longrightarrow> answers_kept c s'"
  by (simp add: kept_def)

lemma answers_kept_trans:
  "answers_kept c s1 \<Longrightarrow> answers_kept (c\<lparr> sys := s1, scanning := k \<rparr>) s2 \<Longrightarrow> answers_kept c s2"
  by (simp add: answers_kept_def)

lemma answers_kept_refl [simp]: "answers_kept c (sys c)"
  by (simp add: answers_kept_def)

lemma kept_refl [simp]: "kept c (sys c)"
  by (simp add: kept_def)

lemma kept_trans: "kept c s1 \<Longrightarrow> kept (c\<lparr> sys := s1, scanning := k \<rparr>) s2 \<Longrightarrow> kept c s2"
  by (simp add: kept_def answers_kept_def)

lemma answers_kept_moved: "chans s' = chans (sys c) \<Longrightarrow> fibers s' = fibers (sys c) \<Longrightarrow> answers_kept c s'"
  by (simp add: answers_kept_def has_job_def)

text \<open>A request served stays served. Where the worker is in its scan does not matter here.\<close>

lemma pending_scanning [simp]:
  "pending (c\<lparr> sys := s', scanning := k \<rparr>) j = pending (c\<lparr> sys := s' \<rparr>) j"
  "pending (c\<lparr> scanning := k, sys := s' \<rparr>) j = pending (c\<lparr> sys := s' \<rparr>) j"
  by (simp_all add: pending_def waiting_def)

lemma pending_before:
  assumes "answers_kept c s'" "pending (c\<lparr> sys := s' \<rparr>) j"
  shows "pending c j"
proof -
  have "no_job (sys c) j" using assms unfolding pending_def answers_kept_def no_job_def by (auto, metis)
  moreover have "waiting c j" using assms unfolding pending_def waiting_def answers_kept_def by auto
  ultimately show ?thesis by (simp add: pending_def)
qed

lemma serves_later:
  assumes "serves c s1" "answers_kept (c\<lparr> sys := s1, scanning := k \<rparr>) s2"
  shows "serves c s2"
proof -
  obtain j where j: "pending c j" "\<not> pending (c\<lparr> sys := s1 \<rparr>) j" using assms(1) by (auto simp: serves_def)
  have "\<not> pending (c\<lparr> sys := s2 \<rparr>) j" using pending_before[OF assms(2), of j] j(2) by auto
  with j(1) show ?thesis by (auto simp: serves_def)
qed

lemma serves_earlier:
  assumes "answers_kept c s1" "serves (c\<lparr> sys := s1, scanning := k \<rparr>) s2"
  shows "serves c s2"
proof -
  obtain j where j: "pending (c\<lparr> sys := s1 \<rparr>) j" "\<not> pending (c\<lparr> sys := s2 \<rparr>) j"
    using assms(2) by (auto simp: serves_def)
  then show ?thesis using pending_before[OF assms(1) j(1)] by (auto simp: serves_def)
qed

lemma serves_moved: "chans s1 = chans s2 \<Longrightarrow> fibers s1 = fibers s2 \<Longrightarrow> serves c s1 = serves c s2"
  by (simp add: serves_def pending_def waiting_def no_job_def has_job_def)

lemma unserved_subset: "answers_kept c s' \<Longrightarrow> unserved (c\<lparr> sys := s', scanning := k \<rparr>) \<subseteq> unserved c"
  using pending_before by (auto simp: unserved_def)

lemma unserved_psubset:
  assumes "answers_kept c s'" "serves c s'"
  shows "unserved (c\<lparr> sys := s', scanning := k \<rparr>) \<subset> unserved c"
proof -
  obtain j where "pending c j" "\<not> pending (c\<lparr> sys := s' \<rparr>) j" using assms(2) by (auto simp: serves_def)
  then have "j \<in> unserved c" "j \<notin> unserved (c\<lparr> sys := s', scanning := k \<rparr>)"
    by (simp_all add: unserved_def pending_scanning)
  then show ?thesis using unserved_subset[OF assms(1), of k] by blast
qed

context conc_system
begin

lemma unserved_finite:
  assumes "simulated v c"
  shows "finite (unserved c)" "card (unserved c) \<le> n_chans (sys c)"
proof -
  obtain p where "sim X B c p" using assms by (auto simp: simulated_def)
  then have s: "unserved c \<subseteq> {..<n_chans (sys c)}"
    using sim_open[of X B c p] by (force simp: unserved_def pending_def waiting_def)
  then show "finite (unserved c)" by (rule finite_subset) simp
  show "card (unserved c) \<le> n_chans (sys c)" using card_mono[OF _ s] by simp
qed

section \<open>The scan\<close>

text \<open>A scan ends; when it meets a client to serve, it serves one.\<close>

lemma scan_progress:
  assumes "simulated v c" "scanning c = Some (n, offs, pr)" "offs \<le> n"
  shows "\<exists>s' pr'. scan X n [offs..<n] pr (sys c) = Next (s', pr') \<and>
    simulated v (c\<lparr> sys := s', scanning := Some (n, n, pr') \<rparr>) \<and> kept c s' \<and>
    ((\<exists>k. offs \<le> k \<and> k < n \<and> servable (sys c) (scan_index n (start_idx (sys c)) k)) \<longrightarrow> serves c s')"
  using assms
proof (induction "n - offs" arbitrary: offs pr c)
  case 0
  then have n: "offs = n" by simp
  have "c\<lparr> scanning := Some (n, n, pr) \<rparr> = c" using 0(3) n by (cases c) simp
  then have "simulated v (c\<lparr> sys := sys c, scanning := Some (n, n, pr) \<rparr>)" using 0(2) by simp
  then show ?case using n by (intro exI[of _ "sys c"] exI[of _ pr]) auto
next
  case (Suc m)
  then have lt: "offs < n" by simp
  let ?i = "scan_index n (start_idx (sys c)) offs"
  obtain s1 b where v: "visit X n ?i (sys c) = Next (s1, b)"
    and s1: "simulated v (c\<lparr> sys := s1, scanning := Some (n, Suc offs, pr \<or> b) \<rparr>)" and sv: "b \<longleftrightarrow> servable (sys c) ?i"
    and sk: "\<not> b \<Longrightarrow> s1 = skip_client ?i (sys c)" and kp: "kept c s1" and an: "b \<Longrightarrow> serves c s1"
    by (rule simulated_visit[OF Suc.prems(1,2) lt]) blast
  let ?c = "c\<lparr> sys := s1, scanning := Some (n, Suc offs, pr \<or> b) \<rparr>"
  have m: "m = n - Suc offs" using Suc.hyps(2) by linarith
  obtain s' pr' where r: "scan X n [Suc offs..<n] (pr \<or> b) s1 = Next (s', pr')"
    "simulated v (c\<lparr> sys := s', scanning := Some (n, n, pr') \<rparr>)" and kp': "kept ?c s'"
    and an': "(\<exists>k. Suc offs \<le> k \<and> k < n \<and> servable s1 (scan_index n (start_idx s1) k)) \<longrightarrow> serves ?c s'"
    using Suc.hyps(1)[OF m s1] lt by auto
  have "scan X n [offs..<n] pr (sys c) = Next (s', pr')" using v r(1) lt by (simp add: upt_conv_Cons)
  moreover have "serves c s'" if k: "offs \<le> k" "k < n" "servable (sys c) (scan_index n (start_idx (sys c)) k)" for k
  proof (cases b)
    case True
    then show ?thesis using serves_later[OF an kept_answers[OF kp']] by simp
  next
    case False
    then have "k \<noteq> offs" using k(3) sv by auto
    then have "Suc offs \<le> k" using k(1) by simp
    moreover have "servable s1 (scan_index n (start_idx s1) k)" using sk[OF False] k(3) skip_clients_simps(5)[of "[?i]"]
      by (simp add: skip_clients_def)
    ultimately have "serves ?c s'" using an' k(2) by blast
    then show ?thesis by (rule serves_earlier[OF kept_answers[OF kp]])
  qed
  ultimately show ?case using r(2) kept_trans[OF kp kp'] by blast
qed

section \<open>A round\<close>

text \<open>A pending request can be served: a marked client that waits has its job in an inbox.\<close>

lemma pending_servable:
  assumes s: "simulated v c" and w: "pending c j" and i: "i < length (clients (sys c))" "cp_chan (clients (sys c) ! i) = j"
  shows "servable (sys c) i"
proof -
  obtain p where wf: "conc_wf items pitems B c" and p: "follows v (overlapped c) p" "sim X B c p" using s by (rule simulatedE)
  obtain x b where x: "at c j = Published x b" "\<not> response_ready b (chans (sys c) j)" and nj: "no_job (sys c) j"
    using w by (auto simp: pending_def waiting_def)
  have f: "ready (load_flags (request (chans (sys c) j))) = b" by (rule published_flags(1)[OF p x(1)])
  have "mark_ok (sys c) (clients (sys c) ! i)" by (rule conc_wfD(7)[OF wf]) (use i in simp)
  then show ?thesis using x(2) f i(2) nj
    by (auto simp: mark_ok_def servable_def Let_def idle_chan_def response_ready_def no_job_def)
qed

text \<open>A round of the worker: answers and jobs are kept, and if a pending request is among those scanned,
  one is served.\<close>

lemma round_progress:
  assumes s: "simulated v c" and n: "scanning c = None"
  obtains s' where "worker_round X (sys c) = Next s'" "simulated v (c\<lparr> sys := s', scanning := None \<rparr>)"
    "answers_kept c s'" "n_chans s' = n_chans (sys c)"
    "map cp_chan (clients s') = map cp_chan (clients (polled (sys c)))" "distance items s' = distance items (polled (sys c))"
    "\<And>j. pending c j \<Longrightarrow> j \<in> set (map cp_chan (clients (polled (sys c)))) \<Longrightarrow> serves c s'"
proof -
  let ?p = "polled (sys c)" let ?n = "length (clients (polled (sys c)))"
  have rs: "round_start X (sys c) = ?p" by (simp add: round_start_def polled_def)
  have m: "moved (sys c) ?p" using round_start_facts(1)[of "sys c"] by (simp add: rs)
  note pm = moved_simps[OF m]
  show ?thesis
  proof (cases "clients ?p = []")
    case True
    have "simulated v (c\<lparr> sys := idle_step ?p \<rparr>)" using simulated_idles[OF s n] True by (simp add: rs)
    moreover have "c\<lparr> sys := idle_step ?p, scanning := None \<rparr> = c\<lparr> sys := idle_step ?p \<rparr>" using n by (cases c) simp
    ultimately have "simulated v (c\<lparr> sys := idle_step ?p, scanning := None \<rparr>)" by simp
    moreover have "worker_round X (sys c) = Next (idle_step ?p)"
      using True by (simp add: worker_round_def polled_def[symmetric] Let_def)
    moreover have "answers_kept c (idle_step ?p)" by (rule answers_kept_moved) (use pm in \<open>simp_all add: idle_step_def\<close>)
    ultimately show ?thesis using True pm(2) moved_simps(2)[OF moved_idle_step, of ?p]
      by (intro that[of "idle_step ?p"]) simp_all
  next
    case False
    let ?c = "c\<lparr> sys := ?p, scanning := Some (?n, 0, False) \<rparr>"
    have sc: "simulated v ?c" using simulated_starts[OF s] False by (simp add: rs)
    obtain s1 pr where r: "scan X ?n [0..<?n] False ?p = Next (s1, pr)"
      and s1: "simulated v (?c\<lparr> sys := s1, scanning := Some (?n, ?n, pr) \<rparr>)" and kp: "kept ?c s1"
      and an: "(\<exists>k. k < ?n \<and> servable ?p (scan_index ?n (start_idx ?p) k)) \<longrightarrow> serves ?c s1"
      using scan_progress[OF sc, of ?n 0 False] by auto
    let ?s = "if pr then s1\<lparr> idle_rounds := 0 \<rparr> else idle_step s1"
    have wr: "worker_round X (sys c) = Next ?s"
      using r False by (simp add: worker_round_def polled_def[symmetric] Let_def)
    have se: "simulated v (c\<lparr> sys := ?s, scanning := None \<rparr>)" using simulated_ends[OF s1, of pr] by (cases pr) simp_all
    have eq: "chans ?s = chans s1" "n_chans ?s = n_chans s1" "clients ?s = clients s1" "reg ?s = reg s1"
      "loop_counter ?s = loop_counter s1" "fibers ?s = fibers s1" by (simp_all add: idle_step_def)
    have ac: "answers_kept c ?p" by (rule answers_kept_moved) (use pm in simp_all)
    have "answers_kept ?c ?s" using kept_answers[OF kp] unfolding answers_kept_def has_job_def eq .
    then have ak: "answers_kept c ?s" by (rule answers_kept_trans[OF ac])
    have ks: "n_chans s1 = n_chans (sys c)" "map cp_chan (clients s1) = map cp_chan (clients ?p)" "reg s1 = reg ?p"
      "loop_counter s1 = loop_counter ?p" using kp pm(2) by (simp_all add: kept_def)
    have ds: "distance items ?s = distance items ?p" unfolding distance_def eq ks(3,4) by (rule refl)
    have sv: "serves c ?s" if j: "pending c j" "j \<in> set (map cp_chan (clients ?p))" for j
    proof -
      obtain i where i: "i < ?n" "cp_chan (clients ?p ! i) = j" using j(2) by (metis in_set_conv_nth length_map nth_map)
      have wf': "wf_loop ?p" using conc_wfD(1)[of items pitems B ?c] sc by (simp add: simulated_def)
      have "pending ?c j" using j(1) pm by (simp add: pending_def waiting_def no_job_def has_job_def)
      then have "servable ?p i" using pending_servable[OF sc, of j i] i by simp
      moreover have "start_idx ?p < ?n" using wf' False by (simp add: wf_loop_def)
      ultimately have "serves ?c s1" using an scan_index_surj[of "start_idx ?p" ?n i] i(1) by metis
      then have "serves c s1" by (rule serves_earlier[OF ac])
      then show ?thesis unfolding serves_moved[OF eq(1,6)] .
    qed
    show ?thesis by (rule that[OF wr se ak _ _ ds sv]) (unfold eq, rule ks, rule ks)
  qed
qed

text \<open>Every waiting client's request is served: it is answered, or a fiber has its launch.\<close>

lemma waits_at_most:
  assumes "simulated v c" "scanning c = None" "at c j = Published x b"
  shows "\<exists>k s' ov. k \<le> card (unserved c) + (if j \<in> set (map cp_chan (clients (sys c))) then 0 else distance items (sys c)) \<and>
    worker_rounds X k (sys c) = Next s' \<and> \<not> pending (c\<lparr> sys := s' \<rparr>) j \<and>
    (conc_step X B)\<^sup>*\<^sup>* c (c\<lparr> sys := s', overlapped := ov \<rparr>) \<and> (ov \<longrightarrow> overlapped c \<or> inside c \<noteq> {}) \<and>
    n_chans s' = n_chans (sys c)"
  using assms
proof (induction "card (unserved c) + (if j \<in> set (map cp_chan (clients (sys c))) then 0 else distance items (sys c))"
    arbitrary: c rule: less_induct)
  case less
  show ?case
  proof (cases "pending c j")
    case False
    have "c\<lparr> sys := sys c, overlapped := overlapped c \<rparr> = c" by (cases c) simp
    then show ?thesis using False by (intro exI[of _ 0] exI[of _ "sys c"] exI[of _ "overlapped c"]) simp
  next
    case w: True
    let ?m = "\<lambda>c. card (unserved c) + (if j \<in> set (map cp_chan (clients (sys c))) then 0 else distance items (sys c))"
    obtain s' where s': "worker_round X (sys c) = Next s'" "simulated v (c\<lparr> sys := s', scanning := None \<rparr>)" "answers_kept c s'"
      and nc: "n_chans s' = n_chans (sys c)" and t:
      "map cp_chan (clients s') = map cp_chan (clients (polled (sys c)))" "distance items s' = distance items (polled (sys c))"
      "j \<in> set (map cp_chan (clients (polled (sys c)))) \<Longrightarrow> serves c s'"
      using round_progress[OF less.prems(1,2)] w by metis
    obtain o1 where st: "(conc_step X B)\<^sup>*\<^sup>* c (c\<lparr> sys := s', overlapped := o1 \<rparr>)" "o1 \<longrightarrow> overlapped c \<or> inside c \<noteq> {}"
      using round_is_run[OF s'(1) less.prems(2)] by blast
    let ?c = "c\<lparr> sys := s', overlapped := o1 \<rparr>" and ?d = "c\<lparr> sys := s', scanning := None \<rparr>"
    have fin: "finite (unserved c)" by (rule unserved_finite(1)[OF less.prems(1)])
    have un: "unserved ?c = unserved ?d" by (simp add: unserved_def pending_def waiting_def)
    have "?m ?c < ?m c"
    proof (cases "j \<in> set (map cp_chan (clients (polled (sys c))))")
      case True
      have "card (unserved ?d) < card (unserved c)"
        by (rule psubset_card_mono[OF fin unserved_psubset[OF s'(3) t(3)[OF True]]])
      then show ?thesis using True t(1) un by simp
    next
      case False
      obtain p where wf: "conc_wf items pitems B c" and p: "sim X B c p" using less.prems(1) by (rule simulatedE)
      have "j < n_chans (sys c)" using sim_open[OF p, of j] less.prems(3) by simp
      then have reg: "j \<in> set (registered items (sys c))" using conc_wfD(8)[OF wf] by simp
      have "set (clients (sys c)) \<subseteq> set (clients (polled (sys c)))"
        by (auto simp: polled_def poll_registrations_def drain_items)
      then have "j \<notin> set (map cp_chan (clients (sys c)))" using False by auto
      moreover have "card (unserved ?d) \<le> card (unserved c)" by (rule card_mono[OF fin unserved_subset[OF s'(3)]])
      moreover have "distance items s' < distance items (sys c)" using polled_distance(1)[OF reg False] t(2) by simp
      ultimately show ?thesis using False t(1) un by simp
    qed
    from less.hyps[OF this simulated_steps[OF st(1) less.prems(1)]] less.prems(2,3)
    obtain k s2 o2 where k: "k \<le> ?m ?c" "worker_rounds X k s' = Next s2" "\<not> pending (c\<lparr> sys := s2 \<rparr>) j"
      "(conc_step X B)\<^sup>*\<^sup>* ?c (c\<lparr> sys := s2, overlapped := o2 \<rparr>)" "o2 \<longrightarrow> o1 \<or> inside c \<noteq> {}" "n_chans s2 = n_chans s'"
      by (auto simp: pending_def waiting_def)
    have "worker_rounds X (Suc k) (sys c) = Next s2" using s'(1) k(2) by simp
    moreover have "(conc_step X B)\<^sup>*\<^sup>* c (c\<lparr> sys := s2, overlapped := o2 \<rparr>)" using st(1) k(4) by (rule rtranclp_trans)
    ultimately show ?thesis using k(1,3,5,6) st(2) nc \<open>?m ?c < ?m c\<close>
      by (intro exI[of _ "Suc k"] exI[of _ s2] exI[of _ o2]) auto
  qed
qed

text \<open>An answer that is there can be read.\<close>

lemma ready_reads:
  assumes s: "simulated v c" and x: "at c j = Published x b" "response_ready b (chans (sys c) j)"
  shows "\<exists>a. op_read x (chans (sys c) j) = Ok a"
  using simulated_safe(2)[OF simulated_polls[OF s x], of j x] by simp

text \<open>A request that is no longer pending: an answer, or a job whose end is one.\<close>

lemma served_request:
  assumes s: "simulated v c" and x: "at c j = Published x b" and n: "\<not> pending c j"
  shows "response_ready b (chans (sys c) j) \<and> (\<exists>a. op_read x (chans (sys c) j) = Ok a) \<or>
    op_tag x = Launch \<and> (\<exists>g job s' a. has_job (sys c) g job \<and> job_chan job = j \<and> fiber_turn X g (sys c) = Inr s' \<and>
      response_ready b (chans s' j) \<and> op_read x (chans s' j) = Ok a)"
proof (cases "response_ready b (chans (sys c) j)")
  case True
  then show ?thesis using ready_reads[OF s x] by blast
next
  case False
  then have "\<not> no_job (sys c) j" using n x by (auto simp: pending_def waiting_def)
  then obtain g job where g: "has_job (sys c) g job" "job_chan job = j" by (auto simp: no_job_def)
  obtain p where wf: "conc_wf items pitems B c" using s by (rule simulatedE)
  have "job_ok items B c job" by (rule jobs_okD[OF conc_wfD(6)[OF wf] g(1)])
  then have l: "job_req_ready job = b" "op_tag x = Launch" using g(2) x by (auto elim!: job_okD)
  have ne: "inbox (fibers (sys c) g) \<noteq> []" using g(1) by (auto simp: has_job_def)
  then obtain m ms where ib: "inbox (fibers (sys c) g) = m # ms" by (cases "inbox (fibers (sys c) g)") auto
  have ft: "fiber_tokens pitems (sys c)" using conc_wfD(3)[OF wf] by (simp add: pool_inv_def)
  obtain job' x' t ch where f: "m = Execute job'" "fiber_turn X g (sys c) = Inr (launch_end X g (job_chan job') t ch (sys c))"
    "response_ready (job_req_ready job') ch" "simulated v (c\<lparr> sys := launch_end X g (job_chan job') t ch (sys c) \<rparr>)"
    by (rule fiber_runs[OF s ib])
  have "ms = []" using live_inbox(2)[OF ft ib] by simp
  then have "job' = job" using g(1) ib f(1) by (simp add: has_job_def)
  then have f': "fiber_turn X g (sys c) = Inr (launch_end X g j t ch (sys c))" "response_ready b ch"
    "simulated v (c\<lparr> sys := launch_end X g j t ch (sys c) \<rparr>)" using f g(2) l(1) by simp_all
  obtain a where "op_read x (chans (launch_end X g j t ch (sys c)) j) = Ok a"
    using ready_reads[OF f'(3), of j x b] x f'(2) by auto
  then show ?thesis using g f'(1,2) l(2) by (intro disjI2 conjI exI[of _ g] exI[of _ job] exI) auto
qed

text \<open>A call the worker runs itself, from an idle client to its end; no launched closure is under way.\<close>

lemma completes:
  assumes s: "simulated v c" and n: "scanning c = None" "inside c = {}" "\<not> overlapped c"
    and j: "at c j = Idle" "j < n_chans (sys c)" and x: "sendable X B x" "op_tag x \<noteq> Launch"
  obtains c' a where "(conc_step X B)\<^sup>*\<^sup>* c c'" "simulated v c'" "scanning c' = None" "inside c' = {}" "\<not> overlapped c'"
    "at c' = at c" "got c' = (got c)(j := got c j @ [(x, a)])" "n_chans (sys c') = n_chans (sys c)"
proof -
  obtain ch b where p: "(conc_step X B)\<^sup>*\<^sup>* c (c\<lparr> sys := put_chan j ch (sys c), at := (at c)(j := Published x b) \<rparr>)"
    by (rule posts[OF s j x(1)])
  let ?c1 = "c\<lparr> sys := put_chan j ch (sys c), at := (at c)(j := Published x b) \<rparr>"
  have s1: "simulated v ?c1" by (rule simulated_steps[OF p s])
  obtain s' ov where st: "(conc_step X B)\<^sup>*\<^sup>* ?c1 (?c1\<lparr> sys := s', overlapped := ov \<rparr>)" and ov: "\<not> ov"
    and np: "\<not> pending (?c1\<lparr> sys := s' \<rparr>) j" and nc: "n_chans s' = n_chans (sys c)"
    using waits_at_most[OF s1, of j x b] n by auto
  let ?c2 = "?c1\<lparr> sys := s', overlapped := ov \<rparr>"
  have s2: "simulated v ?c2" by (rule simulated_steps[OF st s1])
  have "\<not> pending ?c2 j" using np by (simp add: pending_def waiting_def)
  then have r: "response_ready b (chans s' j)" using served_request[OF s2, of j x b] x(2) by auto
  let ?c3 = "?c2\<lparr> at := (at ?c2)(j := Answered x) \<rparr>"
  have st3: "conc_step X B ?c2 ?c3" by (rule conc_step.polls) (use r in simp_all)
  have s3: "simulated v ?c3" by (rule simulated_step[OF s2 st3])
  obtain a where a: "op_read x (chans (sys ?c3) j) = Ok a" using simulated_safe(2)[OF s3, of j x] by auto
  let ?c4 = "?c3\<lparr> at := (at ?c3)(j := Idle), got := (got ?c3)(j := got ?c3 j @ [(x, a)]) \<rparr>"
  have st4: "conc_step X B ?c3 ?c4" by (rule conc_step.reads[OF _ a]) simp
  have run: "(conc_step X B)\<^sup>*\<^sup>* c ?c4" using p st st3 st4 by (meson rtranclp.rtrancl_into_rtrancl rtranclp_trans)
  show ?thesis
    by (rule that[OF run simulated_steps[OF run s]]) (use n ov nc j in \<open>simp_all add: fun_upd_idem\<close>)
qed

text \<open>The bound in terms of the channels opened, and the answer can be read.\<close>

lemma request_answered:
  assumes s: "simulated v c" and n: "scanning c = None" and x: "at c j = Published x b"
  shows "\<exists>k s' ov. k \<le> 17 * n_chans (sys c) + 16 \<and> worker_rounds X k (sys c) = Next s' \<and>
    (conc_step X B)\<^sup>*\<^sup>* c (c\<lparr> sys := s', overlapped := ov \<rparr>) \<and> (ov \<longrightarrow> overlapped c \<or> inside c \<noteq> {}) \<and>
    (response_ready b (chans s' j) \<and> (\<exists>a. op_read x (chans s' j) = Ok a) \<or>
     op_tag x = Launch \<and> (\<exists>g job s2 a. has_job s' g job \<and> job_chan job = j \<and> fiber_turn X g s' = Inr s2 \<and>
       response_ready b (chans s2 j) \<and> op_read x (chans s2 j) = Ok a))"
proof -
  obtain k s' ov where k: "k \<le> card (unserved c) + (if j \<in> set (map cp_chan (clients (sys c))) then 0 else distance items (sys c))"
    "worker_rounds X k (sys c) = Next s'" "\<not> pending (c\<lparr> sys := s' \<rparr>) j"
    "(conc_step X B)\<^sup>*\<^sup>* c (c\<lparr> sys := s', overlapped := ov \<rparr>)" "ov \<longrightarrow> overlapped c \<or> inside c \<noteq> {}"
    using waits_at_most[OF s n x] by blast
  let ?c = "c\<lparr> sys := s', overlapped := ov \<rparr>"
  have wf: "conc_wf items pitems B c" using s by (simp add: simulated_def)
  have "length (registered items (sys c)) = n_chans (sys c)"
    using distinct_card[OF conc_wfD(4)[OF wf]] conc_wfD(8)[OF wf] by simp
  then have "distance items (sys c) \<le> 16 * n_chans (sys c) + 16" using distance_registered[of items "sys c"] by simp
  then have "k \<le> 17 * n_chans (sys c) + 16" using k(1) unserved_finite(2)[OF s] by (simp split: if_splits)
  moreover have "\<not> pending ?c j" using k(3) by (simp add: pending_def waiting_def)
  note served_request[OF simulated_steps[OF k(4) s] _ this, of x b]
  ultimately show ?thesis using k(2,4,5) x by (intro exI[of _ k] exI[of _ s'] exI[of _ ov]) simp
qed

end

section \<open>Properties\<close>

text \<open>C7. Every posted request is served: when the clients only wait and no fiber moves, the worker by
  itself reaches, within 17 rounds of its loop for every channel opened and 16 more, a state in which a
  given client's response is ready and can be read - or, if the client's operation is a launch, in which
  a fiber has its job, so that the answer is there and can be read when that fiber's turn ends, however
  long the closure takes. This holds from every reachable state between two rounds and whatever
  else is waiting. If no closures have overlapped and no launched one is in the middle of its run at the
  start, none overlap on the way; otherwise the calls served may race with it.\<close>

theorem posted_request_answered:
  assumes "seg_queue items (reg_push X) (reg_pop X)" "seg_queue pitems (pool_push X) (pool_pop X)"
    and "conc_reachable items pitems X B v c" "scanning c = None" "at c j = Published x b"
  shows "\<exists>k s' ov. k \<le> 17 * n_chans (sys c) + 16 \<and> worker_rounds X k (sys c) = Next s' \<and>
    (conc_step X B)\<^sup>*\<^sup>* c (c\<lparr> sys := s', overlapped := ov \<rparr>) \<and> (ov \<longrightarrow> overlapped c \<or> inside c \<noteq> {}) \<and>
    (response_ready b (chans s' j) \<and> (\<exists>a. op_read x (chans s' j) = Ok a) \<or>
     op_tag x = Launch \<and> (\<exists>g job s2 a. has_job s' g job \<and> job_chan job = j \<and> fiber_turn X g s' = Inr s2 \<and>
       response_ready b (chans s2 j) \<and> op_read x (chans s2 j) = Ok a))"
proof -
  note sy = conc_systemI[OF assms(1,2)]
  show ?thesis by (rule conc_system.request_answered[OF sy conc_system.reachable_simulated[OF sy assms(3)] assms(4,5)])
qed

text \<open>Three clients, the second of which has launched a closure and the third of which calls.\<close>

theorem posted_request_answered_witness:
  "\<exists>c b k s' a. demo_reachable_conc c \<and> at c 2 = Published (demo_op 2) b \<and> waiting c 1 \<and>
     worker_rounds demo_world k (sys c) = Next s' \<and> response_ready b (chans s' 2) \<and> op_read (demo_op 2) (chans s' 2) = Ok a"
proof -
  obtain c b where c: "demo_reachable_conc c" "trio (\<lambda>q. q) 0 1 2 c" "at c 2 = Published (demo_op 2) b"
    using demo_trio by blast
  have t: "scanning c = None" "waiting c 1" "op_tag (demo_op 2) \<noteq> Launch"
    using c(2) by (simp_all add: trio_def numeral_2_eq_2)
  from posted_request_answered[OF demo_queues c(1) t(1) c(3)] c t show ?thesis by blast
qed

end
