(* ===== verification/Launch_Overlap.thy ===== *)
theory Launch_Overlap
  imports Concurrent_Progress
begin

text \<open>
  What the worker does while a launched closure is under way (src/runtime/runtime.rs): it has handed
  the closure to a fiber with a reference to the property, marked the client, and goes on to the
  next one, whose closure it runs on the property.
\<close>

context conc_system
begin

text \<open>The visit of a client that has posted a launch, as a step.\<close>

lemma visits_launching:
  assumes s: "simulated v c" and k: "scanning c = Some (n, offs, pr)" "offs < n"
    and i: "scan_index n (start_idx (sys c)) offs = i" "i < length (clients (sys c))" "cp_chan (clients (sys c) ! i) = j"
    and w: "at c j = Published x b" "\<not> response_ready b (chans (sys c) j)" "op_tag x = Launch"
    and u: "\<not> pending_launch (clients (sys c) ! i)"
  obtains s' g where "conc_step X B c (c\<lparr> sys := s', scanning := Some (n, Suc offs, True) \<rparr>)"
    "has_job s' g \<lparr> job_chan = j, job_hdr = op_header B (chans (sys c) j) x, job_req_ready = b \<rparr>"
    "chans s' = chans (sys c)" "inbox_pop (fibers s' g) = Some (Execute \<lparr> job_chan = j, job_hdr = op_header B (chans (sys c) j) x, job_req_ready = b \<rparr>, (fibers s' g)\<lparr> inbox := [] \<rparr>)" "map cp_chan (clients s') = map cp_chan (clients (sys c))" "start_idx s' = (i + 1) mod n"
proof -
  obtain p where wf: "conc_wf items pitems B c" and p: "follows v (overlapped c) p" "sim X B c p" using s by (rule simulatedE)
  note pf = published_flags[OF p w(1)]
  obtain c0 where r: "requested B c0 x b (chans (sys c) j)" using pf(3)[OF w(2)] by blast
  have sv: "servable (sys c) i"
    using u w(2) pf(1) i(3) by (auto simp: servable_def Let_def idle_chan_def response_ready_def)
  obtain tx fb pl m hs where v: "visit X n i (sys c) = Next ((sys c)\<lparr> clients := (clients (sys c))[i := marked b (clients (sys c) ! i)],
      prop_arcs := Suc (prop_arcs (sys c)), fiber_pool := pl, fibers := (fibers (sys c))(tx := fb), n_fibers := m, fiber_handles := hs,
      start_idx := (i + 1) mod n \<rparr>, True)"
    "inbox fb = [Execute \<lparr> job_chan = j, job_hdr = op_header B (chans (sys c) j) x, job_req_ready = b \<rparr>]"
    by (rule visit_launches[OF i(2,3) sv r w(3) conc_wfD(3)[OF wf], of n])
  let ?s = "(sys c)\<lparr> clients := (clients (sys c))[i := marked b (clients (sys c) ! i)],
      prop_arcs := Suc (prop_arcs (sys c)), fiber_pool := pl, fibers := (fibers (sys c))(tx := fb), n_fibers := m, fiber_handles := hs,
      start_idx := (i + 1) mod n \<rparr>"
  have st: "conc_step X B c (c\<lparr> sys := ?s, scanning := Some (n, Suc offs, True) \<rparr>)"
    using quiet_visits[OF k, of X ?s True B] v(1) i(1,3) w(1,3) by (simp add: calls_closure_def)
  show ?thesis
    by (rule that[OF st, of tx]) (use v(2) i(2) in \<open>simp_all add: has_job_def inbox_pop_def map_update marked_def list_update_same_conv\<close>)
qed

text \<open>The visit of a client whose operation the worker runs itself, while a fiber is in the middle of a
  launched closure.\<close>

lemma serves_beside_launch:
  assumes s: "simulated v c" and en: "entered c" and k: "scanning c = Some (n, offs, pr)" "offs < n"
    and j: "cp_chan (clients (sys c) ! scan_index n (start_idx (sys c)) offs) = j"
    and w: "at c j = Published x b" "\<not> response_ready b (chans (sys c) j)" "op_tag x \<noteq> Launch" and g: "g \<in> inside c"
  shows "\<exists>c' job. conc_step X B c c' \<and> prop_cell (sys c') = fst (op_eval x (prop_cell (sys c))) \<and>
    response_ready b (chans (sys c') j) \<and> g \<in> inside c' \<and> has_job (sys c') g job \<and> job_chan job \<noteq> j \<and>
    (\<exists>y b'. at c' (job_chan job) = Published y b' \<and> op_tag y = Launch \<and> \<not> response_ready b' (chans (sys c') (job_chan job))) \<and>
    overlapped c'"
proof -
  obtain p where wf: "conc_wf items pitems B c" and p: "follows v (overlapped c) p" "sim X B c p" using s by (rule simulatedE)
  let ?i = "scan_index n (start_idx (sys c)) offs"
  have "n = length (clients (sys c))" "start_idx (sys c) < n" using wf k by (auto simp: conc_wf_def wf_loop_def split: if_splits)
  then have i: "?i < length (clients (sys c))" using scan_index_lt[of "start_idx (sys c)" n offs] k(2) by simp
  obtain job where h: "has_job (sys c) g job" using en g by (auto simp: entered_def)
  have jo: "job_ok items B c job" by (rule jobs_okD[OF conc_wfD(6)[OF wf] h])
  then obtain y where y: "at c (job_chan job) = Published y (job_req_ready job)" "op_tag y = Launch"
    "\<not> response_ready (job_req_ready job) (chans (sys c) (job_chan job))" by (auto simp: job_ok_def Let_def)
  have ne: "job_chan job \<noteq> j" using y(1,2) w(1,3) by auto
  obtain t ch where t: "response_ready b ch" "t = fst (op_eval x (prop_cell (sys c)))"
    "conc_step X B c (c\<lparr> sys := (clear_pending ?i (sys c))\<lparr> prop_cell := t, start_idx := (?i + 1) mod n, chans := (chans (sys c))(j := ch) \<rparr>,
      scanning := Some (n, Suc offs, True), overlapped := overlapped c \<or> inside c \<noteq> {} \<rparr>)"
    by (rule visits_calling[OF s k refl i j w])
  show ?thesis
    by (rule exI, rule exI[of _ job], rule conjI[OF t(3)])
      (use t(1,2) y ne g h in \<open>auto simp: has_job_def clear_pending_def upd_client_def\<close>)
qed

end

section \<open>Properties\<close>

text \<open>C11. A launched closure holds nobody up, and nothing keeps the others off the property: while a fiber
  is in the middle of a launched closure, the worker's visit of another client runs that client's
  closure on the property and answers it, and afterwards the fiber is still in the middle of its own,
  its launch unanswered. So the references that the two closures hold overlap.\<close>

theorem served_beside_launch:
  assumes "seg_queue items (reg_push X) (reg_pop X)" "seg_queue pitems (pool_push X) (pool_pop X)"
    and "conc_reachable items pitems X B v c" "scanning c = Some (n, offs, pr)" "offs < n"
    and "cp_chan (clients (sys c) ! scan_index n (start_idx (sys c)) offs) = j"
    and "at c j = Published x b" "\<not> response_ready b (chans (sys c) j)" "op_tag x \<noteq> Launch" "g \<in> inside c"
  shows "\<exists>c' job. conc_step X B c c' \<and> prop_cell (sys c') = fst (op_eval x (prop_cell (sys c))) \<and>
    response_ready b (chans (sys c') j) \<and> g \<in> inside c' \<and> has_job (sys c') g job \<and> job_chan job \<noteq> j \<and>
    (\<exists>y b'. at c' (job_chan job) = Published y b' \<and> op_tag y = Launch \<and> \<not> response_ready b' (chans (sys c') (job_chan job))) \<and>
    overlapped c'"
proof -
  note sy = conc_systemI[OF assms(1,2)]
  have "entered c" using conc_system.reachable_entered[OF sy assms(3)] by blast
  then show ?thesis
    by (rule conc_system.serves_beside_launch[OF sy conc_system.reachable_simulated[OF sy assms(3)] _ assms(4-10)])
qed

text \<open>The first of three clients launches and the third calls with an argument: the round has handed
  the launch to a fiber, which starts on the closure, and comes to the third.\<close>

theorem served_beside_launch_witness:
  "\<exists>c g c'. demo_reachable_conc c \<and> g \<in> inside c \<and> \<not> overlapped c \<and> conc_step demo_world demo_codec c c' \<and>
     prop_cell (sys c') = fst (op_eval (demo_op 2) (prop_cell (sys c))) \<and> g \<in> inside c' \<and> overlapped c'"
proof -
  let ?c = demo_three and ?l = "demo_op 1"
  note sim = demo_conc.reachable_simulated
  have at: "at ?c j = Idle" "got ?c j = []" "scanning ?c = None" for j by (simp_all add: demo_three_def)
  have n: "inside ?c = {}" "overlapped ?c = False" by (simp_all add: demo_three_def)
  obtain ch0 b0 where 0: "(conc_step demo_world demo_codec)\<^sup>*\<^sup>* ?c
      (?c\<lparr> sys := put_chan 0 ch0 (sys ?c), at := (at ?c)(0 := Published ?l b0) \<rparr>)" "\<not> response_ready b0 ch0"
    by (rule demo_conc.posts[OF sim[OF demo_three_reachable], of 0 ?l]) (use at demo_three_clients demo_sendable(1)[of 1] in simp_all)
  let ?c0 = "?c\<lparr> sys := put_chan 0 ch0 (sys ?c), at := (at ?c)(0 := Published ?l b0) \<rparr>"
  have r0: "demo_reachable_conc ?c0" by (rule conc_reachable_steps[OF 0(1) demo_three_reachable])
  obtain ch2 b2 where 2: "demo_reachable_conc
      (?c0\<lparr> sys := put_chan 2 ch2 (sys ?c0), at := (at ?c0)(2 := Published (demo_op 2) b2) \<rparr>)" "\<not> response_ready b2 ch2"
    by (rule demo_posts[OF r0, of 2]) (use at demo_three_clients in simp_all)
  let ?c2 = "?c0\<lparr> sys := put_chan 2 ch2 (sys ?c0), at := (at ?c0)(2 := Published (demo_op 2) b2) \<rparr>"
  have q: "reg (sys ?c2) = []" "scanning ?c2 = None" using at demo_three_clients by simp_all
  have rs: "round_start demo_world (sys ?c2) = (sys ?c2)\<lparr> loop_counter := loop_counter (sys ?c2) + 1 \<rparr>"
    using demo_conc.round_start_empty[of "sys ?c2"] q by simp
  have cl0: "clients (round_start demo_world (sys ?c2)) = [new_client_pair 0, new_client_pair 1, new_client_pair 2]"
    unfolding rs using demo_three_clients by simp
  have len: "clients (round_start demo_world (sys ?c2)) \<noteq> []" "length (clients (round_start demo_world (sys ?c2))) = 3"
    unfolding cl0 by simp_all
  let ?c3 = "?c2\<lparr> sys := round_start demo_world (sys ?c2), scanning := Some (3, 0, False) \<rparr>"
  have st3: "conc_step demo_world demo_codec ?c2 ?c3"
    using conc_step.starts[OF q(2) len(1), of demo_codec] unfolding len(2) .
  have r3: "demo_reachable_conc ?c3" by (rule conc_reachable.step[OF 2(1) st3])
  have cl: "clients (sys ?c3) = [new_client_pair 0, new_client_pair 1, new_client_pair 2]" "start_idx (sys ?c3) = 0"
    using cl0 rs demo_three_clients by simp_all
  have ch: "chans (sys ?c3) = chans (sys ?c2)" "at ?c3 = at ?c2" using rs by simp_all
  obtain s' g where s': "conc_step demo_world demo_codec ?c3 (?c3\<lparr> sys := s', scanning := Some (3, Suc 0, True) \<rparr>)"
    "has_job s' g \<lparr> job_chan = 0, job_hdr = op_header demo_codec (chans (sys ?c3) 0) ?l, job_req_ready = b0 \<rparr>"
    and pop: "inbox_pop (fibers s' g) = Some (Execute \<lparr> job_chan = 0, job_hdr = op_header demo_codec (chans (sys ?c3) 0) ?l, job_req_ready = b0 \<rparr>,
      (fibers s' g)\<lparr> inbox := [] \<rparr>)" and s2: "chans s' = chans (sys ?c3)" "map cp_chan (clients s') = map cp_chan (clients (sys ?c3))" "start_idx s' = (0 + 1) mod 3"
    by (rule demo_conc.visits_launching[OF sim[OF r3], of 3 0 False 0 0 ?l b0])
      (use 0(2) cl ch in \<open>simp_all add: scan_index_def new_client_pair_def\<close>)
  let ?c4 = "?c3\<lparr> sys := s', scanning := Some (3, Suc 0, True) \<rparr>"
  have r4: "demo_reachable_conc ?c4" by (rule conc_reachable.step[OF r3 s'(1)])
  have in4: "inside ?c4 = {}" "overlapped ?c4 = False" using n by simp_all
  let ?c5 = "?c4\<lparr> inside := insert g (inside ?c4), overlapped := overlapped ?c4 \<or> inside ?c4 \<noteq> {} \<rparr>"
  have r5: "demo_reachable_conc ?c5"
    by (rule conc_reachable.step[OF r4 conc_step.enters]) (use pop in4 in simp_all)
  have "length (clients s') = 3" using arg_cong[OF s2(2), of length] cl(1) by simp
  then have "cp_chan (clients s' ! 2) = 2" using arg_cong[OF s2(2), of "\<lambda>l. l ! 2"] cl(1) by (simp add: new_client_pair_def)
  then have j: "cp_chan (clients (sys ?c5) ! scan_index 3 (start_idx (sys ?c5)) (Suc 0)) = 2"
    using s2(3) by (simp add: scan_index_def numeral_2_eq_2)
  have w: "at ?c5 2 = Published (demo_op 2) b2" "\<not> response_ready b2 (chans (sys ?c5) 2)" "op_tag (demo_op 2) \<noteq> Launch"
    using 2(2) s2(1) ch by (simp_all add: numeral_2_eq_2)
  have k: "scanning ?c5 = Some (3, Suc 0, True)" "Suc 0 < 3" "g \<in> inside ?c5" by simp_all
  have "\<not> overlapped ?c5" using in4 by simp
  with served_beside_launch[OF demo_queues r5 k(1,2) j w k(3)] r5 k(3) show ?thesis by blast
qed

end
