(* ===== verification/Locality.thy ===== *)
theory Locality
  imports Concurrent
begin

text \<open>
  What the worker touches: a visit of a client, and a fiber's turn, read and write the slots of one
  channel only. Whatever another client does to its slots in the meantime, before or after makes no
  difference - which is what lets a visit be one step of the concurrent system. The property is another
  matter: closures that run on it at the same time are told apart there.
\<close>

section \<open>Slots of another channel\<close>

text \<open>Storing another channel's slots commutes with each part of the worker.\<close>

named_theorems local_simps

lemma put_chan_fields [local_simps]:
  "clients (put_chan j c s) = clients s" "prop_cell (put_chan j c s) = prop_cell s" "prop_arcs (put_chan j c s) = prop_arcs s"
  "fiber_pool (put_chan j c s) = fiber_pool s" "fibers (put_chan j c s) = fibers s" "n_fibers (put_chan j c s) = n_fibers s"
  "fiber_handles (put_chan j c s) = fiber_handles s" "prop_moves (put_chan j c s) = prop_moves s"
  "prop_drops (put_chan j c s) = prop_drops s"
  by (simp_all add: put_chan_def)

lemma put_chan_other [local_simps]: "i \<noteq> j \<Longrightarrow> chans (put_chan j c s) i = chans s i"
  by (simp add: put_chan_def)

lemma put_chan_updates [local_simps]:
  "(put_chan j c s)\<lparr> prop_cell := t \<rparr> = put_chan j c (s\<lparr> prop_cell := t \<rparr>)"
  "(put_chan j c s)\<lparr> prop_moves := m \<rparr> = put_chan j c (s\<lparr> prop_moves := m \<rparr>)"
  "(put_chan j c s)\<lparr> fiber_pool := p \<rparr> = put_chan j c (s\<lparr> fiber_pool := p \<rparr>)"
  "(put_chan j c s)\<lparr> fibers := fs \<rparr> = put_chan j c (s\<lparr> fibers := fs \<rparr>)"
  "(put_chan j c s)\<lparr> status := st \<rparr> = put_chan j c (s\<lparr> status := st \<rparr>)"
  "(put_chan j c s)\<lparr> start_idx := k \<rparr> = put_chan j c (s\<lparr> start_idx := k \<rparr>)"
  by (simp_all add: put_chan_def)

lemma put_chan_steps [local_simps]:
  "i \<noteq> j \<Longrightarrow> upd_chan i g (put_chan j c s) = put_chan j c (upd_chan i g s)"
  "upd_client idx h (put_chan j c s) = put_chan j c (upd_client idx h s)"
  "clone_prop_arc (put_chan j c s) = put_chan j c (clone_prop_arc s)"
  "drop_prop_arc (put_chan j c s) = put_chan j c (drop_prop_arc s)"
  "leave_worker st (put_chan j c s) = put_chan j c (leave_worker st s)"
  "spawn_fiber job (put_chan j c s) = put_chan j c (spawn_fiber job s)"
  "upd_fiber f k (put_chan j c s) = put_chan j c (upd_fiber f k s)"
  by (simp_all add: put_chan_def upd_chan_def upd_client_def clone_prop_arc_def drop_prop_arc_def leave_worker_def
      spawn_fiber_def upd_fiber_def Let_def fun_upd_twist)

lemma unwind_local [local_simps]: "unwind (put_chan j c s) = put_chan j c (unwind s)"
  by (simp add: unwind_def local_simps)

lemma send_job_local [local_simps]: "send_job tx job (put_chan j c s) = map_option (put_chan j c) (send_job tx job s)"
  by (simp add: send_job_def local_simps)

text \<open>The search for a fiber ends in both states or in neither.\<close>

lemma dispatch_job_put:
  assumes "dispatch_job X job s = Some s'"
  shows "dispatch_job X job (put_chan j c s) = Some (put_chan j c s')"
proof (rule dispatch_job.raw_induct
    [where P = "\<lambda>X job s s'. dispatch_job X job (put_chan j c s) = Some (put_chan j c s')", OF _ assms])
  fix disp :: "('t, 'q, 'p) world \<Rightarrow> Job \<Rightarrow> ('t, 'q, 'p) rt \<Rightarrow> ('t, 'q, 'p) rt option"
  fix X :: "('t, 'q, 'p) world" and job s s'
  assume IH: "\<And>X job s s'. disp X job s = Some s' \<Longrightarrow> dispatch_job X job (put_chan j c s) = Some (put_chan j c s')"
    and eq: "(case pool_pop X (fiber_pool s) of
         None \<Rightarrow> Some (spawn_fiber job s)
       | Some (tx, p) \<Rightarrow>
           let s1 = s\<lparr> fiber_pool := p \<rparr>
           in case send_job tx job s1 of None \<Rightarrow> disp X job s1 | Some x \<Rightarrow> Some x) = Some s'"
  show "dispatch_job X job (put_chan j c s) = Some (put_chan j c s')"
  proof (cases "pool_pop X (fiber_pool s)")
    case None
    then show ?thesis using eq by (subst dispatch_job.simps) (simp add: local_simps)
  next
    case (Some y)
    obtain tx p where y: "y = (tx, p)" by (rule prod.exhaust)
    show ?thesis
    proof (cases "send_job tx job (s\<lparr> fiber_pool := p \<rparr>)")
      case None
      then show ?thesis using eq IH Some y by (subst dispatch_job.simps) (simp add: local_simps Let_def)
    next
      case (Some s2)
      then show ?thesis using eq \<open>pool_pop X (fiber_pool s) = Some y\<close> y
        by (subst dispatch_job.simps) (simp add: local_simps Let_def)
    qed
  qed
qed

lemma put_chan_back: "put_chan j (chans s j) (put_chan j c s) = s"
  by (simp add: put_chan_def)

lemma dispatch_job_local [local_simps]:
  "dispatch_job X job (put_chan j c s) = map_option (put_chan j c) (dispatch_job X job s)"
proof (cases "dispatch_job X job s")
  case None
  have "dispatch_job X job (put_chan j c s) = None"
  proof (rule ccontr)
    assume "dispatch_job X job (put_chan j c s) \<noteq> None"
    then obtain t where "dispatch_job X job (put_chan j c s) = Some t" by blast
    from dispatch_job_put[OF this, of j "chans s j"] None show False by (simp add: put_chan_back)
  qed
  with None show ?thesis by simp
qed (simp add: dispatch_job_put)

section \<open>The visit\<close>

lemma after_call_local [local_simps]:
  "i \<noteq> j \<Longrightarrow> after_call i (put_chan j c s) r = map_flow (apfst (put_chan j c)) (after_call i s r)"
  by (simp add: after_call_def local_simps Let_def split: outcome.splits prod.splits)

lemma dispatch_record_local [local_simps]:
  assumes "i \<noteq> j"
  shows "dispatch_record X idx i b hdr (put_chan j c s) = map_flow (apfst (put_chan j c)) (dispatch_record X idx i b hdr s)"
proof (cases "property_ptr hdr")
  case CallMutRetUnit
  then show ?thesis using assms
    by (simp add: dispatch_record_def serve_CallMutRetUnit_def local_simps Let_def split: outcome.splits prod.splits)
next
  case CallMutOutPtr
  then show ?thesis using assms by (simp add: dispatch_record_def serve_CallMutOutPtr_def local_simps Let_def)
next
  case CallMutArgsOutPtr
  then show ?thesis using assms by (simp add: dispatch_record_def serve_CallMutArgsOutPtr_def local_simps Let_def)
next
  case IntoInner
  then show ?thesis using assms
    by (simp add: dispatch_record_def serve_IntoInner_def local_simps Let_def split: option.splits)
next
  case Launch
  then show ?thesis using assms
    by (simp add: dispatch_record_def serve_Launch_def local_simps Let_def split: option.splits)
next
  case Terminate
  then show ?thesis by (simp add: dispatch_record_def serve_Terminate_def local_simps)
qed

lemma process_records_local [local_simps]:
  "i \<noteq> j \<Longrightarrow> process_records X idx i b k cur n d (put_chan j c s) =
   map_flow (apfst (put_chan j c)) (process_records X idx i b k cur n d s)"
proof (induction k arbitrary: cur n d s)
  case (Suc k)
  then show ?case
    by (simp add: local_simps Let_def split: outcome.splits flow.splits prod.splits)
qed simp

lemma finish_request_local [local_simps]:
  "i \<noteq> j \<Longrightarrow> finish_request i b n d (put_chan j c s) = put_chan j c (finish_request i b n d s)"
  by (simp add: finish_request_def local_simps)

lemma run_launch_job_local [local_simps]:
  "job_chan job \<noteq> j \<Longrightarrow> run_launch_job X job (put_chan j c s) = map_sum id (apfst (put_chan j c)) (run_launch_job X job s)"
  by (simp add: run_launch_job_def local_simps Let_def split: outcome.splits prod.splits)

lemma visit_local:
  assumes "cp_chan (clients s ! idx) \<noteq> j"
  shows "visit X n idx (put_chan j c s) = map_flow (apfst (put_chan j c)) (visit X n idx s)"
proof (cases "length (clients s) \<le> idx")
  case False
  obtain cp' go where g: "launch_gate (ready (load_flags (request (chans s (cp_chan (clients s ! idx))))))
      (ready (load_flags (response (chans s (cp_chan (clients s ! idx)))))) (clients s ! idx) = (cp', go)" by (rule prod.exhaust)
  show ?thesis
    using False assms by (simp add: visit_def local_simps Let_def g split: flow.splits prod.splits)
qed (simp add: visit_def local_simps)

lemma fiber_turn_local:
  assumes "\<And>job. Execute job \<in> set (inbox (fibers s f)) \<Longrightarrow> job_chan job \<noteq> j"
  shows "fiber_turn X f (put_chan j c s) = map_sum id (put_chan j c) (fiber_turn X f s)"
proof (cases "inbox (fibers s f)")
  case (Cons msg rest)
  show ?thesis
  proof (cases msg)
    case (Execute job)
    then have "job_chan job \<noteq> j" using assms Cons by simp
    then show ?thesis using Cons Execute
      by (auto simp: fiber_turn_def inbox_pop_def local_simps Let_def split: sum.splits prod.splits)
  qed (use Cons in \<open>simp add: fiber_turn_def inbox_pop_def local_simps Let_def\<close>)
qed (simp add: fiber_turn_def inbox_pop_def local_simps)

section \<open>Properties\<close>

text \<open>C10. The worker touches the slots of one channel at a time: a visit of a client neither reads nor
  writes the slots of another one, and neither does a fiber that runs a launched closure, whatever
  the state, and whatever comes of the visit - an answer, a panic that unwinds the worker, an end, or
  undefined behaviour. So what other clients do to their slots meanwhile commutes with the visit.\<close>

theorem worker_is_local:
  assumes "cp_chan (clients s ! idx) \<noteq> j" "\<And>job. Execute job \<in> set (inbox (fibers s f)) \<Longrightarrow> job_chan job \<noteq> j"
  shows "visit X n idx (put_chan j c s) = map_flow (apfst (put_chan j c)) (visit X n idx s) \<and>
    fiber_turn X f (put_chan j c s) = map_sum id (put_chan j c) (fiber_turn X f s)"
  by (rule conjI[OF visit_local[OF assms(1)] fiber_turn_local[OF assms(2)]])

text \<open>The first of two clients is served, before and after the other one's slots change.\<close>

theorem worker_is_local_witness:
  "\<exists>c s'. visit sample_world 2 0 (sample_rt 2) = Next (s', True) \<and> prop_cell s' = prop_cell (sample_rt 2) + 1 \<and>
     visit sample_world 2 0 (put_chan 1 c (sample_rt 2)) = Next (put_chan 1 c s', True) \<and>
     put_chan 1 c (sample_rt 2) \<noteq> sample_rt 2"
proof -
  let ?c = "ChannelPair_default 9"
  have ch: "cp_chan (clients (sample_rt 2) ! 0) = 0" by (simp add: new_client_pair_def)
  obtain s' where s': "visit sample_world 2 0 (sample_rt 2) = Next (s', True)" "prop_cell s' = prop_cell (sample_rt 2) + 1"
    using sample_visit[of 0 "sample_rt 2" 0 2] ch sample_servable[of 0 2] by auto
  have "put_chan 1 ?c (sample_rt 2) \<noteq> sample_rt 2"
  proof
    assume "put_chan 1 ?c (sample_rt 2) = sample_rt 2"
    from arg_cong[OF this, of "\<lambda>s. chans s 1"] have "?c = sample_chan" by (simp add: put_chan_def)
    then show False by (simp add: sample_chan_def ChannelPair_default_def)
  qed
  moreover have "visit sample_world 2 0 (put_chan 1 ?c (sample_rt 2)) = Next (put_chan 1 ?c s', True)"
    using worker_is_local[of "sample_rt 2" 0 1 0 sample_world 2 ?c] s'(1) ch by (simp add: sample_rt_def)
  ultimately show ?thesis using s' by blast
qed

end
