(* ===== verification/Examples.thy ===== *)
theory Examples
  imports Trust_Interface Protocol
begin

text \<open>
  The example programs of src/examples as client code of the library: what their threads send, and
  that what they assert or print is what the library gives them in the order of their statements.
\<close>

section \<open>A local counter (local\_trustee.rs)\<close>

definition local_trustee_main :: "u64 reply \<times> bool reply \<times> u64 reply" where
  "local_trustee_main =
     (let counter = local_entrust (17 :: u64);
          (_, counter) = local_apply (\<lambda>c. (c + 1, Some ())) counter;
          (_, counter) = local_apply (\<lambda>c. (c + 1, Some ())) counter;
          (v, counter) = local_apply (\<lambda>c. (c, Some c)) counter;
          (k, counter) = local_apply_then (\<lambda>c. (c + 1, Some (c + 1))) (\<lambda>v. v = 20) counter;
          (final_v, counter) = local_apply (\<lambda>c. (c, Some c)) counter
      in (v, k, final_v))"

lemma local_trustee_asserts: "local_trustee_main = (Returned 19, Returned True, Returned 20)"
  by (simp add: local_trustee_main_def local_entrust_def local_apply_def local_apply_then_def local_call_def)

section \<open>Latched values (latch.rs)\<close>

text \<open>A closure that takes the latch by hand, and drops the guard at its end.\<close>

definition with_guard :: "('u \<Rightarrow> 'u \<times> 'r) \<Rightarrow> 'u Latch \<Rightarrow> 'u Latch \<times> 'r option" where
  "with_guard f l =
     (case lock l of
        Ok l1 \<Rightarrow> (case f (latched l1) of (u, r) \<Rightarrow> (latch_guard_drop (l1\<lparr> latched := u \<rparr>), Some r))
      | _ \<Rightarrow> (l, None))"

definition section_of :: "('u \<Rightarrow> 'u \<times> 'r) \<Rightarrow> ('u, 'r) section_code" where
  "section_of f = through_guard (\<lambda>u. case f u of (u', r) \<Rightarrow> (u', Some r))"

definition latch_main :: "usize reply \<times> nat reply \<times> nat reply \<times> nat reply \<times> u32 reply" where
  "latch_main =
     (let guarded = local_entrust (latch_new (0 :: usize));
          (_, guarded) = local_apply (with_guard (\<lambda>g. (g + 1, ()))) guarded;
          (v, guarded) = local_apply (with_guard (\<lambda>g. (g, g))) guarded;
          (len, _) = lock_apply (section_of (\<lambda>v. (v @ [10, 20], length (v @ [10, 20]))))
            (local_entrust (latch_new ([] :: u32 list)));
          vec_t = local_entrust (latch_new ([] :: u8 list));
          (observed, vec_t) = lock_apply_then (section_of (\<lambda>v. (v @ [1, 2, 3, 4], length (v @ [1, 2, 3, 4])))) (\<lambda>l. l) vec_t;
          (pushed, vec_t) = lock_apply_with (\<lambda>w. section_of (\<lambda>v. (v @ w, length (v @ w)))) [9, 9] vec_t;
          (total, vec_t) = lock_with (section_of (\<lambda>v. (v, sum_list (map ucast v)))) vec_t
      in (v, len, observed, pushed, total))"

lemma latch_asserts: "latch_main = (Returned 1, Returned 2, Returned 4, Returned 6, Returned (1 + 2 + 3 + 4 + 9 + 9))"
  by (simp add: latch_main_def local_entrust_def latch_new_def local_apply_def local_call_def with_guard_def section_of_def
      through_guard_def lock_apply_def lock_apply_then_def lock_apply_with_def lock_with_def lock_cases latch_guard_drop_def)

end
