(* ===== verification/Remote_Examples.thy ===== *)
theory Remote_Examples
  imports Examples
begin

text \<open>
  The example programs that use a remote trust (src/examples): pinning.rs, basic_usage.rs,
  launch_test.rs and recursive_apply.rs, with the closures they send, run through the bytes of the
  channel and the worker's rounds.
\<close>

section \<open>Closures without captures\<close>

text \<open>A function item or a closure that captures nothing: zero bytes, and a vtable at an address
  the linker chooses.\<close>

definition bare_fn :: "u64 \<Rightarrow> ('t \<Rightarrow> 't \<times> 'r option) \<Rightarrow> ('t, 'r) client_fn" where
  "bare_fn a g = \<lparr> fv = \<lparr> fn_size = 0, fn_align = 1, fn_env = [], fn_vtable = a \<rparr>, body = (\<lambda>env. g) \<rparr>"

definition incr :: "'w::len word \<Rightarrow> 'w word \<times> unit option" where
  "incr c = (c + 1, Some ())"

definition get :: "'w::len word \<Rightarrow> 'w word \<times> u64 option" where
  "get c = (c, Some (ucast c))"

definition unit_ret :: "unit ret_type" where
  "unit_ret = \<lparr> ret_size = 0, ret_enc = enc_unit, ret_dec = dec_unit \<rparr>"

lemma unit_ret_wf [simp]: "wf_ret unit_ret" "ret_size unit_ret = 0"
  using unit_layout.layout_axioms by (simp_all add: wf_ret_def unit_ret_def)

lemma call_bare [simp]: "call_fn (bare_fn a g) t = g t"
  by (simp add: call_fn_def bare_fn_def)

text \<open>The program image holds the adapter for a closure of the result type.\<close>

definition linked_bare :: "('t, 'q, 'p) world \<Rightarrow> 'r ret_type \<Rightarrow> u64 \<Rightarrow> ('t \<Rightarrow> 't \<times> 'r option) \<Rightarrow> bool" where
  "linked_bare X R a g \<longleftrightarrow> vt_out X a = Some (VTABLE 0 1 (apply_adapter R (\<lambda>env. g)))"

lemma linked_bareD: "linked_bare X R a g \<Longrightarrow> linked_fn X R (bare_fn a g)"
  using small_fits by (auto simp: linked_bare_def linked_fn_def bare_fn_def)

section \<open>Starting a program\<close>

text \<open>A client thread that is not the trustee's, empty queues, and fuel for the first visit.\<close>

definition fresh_start ::
    "('q \<Rightarrow> ClientPair list) \<Rightarrow> ('p \<Rightarrow> nat list) \<Rightarrow> ('t, 'q, 'p) world \<Rightarrow> caller \<Rightarrow> usize \<Rightarrow> 'q \<Rightarrow> 'p \<Rightarrow> nat \<Rightarrow> bool" where
  "fresh_start items pitems X th tid q p fuel \<longleftrightarrow>
     seg_queue items (reg_push X) (reg_pop X) \<and> seg_queue pitems (pool_push X) (pool_pop X) \<and>
     items q = [] \<and> pitems p = [] \<and> \<not> caller_trustee th \<and> tid \<noteq> caller_id th \<and> 34 \<le> fuel"

lemma fresh_usable:
  assumes f: "fresh_start items pitems X th tid q p fuel" and e: "remote_entrust X v tid b q p = (rm, s)"
  shows "handle_usable items fuel th rm s" "prop_cell s = v" "pool_ok pitems s" "1 \<le> prop_arcs s" "trustee_id s = tid"
    "trustee_prop s"
proof -
  have q: "seg_queue items (reg_push X) (reg_pop X)" "items q = []" using f by (auto simp: fresh_start_def)
  have e': "entrust_handle X b True (worker_start v tid q p) = (rm, s)"
    using e by (auto simp: remote_entrust_def spawn_with_pin_def entrust_handle_def new_chan_def Let_def split: prod.splits)
  have "calm items s" by (rule entrust_handle_calm[OF q(1) worker_start_calm e']) (rule q(2))
  moreover have "registered items s = [r_chan rm]"
    using entrust_handle_registered[OF q(1) e'] q(2) by (simp add: registered_def worker_start_def)
  moreover have s: "prop_cell s = v" "trustee_id s = tid" "pool_ok pitems s" "1 \<le> prop_arcs s" "trustee_prop s"
    using e' f by (auto simp: entrust_handle_def new_chan_def register_def worker_start_def pool_ok_def fresh_start_def Let_def)
  ultimately show "handle_usable items fuel th rm s" using f by (simp add: handle_usable_def on_owning_trustee_def fresh_start_def)
  show "prop_cell s = v" "pool_ok pitems s" "1 \<le> prop_arcs s" "trustee_id s = tid" "trustee_prop s" using s by simp_all
qed

text \<open>The operations a program makes on a handle, one after the other.\<close>

lemma apply_next:
  assumes "fresh_start items pitems X th tid q p fuel" "handle_usable items fuel th rm s"
    and "wf_ret R" "ret_size R \<le> 1148" "linked_fn X R f" "call_fn f (prop_cell s) = (t, Some r)"
  obtains s' where "remote_apply X fuel th rm R f s = (Returned r, s')" "handle_usable items fuel th rm s'" "prop_cell s' = t"
    "op_frame items (r_chan rm) s s'"
proof -
  have q: "worker_queue items X" using assms(1) by (simp add: worker_queue_def fresh_start_def)
  have u: "calm items s" "r_chan rm \<in> set (registered items s)" "\<not> on_owning_trustee th s" "distance items s + 2 \<le> fuel"
    using assms(2) distance_registered[of items s] by (auto simp: handle_usable_def)
  have f: "fits (fv f) 0"
    "vt_out X (fn_vtable (fv f)) = Some (VTABLE (fn_size (fv f)) (fn_align (fv f)) (apply_adapter R (body f)))"
    using assms(5) by (auto simp: linked_fn_def)
  obtain s' where d: "delegate X fuel (r_chan rm) CallMutOutPtr (fv f) [] (\<lambda>h. h) (read_response (ret_size R) (ret_dec R)) s
      = (Returned r, s')" "prop_cell s' = t" "calm items s'" "op_frame items (r_chan rm) s s'"
    using worker_queue.delegate_apply[OF q u(1,2) f(1) wf_ret_codes[OF assms(3)] assms(4) f(2) assms(6) u(4)] by blast
  have "registered items s' = registered items s" using d(4) by (simp add: op_frame_def)
  then have "handle_usable items fuel th rm s'" using assms(2) d(3) op_frame_owner[OF d(4)] by (simp add: handle_usable_def)
  moreover have "remote_apply X fuel th rm R f s = (Returned r, s')"
    using d(1) u(3) assms(1) by (simp add: remote_apply_def fresh_start_def)
  ultimately show ?thesis using that d(2,4) by blast
qed

lemma clone_next:
  assumes f: "fresh_start items pitems X th tid q p fuel" and u: "handle_usable items fuel th rm s"
    and c: "remote_clone X b' rm' s = (cl, s1)" and n: "16 * Suc (length (registered items s)) + 18 \<le> fuel"
  shows "handle_usable items fuel th rm s1" "length (registered items s1) = Suc (length (registered items s))"
    "prop_cell s1 = prop_cell s" "trustee_id s1 = trustee_id s" "trustee_prop s1 = trustee_prop s"
proof -
  have q: "seg_queue items (reg_push X) (reg_pop X)" using f by (simp add: fresh_start_def)
  have e: "entrust_handle X b' (r_owner rm') s = (cl, s1)" using c by (simp add: remote_clone_def)
  show t: "prop_cell s1 = prop_cell s" "trustee_id s1 = trustee_id s" "trustee_prop s1 = trustee_prop s"
    using e by (auto simp: entrust_handle_def new_chan_def register_def Let_def)
  have r: "registered items s1 = registered items s @ [n_chans s]" by (rule entrust_handle_registered(1)[OF q e])
  then show "length (registered items s1) = Suc (length (registered items s))" by simp
  have "calm items s1" by (rule entrust_handle_calm[OF q _ e]) (use u in \<open>simp add: handle_usable_def\<close>)
  then show "handle_usable items fuel th rm s1" using u n r t by (simp add: handle_usable_def on_owning_trustee_def)
qed

lemma with_next:
  assumes "fresh_start items pitems X th tid q p fuel" "handle_usable items fuel th rm s"
    and "wf_ret R" "ret_size R \<le> 1148" "linked_fn X R f" "call_fn f (prop_cell s) = (t, Some r)"
  obtains s' where "remote_with X fuel th rm R f s = (Returned r, s')" "handle_usable items fuel th rm s'" "prop_cell s' = t"
proof -
  have "\<not> on_owning_trustee th s" "\<not> caller_trustee th" using assms(1,2) by (auto simp: handle_usable_def fresh_start_def)
  then have "remote_with X fuel th rm R f s = remote_apply X fuel th rm R f s" by (simp add: remote_with_def remote_apply_def)
  then show ?thesis using apply_next[OF assms] that by metis
qed

lemma launch_next:
  assumes f: "fresh_start items pitems X th tid q p fuel" and u: "handle_usable items fuel th rm s"
    and s: "pool_ok pitems s" "1 \<le> prop_arcs s"
    and R: "wf_ret R" "ret_size R \<le> 1148" and l: "linked_fn X R g" and c: "call_fn g (prop_cell s) = (t, Some r)"
  obtains s' where "remote_launch X fuel rm R g s = (Returned r, s')" "handle_usable items fuel th rm s'" "prop_cell s' = t"
proof -
  have lq: "launch_queues items X pitems"
    using f by (intro launch_queues.intro worker_queue.intro) (simp_all add: fresh_start_def)
  have g: "fits (fv g) 0" "vt_out X (fn_vtable (fv g)) = Some (VTABLE (fn_size (fv g)) (fn_align (fv g)) (apply_adapter R (body g)))"
    using l by (auto simp: linked_fn_def)
  have h: "calm items s" "r_chan rm \<in> set (registered items s)" "distance items s + 2 \<le> fuel"
    using u distance_registered[of items s] by (auto simp: handle_usable_def)
  obtain s' where s': "remote_launch X fuel rm R g s = (Returned r, s')" "prop_cell s' = t" "calm items s'"
    "op_frame items (r_chan rm) s s'"
    using launch_queues.delegate_launch[OF lq h(1,2) s g(1) wf_ret_codes[OF R(1)] R(2) g(2) c h(3)] by (auto simp: remote_launch_def)
  have "registered items s' = registered items s" using s'(4) by (simp add: op_frame_def)
  then have "handle_usable items fuel th rm s'" using u s'(3) op_frame_owner[OF s'(4)] by (simp add: handle_usable_def)
  then show ?thesis using that s'(1,2) by blast
qed

section \<open>The programs\<close>

text \<open>Both functions applied in turn on a fresh trust, as pinning.rs does.\<close>

definition pinning_main ::
    "(u64, 'q, 'p) world \<Rightarrow> nat \<Rightarrow> caller \<Rightarrow> usize \<Rightarrow> u64 \<Rightarrow> 'q \<Rightarrow> 'p \<Rightarrow> 'pin \<Rightarrow> u64 \<Rightarrow> u64 \<Rightarrow> u64 reply" where
  "pinning_main X fuel th tid b q p pin a1 a2 =
     (let tr = trust_entrust_with_pin X 0 tid b q p pin;
          (rm, s) = trust_inner tr;
          (_, s) = remote_apply X fuel th rm unit_ret (bare_fn a1 incr) s;
          (v, s) = remote_apply X fuel th rm u64_ret (bare_fn a2 get) s
      in v)"

text \<open>A local trust, a latched one and a remote one, as in basic\_usage.rs.\<close>

definition basic_usage_main ::
    "(u32, 'q, 'p) world \<Rightarrow> nat \<Rightarrow> caller \<Rightarrow> usize \<Rightarrow> u64 \<Rightarrow> 'q \<Rightarrow> 'p \<Rightarrow> u64 \<Rightarrow> u64 \<Rightarrow> u32 reply \<times> u32 reply \<times> u64 reply" where
  "basic_usage_main X fuel th tid b q p a1 a2 =
     (let (result, _) = local_apply (\<lambda>x. (x + 1, Some (x + 1))) (local_entrust 42);
          (latch_result, _) = lock_apply (section_of (\<lambda>x. (x + 10, x + 10))) (local_entrust (latch_new 100));
          (rm, s) = remote_entrust X 200 tid b q p;
          (_, s) = remote_apply X fuel th rm unit_ret (bare_fn a1 incr) s;
          (remote_result, s) = remote_apply X fuel th rm u64_ret (bare_fn a2 get) s
      in (result, latch_result, remote_result))"

text \<open>Launches, as in launch\_test.rs: the closures take the latch, and sleep and print before.\<close>

definition u32_ret :: "u32 ret_type" where
  "u32_ret = \<lparr> ret_size = 4, ret_enc = le_bytes 4, ret_dec = dec_word \<rparr>"

definition launch_test_main ::
    "(u32 Latch, 'q, 'p) world \<Rightarrow> nat \<Rightarrow> caller \<Rightarrow> usize \<Rightarrow> u64 \<Rightarrow> 'q \<Rightarrow> 'p \<Rightarrow> u64 \<Rightarrow> u64 \<Rightarrow>
     u32 reply \<times> u32 reply \<times> u32 reply" where
  "launch_test_main X fuel th tid b q p a1 a2 =
     (let (rm, s) = remote_entrust X (latch_new 0) tid b q p;
          (result, s) = remote_launch X fuel rm u32_ret (bare_fn a1 (with_guard (\<lambda>g. (g + 1, g + 1)))) s;
          (val, s) = remote_with X fuel th rm u32_ret (bare_fn a2 (with_guard (\<lambda>g. (g, g)))) s;
          (res_local, _) = local_launch (with_guard (\<lambda>g. (g + 1, g + 1))) (local_entrust (latch_new 10))
      in (result, val, res_local))"

text \<open>A closure that calls \<open>apply\<close> on a clone of its own trust, as in recursive\_apply.rs: it runs on the
  trustee's thread, in a system that has started with thread id \<open>tid\<close>.\<close>

definition recursive_body ::
    "(usize, 'q, 'p) world \<Rightarrow> remote \<Rightarrow> u64 \<Rightarrow> (usize, 'q, 'p) rt \<Rightarrow> u8 list \<Rightarrow> usize \<Rightarrow> usize \<times> usize option" where
  "recursive_body X clone a1 s env val =
     (let th = \<lparr> caller_id = trustee_id s, caller_trustee = True \<rparr>
      in case remote_apply X 0 th clone unit_ret (bare_fn a1 incr) (s\<lparr> prop_cell := val + 1 \<rparr>) of
           (Returned _, s') \<Rightarrow> (prop_cell s', Some (prop_cell s'))
         | (_, s') \<Rightarrow> (prop_cell s', None))"

text \<open>The second closure does so in a loop.\<close>

fun recursive_loop ::
    "(usize, 'q, 'p) world \<Rightarrow> remote \<Rightarrow> u64 \<Rightarrow> nat \<Rightarrow> (usize, 'q, 'p) rt \<Rightarrow> (usize, 'q, 'p) rt \<times> unit option" where
  "recursive_loop X clone a 0 s = (s, Some ())"
| "recursive_loop X clone a (Suc n) s =
     (case remote_apply X 0 \<lparr> caller_id = trustee_id s, caller_trustee = True \<rparr> clone unit_ret (bare_fn a incr) s of
        (Returned _, s') \<Rightarrow> recursive_loop X clone a n s'
      | (_, s') \<Rightarrow> (s', None))"

definition recursive_loop_body ::
    "(usize, 'q, 'p) world \<Rightarrow> remote \<Rightarrow> u64 \<Rightarrow> nat \<Rightarrow> (usize, 'q, 'p) rt \<Rightarrow> u8 list \<Rightarrow> usize \<Rightarrow> usize \<times> unit option" where
  "recursive_loop_body X clone a iters s env val =
     (let (s', r) = recursive_loop X clone a iters (s\<lparr> prop_cell := val \<rparr>) in (prop_cell s', r))"

definition recursive_main ::
    "(usize, 'q, 'p) world \<Rightarrow> nat \<Rightarrow> caller \<Rightarrow> usize \<Rightarrow> u64 \<Rightarrow> u64 \<Rightarrow> u64 \<Rightarrow> 'q \<Rightarrow> 'p \<Rightarrow>
     fn_value \<Rightarrow> fn_value \<Rightarrow> u64 \<Rightarrow> u64 \<Rightarrow> usize reply \<times> usize" where
  "recursive_main X fuel th tid b b1 b2 q p v1 v2 a1 a2 =
     (let (rm, s) = remote_entrust X 0 tid b q p;
          (clone, s) = remote_clone X b1 rm s;
          (result, s) = remote_apply X fuel th rm u64_ret \<lparr> fv = v1, body = recursive_body X clone a1 s \<rparr> s;
          (clone2, s) = remote_clone X b2 rm s;
          (_, s) = remote_apply X fuel th rm unit_ret \<lparr> fv = v2, body = recursive_loop_body X clone2 a2 1000000 s \<rparr> s
      in (result, prop_cell s))"

lemma incr_get_run:
  fixes v :: "'w::len word"
  assumes f: "fresh_start items pitems X th tid q p fuel" and e: "remote_entrust X v tid b q p = (rm, s)"
    and l: "linked_bare X unit_ret a1 incr" "linked_bare X u64_ret a2 get"
  obtains s1 s2 where "remote_apply X fuel th rm unit_ret (bare_fn a1 incr) s = (Returned (), s1)"
    "remote_apply X fuel th rm u64_ret (bare_fn a2 get) s1 = (Returned (ucast (v + 1)), s2)"
proof -
  note u = fresh_usable[OF f e]
  obtain s1 where s1: "remote_apply X fuel th rm unit_ret (bare_fn a1 incr) s = (Returned (), s1)"
    "handle_usable items fuel th rm s1" "prop_cell s1 = v + 1"
    by (rule apply_next[OF f u(1) _ _ linked_bareD[OF l(1)], of "v + 1" "()"]) (simp_all add: u(2) incr_def)
  obtain s2 where "remote_apply X fuel th rm u64_ret (bare_fn a2 get) s1 = (Returned (ucast (v + 1)), s2)"
    by (rule apply_next[OF f s1(2) _ _ linked_bareD[OF l(2)], of "v + 1" "ucast (v + 1)"]) (simp_all add: s1(3) get_def)
  then show ?thesis using that s1(1) by blast
qed

lemma pinning_prints:
  assumes f: "fresh_start items pitems X th tid q p fuel"
    and l: "linked_bare X unit_ret a1 incr" "linked_bare X u64_ret a2 get"
  shows "pinning_main X fuel th tid b q p pin a1 a2 = Returned 1"
proof -
  obtain rm s where e: "remote_entrust X 0 tid b q p = (rm, s)" by (rule prod.exhaust)
  have t: "trust_inner (trust_entrust_with_pin X 0 tid b q p pin) = (rm, s)"
    using e by (simp add: trust_entrust_with_pin_def remote_entrust_def split_beta)
  obtain s1 s2 where "remote_apply X fuel th rm unit_ret (bare_fn a1 incr) s = (Returned (), s1)"
    "remote_apply X fuel th rm u64_ret (bare_fn a2 get) s1 = (Returned (ucast (0 + 1 :: u64)), s2)"
    by (rule incr_get_run[OF f e l])
  then show ?thesis by (simp add: pinning_main_def t)
qed

lemma basic_usage_prints:
  assumes f: "fresh_start items pitems X th tid q p fuel"
    and l: "linked_bare X unit_ret a1 incr" "linked_bare X u64_ret a2 get"
  shows "basic_usage_main X fuel th tid b q p a1 a2 = (Returned 43, Returned 110, Returned 201)"
proof -
  obtain rm s where e: "remote_entrust X 200 tid b q p = (rm, s)" by (rule prod.exhaust)
  obtain s1 s2 where "remote_apply X fuel th rm unit_ret (bare_fn a1 incr) s = (Returned (), s1)"
    "remote_apply X fuel th rm u64_ret (bare_fn a2 get) s1 = (Returned (ucast (200 + 1 :: u32)), s2)"
    by (rule incr_get_run[OF f e l])
  then show ?thesis
    by (simp add: basic_usage_main_def e local_apply_def local_call_def local_entrust_def latch_new_def lock_apply_def
        lock_cases section_of_def through_guard_def)
qed

lemma u32_ret_wf [simp]: "wf_ret u32_ret" "ret_size u32_ret = 4"
  using u32_layout.layout_axioms by (simp_all add: wf_ret_def u32_ret_def)

lemma with_guard_free: "\<not> locked l \<Longrightarrow> with_guard f l = (l\<lparr> latched := fst (f (latched l)) \<rparr>, Some (snd (f (latched l))))"
  by (cases l) (simp add: with_guard_def lock_cases latch_guard_drop_def split_beta)

lemma launch_test_asserts:
  assumes f: "fresh_start items pitems X th tid q p fuel"
    and l: "linked_bare X u32_ret a1 (with_guard (\<lambda>g. (g + 1, g + 1)))" "linked_bare X u32_ret a2 (with_guard (\<lambda>g. (g, g)))"
  shows "launch_test_main X fuel th tid b q p a1 a2 = (Returned 1, Returned 1, Returned 11)"
proof -
  obtain rm s where e: "remote_entrust X (latch_new 0) tid b q p = (rm, s)" by (rule prod.exhaust)
  note u = fresh_usable[OF f e]
  obtain s1 where s1: "remote_launch X fuel rm u32_ret (bare_fn a1 (with_guard (\<lambda>g. (g + 1, g + 1)))) s = (Returned 1, s1)"
    "handle_usable items fuel th rm s1" "prop_cell s1 = latch_new 1"
    by (rule launch_next[OF f u(1,3,4) _ _ linked_bareD[OF l(1)], of "latch_new 1" 1])
      (simp_all add: u(2) with_guard_free latch_new_def)
  obtain s2 where "remote_with X fuel th rm u32_ret (bare_fn a2 (with_guard (\<lambda>g. (g, g)))) s1 = (Returned 1, s2)"
    by (rule with_next[OF f s1(2) _ _ linked_bareD[OF l(2)], of "latch_new 1" 1])
      (simp_all add: s1(3) with_guard_free latch_new_def)
  then show ?thesis
    using s1(1) e by (simp add: launch_test_main_def local_launch_def local_call_def local_entrust_def with_guard_free latch_new_def)
qed

text \<open>The nested call takes the shortcut.\<close>

lemma recursive_body_runs:
  assumes "trustee_id s \<noteq> 0" "trustee_prop s"
  shows "recursive_body X clone a1 s env val = (val + 2, Some (val + 2))"
proof -
  have "on_owning_trustee \<lparr> caller_id = trustee_id s, caller_trustee = True \<rparr> (s\<lparr> prop_cell := val + 1 \<rparr>)"
    using assms by (simp add: on_owning_trustee_def)
  then show ?thesis by (simp add: recursive_body_def remote_apply_def run_inline_def incr_def Let_def)
qed

lemma recursive_loop_runs:
  assumes "trustee_id s \<noteq> 0" "trustee_prop s"
  shows "recursive_loop X clone a n s = (s\<lparr> prop_cell := prop_cell s + of_nat n \<rparr>, Some ())"
  using assms
proof (induction n arbitrary: s)
  case (Suc n)
  have "on_owning_trustee \<lparr> caller_id = trustee_id s, caller_trustee = True \<rparr> s"
    using Suc.prems by (simp add: on_owning_trustee_def)
  then show ?case using Suc.IH[of "s\<lparr> prop_cell := prop_cell s + 1 \<rparr>"] Suc.prems
    by (simp add: remote_apply_def run_inline_def incr_def algebra_simps)
qed simp

lemma recursive_loop_body_runs:
  "trustee_id s \<noteq> 0 \<Longrightarrow> trustee_prop s \<Longrightarrow> recursive_loop_body X clone a n s env val = (val + of_nat n, Some ())"
  by (simp add: recursive_loop_body_def recursive_loop_runs)

text \<open>An image with the two closures that call \<open>apply\<close>, of 64 and 48 bytes of captures.\<close>

definition rec_fn :: fn_value where
  "rec_fn = \<lparr> fn_size = 64, fn_align = 8, fn_env = replicate 64 0, fn_vtable = 0x8000 \<rparr>"

definition loop_fn :: fn_value where
  "loop_fn = \<lparr> fn_size = 48, fn_align = 8, fn_env = replicate 48 0, fn_vtable = 0x8800 \<rparr>"

definition rec_world :: "(usize, ClientPair list, nat list) world" where
  "rec_world = demo_world\<lparr> vt_out := (\<lambda>a.
     if a = 0x8000 then Some (VTABLE 64 8 (apply_adapter u64_ret (\<lambda>env val. (val + 2, Some (val + 2)))))
     else if a = 0x8800 then Some (VTABLE 48 8 (apply_adapter unit_ret (\<lambda>env val. (val + 1000000, Some ()))))
     else None) \<rparr>"

lemma rec_fresh: "fresh_start (\<lambda>q. q) (\<lambda>p. p) rec_world client_thread 7 [] [] 66"
  unfolding fresh_start_def rec_world_def demo_world_def client_thread_def
  by (simp, intro conjI list_queue.seg_queue_axioms)

section \<open>Properties\<close>

text \<open>C20. A closure may call its own trust: in recursive\_apply.rs the first closure runs on the trustee,
  increments the value and calls \<open>apply\<close> on a clone of the handle; the inner call takes the shortcut
  instead of waiting for the trustee, which would be itself, and the outer call returns 2. The second
  closure does so a million times, and leaves the value at 1000002.\<close>

theorem recursive_apply_returns:
  assumes "fresh_start items pitems X th tid q p fuel" "tid \<noteq> 0" "66 \<le> fuel"
    and "\<And>cl s. trustee_id s = tid \<Longrightarrow> trustee_prop s \<Longrightarrow> linked_fn X u64_ret \<lparr> fv = v1, body = recursive_body X cl a1 s \<rparr>"
    and "\<And>cl s. trustee_id s = tid \<Longrightarrow> trustee_prop s \<Longrightarrow>
      linked_fn X unit_ret \<lparr> fv = v2, body = recursive_loop_body X cl a2 1000000 s \<rparr>"
  shows "recursive_main X fuel th tid b b1 b2 q p v1 v2 a1 a2 = (Returned 2, 1000002)"
proof -
  obtain rm s where e: "remote_entrust X 0 tid b q p = (rm, s)" by (rule prod.exhaust)
  note u = fresh_usable[OF assms(1) e]
  have q: "seg_queue items (reg_push X) (reg_pop X)" using assms(1) by (simp add: fresh_start_def)
  have "registered items s = [r_chan rm]"
    using entrust_handle_registered[OF q, of b True "worker_start 0 tid q p"] assms(1) e
    by (auto simp: remote_entrust_def spawn_with_pin_def registered_def worker_start_def fresh_start_def split: prod.splits)
  then have reg: "length (registered items s) = 1" by simp
  obtain cl s1 where c: "remote_clone X b1 rm s = (cl, s1)" by (rule prod.exhaust)
  have 1: "handle_usable items fuel th rm s1" "length (registered items s1) = 2" "prop_cell s1 = 0" "trustee_id s1 = tid"
    "trustee_prop s1"
    using clone_next[OF assms(1) u(1) c] reg assms(3) u by simp_all
  let ?f = "\<lparr> fv = v1, body = recursive_body X cl a1 s1 \<rparr>"
  have cf: "call_fn ?f (prop_cell s1) = (2, Some 2)" using 1 assms(2) by (simp add: call_fn_def recursive_body_runs)
  obtain s2 where s2: "remote_apply X fuel th rm u64_ret ?f s1 = (Returned 2, s2)" "handle_usable items fuel th rm s2"
    "prop_cell s2 = 2" "op_frame items (r_chan rm) s1 s2"
    by (rule apply_next[OF assms(1) 1(1) u64_ret_wf(1) _ assms(4)[OF 1(4,5)] cf]) simp
  obtain cl2 s3 where c2: "remote_clone X b2 rm s2 = (cl2, s3)" by (rule prod.exhaust)
  have 3: "handle_usable items fuel th rm s3" "prop_cell s3 = 2" "trustee_id s3 = tid" "trustee_prop s3"
    using clone_next[OF assms(1) s2(2) c2] assms(3) s2(3,4) 1 by (simp_all add: op_frame_def)
  let ?g = "\<lparr> fv = v2, body = recursive_loop_body X cl2 a2 1000000 s3 \<rparr>"
  have cg: "call_fn ?g (prop_cell s3) = (1000002, Some ())" using 3 assms(2) by (simp add: call_fn_def recursive_loop_body_runs)
  obtain s4 where s4: "remote_apply X fuel th rm unit_ret ?g s3 = (Returned (), s4)" "prop_cell s4 = 1000002"
    by (rule apply_next[OF assms(1) 3(1) unit_ret_wf(1) _ assms(5)[OF 3(3,4)] cg]) simp
  show ?thesis unfolding recursive_main_def e Let_def prod.case c s2(1) c2 s4 by (rule refl)
qed

theorem recursive_apply_returns_witness:
  "recursive_main rec_world 66 client_thread 7 0x10000 0x20000 0x30000 [] [] rec_fn loop_fn 0x9000 0x9100 = (Returned 2, 1000002)"
proof (rule recursive_apply_returns[OF rec_fresh])
  have f: "fits rec_fn 0" "fits loop_fn 0"
    by (simp_all add: fits_def wf_fn_def rec_fn_def loop_fn_def args_pos_def env_pos_def boundary_offset_def align_up_def)
  fix cl and s :: "(usize, ClientPair list, nat list) rt"
  assume s: "trustee_id s = 7" "trustee_prop s"
  then have "recursive_body rec_world cl 0x9000 s = (\<lambda>env val. (val + 2, Some (val + 2)))"
    "recursive_loop_body rec_world cl 0x9100 1000000 s = (\<lambda>env val. (val + 1000000, Some ()))"
    by (intro ext, simp add: recursive_body_runs recursive_loop_body_runs)+
  then show "linked_fn rec_world u64_ret \<lparr> fv = rec_fn, body = recursive_body rec_world cl 0x9000 s \<rparr>"
    "linked_fn rec_world unit_ret \<lparr> fv = loop_fn, body = recursive_loop_body rec_world cl 0x9100 1000000 s \<rparr>"
    using f by (auto simp: linked_fn_def rec_world_def rec_fn_def loop_fn_def)
qed simp_all

end
