(* ===== verification/Client_Logs.thy ===== *)
theory Client_Logs
  imports Concurrent_Progress
begin

text \<open>
  Programs whose threads are clients of the concurrent system: what the log of a run says once the
  clients are idle, and runs in which idle clients call one after the other.
\<close>

section \<open>Idle clients\<close>

definition all_idle :: "('t, 'q, 'p, 'v, 'r) conc \<Rightarrow> bool" where
  "all_idle c \<longleftrightarrow> (\<forall>j. at c j = Idle)"

lemma idle_log:
  assumes "logged v log c" "all_idle c"
  shows "map snd (filter (\<lambda>e. fst e = j) log) = got c j"
  using assms by (force simp: logged_def all_idle_def)

lemma log_client: "logged v log c \<Longrightarrow> all_idle c \<Longrightarrow> e \<in> set log \<Longrightarrow> snd e \<in> set (got c (fst e))"
  by (subst idle_log[symmetric]) auto

text \<open>No launched closure is in the middle of its run, and none has overlapped another.\<close>

definition quiescent :: "('t, 'q, 'p, 'v, 'r) conc \<Rightarrow> bool" where
  "quiescent c \<longleftrightarrow> scanning c = None \<and> inside c = {} \<and> \<not> overlapped c"

text \<open>What a later log adds is what the clients have been returned since.\<close>

lemma idle_later:
  assumes "logged v log c" "logged v (log @ es) c'" "all_idle c" "all_idle c'"
  shows "got c' j = got c j @ map snd (filter (\<lambda>e. fst e = j) es)"
  using idle_log[OF assms(1,3), of j] idle_log[OF assms(2,4), of j] by simp

lemma replay_suffix: "replay ev log v t \<Longrightarrow> replay ev (log @ es) v t' \<Longrightarrow> replay ev es t t'"
  by (induction log arbitrary: v) auto

lemma logged_suffix: "logged v log c \<Longrightarrow> logged v (log @ es) c' \<Longrightarrow> replay op_eval es (prop_cell (sys c)) (prop_cell (sys c'))"
  by (rule replay_suffix[of op_eval log v]) (auto simp: logged_def)

text \<open>A log of clients below \<open>k\<close> splits into the logs of the clients.\<close>

lemma sum_by_client:
  fixes h :: "nat \<times> 'a \<Rightarrow> 'b :: comm_monoid_add"
  shows "\<forall>e \<in> set log. fst e < k \<Longrightarrow> (\<Sum>e \<leftarrow> log. h e) = (\<Sum>j < k. \<Sum>e \<leftarrow> filter (\<lambda>e. fst e = j) log. h e)"
proof (induction log)
  case (Cons e log)
  have one: "(\<Sum>j < k. if fst e = j then h e else 0) = h e"
    using Cons.prems sum.delta'[of "{..<k}" "fst e" "\<lambda>_. h e"] by simp
  have "(\<Sum>x \<leftarrow> filter (\<lambda>x. fst x = j) (e # log). h x) = (if fst e = j then h e else 0) + (\<Sum>x \<leftarrow> filter (\<lambda>x. fst x = j) log. h x)" for j
    by simp
  then show ?case using Cons one by (simp add: sum.distrib)
qed simp

section \<open>Calls in turn\<close>

fun calls_logged :: "(nat \<times> 'op) list \<Rightarrow> (nat \<Rightarrow> 'op list) \<Rightarrow> nat \<Rightarrow> 'op list" where
  "calls_logged [] g = g"
| "calls_logged ((j, x) # ys) g = calls_logged ys (g(j := g j @ [x]))"

lemma calls_logged_other: "j \<notin> fst ` set ys \<Longrightarrow> calls_logged ys g j = g j"
  by (induction ys arbitrary: g) auto

lemma calls_logged_once: "distinct (map fst ys) \<Longrightarrow> (j, x) \<in> set ys \<Longrightarrow> calls_logged ys g j = g j @ [x]"
proof (induction ys arbitrary: g)
  case (Cons z ys)
  obtain i y where z: "z = (i, y)" by (rule prod.exhaust)
  have i: "i \<notin> fst ` set ys" using Cons.prems(1) z by simp
  show ?case
  proof (cases "j = i")
    case True
    then have "x = y" using Cons.prems(2) i z by force
    then show ?thesis using True i by (simp add: z calls_logged_other)
  next
    case False
    have ih: "calls_logged ys (g(i := g i @ [y])) j = (g(i := g i @ [y])) j @ [x]"
      by (rule Cons.IH) (use Cons.prems z False in auto)
    show ?thesis unfolding z calls_logged.simps ih using False by simp
  qed
qed simp

text \<open>Handles opened one after the other.\<close>

fun open_handles :: "('t, 'q, 'p) world \<Rightarrow> nat \<Rightarrow> ('t, 'q, 'p) rt \<Rightarrow> ('t, 'q, 'p) rt" where
  "open_handles X 0 s = s"
| "open_handles X (Suc n) s = snd (entrust_handle X 0x10000 False (open_handles X n s))"

lemma open_handles_chans: "n_chans (open_handles X n s) = n_chans s + n"
  by (induction n) (simp_all add: entrust_handle_def new_chan_def register_def Let_def)

lemma open_handles_reachable:
  "conc_reachable items pitems X B v c \<Longrightarrow> conc_reachable items pitems X B v (c\<lparr> sys := open_handles X n (sys c) \<rparr>)"
proof (induction n)
  case (Suc n)
  from conc_reachable_opens[OF Suc.IH[OF Suc.prems], of "0x10000" False] show ?case by simp
qed simp

definition opened :: "('t, 'q, 'p) world \<Rightarrow> nat \<Rightarrow> 't \<Rightarrow> 'q \<Rightarrow> 'p \<Rightarrow> ('t, 'q, 'p, 'v, 'r) conc" where
  "opened X n v q p = (let c = conc_start v 7 q p in c\<lparr> sys := open_handles X n (sys c) \<rparr>)"

lemma opened_simps [simp]:
  "at (opened X n v q p) j = Idle" "scanning (opened X n v q p) = None" "got (opened X n v q p) j = []"
  "n_chans (sys (opened X n v q p)) = n" "all_idle (opened X n v q p)" "quiescent (opened X n v q p)"
  by (simp_all add: opened_def conc_start_def worker_start_def open_handles_chans all_idle_def quiescent_def Let_def)

lemma opened_reachable:
  "items q = [] \<Longrightarrow> pitems p = [] \<Longrightarrow> conc_reachable items pitems X B v (opened X n v q p)"
  unfolding opened_def Let_def by (intro open_handles_reachable conc_reachable.start)

context conc_system
begin

text \<open>Clients that are done and have not launched anything have overlapped nothing.\<close>

lemma launch_free:
  assumes "conc_reachable items pitems X B v c" "all_idle c" "\<And>j x. x \<in> set (map fst (got c j)) \<Longrightarrow> op_tag x \<noteq> Launch"
  shows "\<not> overlapped c"
proof -
  have "\<not> launch_issued c" using assms(2,3) by (auto simp: launch_issued_def issued_def all_idle_def)
  then show ?thesis using reachable_entered[OF assms(1)] by blast
qed

lemma calls_in_turn:
  fixes c :: "('t, 'q, 'p, 'v, 'r) conc" and ys :: "(nat \<times> ('t, 'v, 'r) client_op) list"
  assumes "simulated v c" "quiescent c" "all_idle c"
    and "list_all (\<lambda>(j, x). j < n_chans (sys c) \<and> sendable X B x \<and> op_tag x \<noteq> Launch) ys"
  shows "\<exists>c'. (conc_step X B)\<^sup>*\<^sup>* c c' \<and> simulated v c' \<and> quiescent c' \<and> all_idle c' \<and>
    n_chans (sys c') = n_chans (sys c) \<and> (\<lambda>j. map fst (got c' j)) = calls_logged ys (\<lambda>j. map fst (got c j))"
  using assms
proof (induction ys arbitrary: c)
  case Nil
  then show ?case by (intro exI[of _ c]) simp
next
  case (Cons y ys)
  obtain j x where y: "y = (j, x)" by (rule prod.exhaust)
  obtain c1 a where c1: "(conc_step X B)\<^sup>*\<^sup>* c c1" "simulated v c1" "quiescent c1" "at c1 = at c"
    "got c1 = (got c)(j := got c j @ [(x, a)])" "n_chans (sys c1) = n_chans (sys c)"
    by (rule completes[OF Cons.prems(1), of j x]) (use Cons.prems y in \<open>auto simp: all_idle_def quiescent_def\<close>)
  have g: "(\<lambda>k. map fst (got c1 k)) = (\<lambda>k. map fst (got c k))(j := map fst (got c j) @ [x])"
    unfolding c1(5) by (rule ext) simp
  obtain c2 where c2: "(conc_step X B)\<^sup>*\<^sup>* c1 c2" "simulated v c2" "quiescent c2" "all_idle c2"
    "n_chans (sys c2) = n_chans (sys c1)" "(\<lambda>j. map fst (got c2 j)) = calls_logged ys (\<lambda>j. map fst (got c1 j))"
    using Cons.IH[OF c1(2,3)] Cons.prems c1(4,6) y by (auto simp: all_idle_def)
  show ?case
    by (rule exI[of _ c2]) (use c2 c1(6) g y rtranclp_trans[OF c1(1) c2(1)] in simp)
qed

end

end
