(* ===== verification/Counter_System.thy ===== *)
theory Counter_System
  imports Remote_Examples Client_Logs
begin

text \<open>
  The counter shared by threads (src/examples/remote_simple.rs) on the bytes of the channels: the
  main thread and the two it spawns are clients of the concurrent system, and what the program
  asserts holds under every interleaving of their calls with the worker.
\<close>

section \<open>The calls\<close>

text \<open>The results of the two functions; arithmetic wraps as in a release build, and the cast of the
  signed counter keeps its bits.\<close>

datatype counter_reply = Done | Got u64

definition counter_incr :: "u64 \<Rightarrow> u64 \<times> counter_reply option" where
  "counter_incr c = (c + 1, Some Done)"

definition counter_get :: "u64 \<Rightarrow> u64 \<times> counter_reply option" where
  "counter_get c = (c, Some (Got c))"

definition done_ret :: "counter_reply ret_type" where
  "done_ret = \<lparr> ret_size = 0, ret_enc = (\<lambda>_. []), ret_dec = (\<lambda>bs. if bs = [] then Some Done else None) \<rparr>"

definition got_ret :: "counter_reply ret_type" where
  "got_ret = \<lparr> ret_size = 8, ret_enc = (\<lambda>r. case r of Got v \<Rightarrow> le_bytes 8 v | Done \<Rightarrow> le_bytes 8 (0 :: u64)),
     ret_dec = (\<lambda>bs. map_option Got (dec_word bs)) \<rparr>"

lemma counter_codes: "codes done_ret Done" "codes got_ret (Got v)"
  using u64_layout.dec_enc by (simp_all add: codes_def done_ret_def got_ret_def)

definition incr_op :: "u64 \<Rightarrow> (u64, 'v, counter_reply) client_op" where
  "incr_op a = Op_apply done_ret (bare_fn a counter_incr)"

definition get_op :: "u64 \<Rightarrow> (u64, 'v, counter_reply) client_op" where
  "get_op a = Op_apply got_ret (bare_fn a counter_get)"

lemma counter_ops_differ [simp]: "incr_op a \<noteq> get_op b" "get_op b \<noteq> incr_op a"
  by (simp_all add: incr_op_def get_op_def done_ret_def got_ret_def)

lemma counter_evals [simp]:
  "op_eval (incr_op a) c = (c + 1, Value Done)" "op_eval (get_op a) c = (c, Value (Got c))"
  by (simp_all add: op_eval_def incr_op_def get_op_def counter_incr_def counter_get_def)

lemma counter_sendable:
  "linked_bare X done_ret a counter_incr \<Longrightarrow> sendable X B (incr_op a)"
  "linked_bare X got_ret a counter_get \<Longrightarrow> sendable X B (get_op a)"
  using linked_bareD counter_codes
  by (force simp: incr_op_def get_op_def result_ok_def counter_incr_def counter_get_def done_ret_def got_ret_def)+

section \<open>The threads\<close>

text \<open>The main thread's handle is the first channel, the clones its threads take are the second and
  third. Its first read, before it spawns them; both threads joined; and its last read.\<close>

type_synonym ('q, 'p, 'v) counter_conc = "(u64, 'q, 'p, 'v, counter_reply) conc"

definition counter_first :: "u64 \<Rightarrow> u64 \<Rightarrow> ('q, 'p, 'v) counter_conc \<Rightarrow> bool" where
  "counter_first a1 a2 c \<longleftrightarrow> all_idle c \<and> map fst (got c 0) = [incr_op a1, get_op a2] \<and> (\<forall>j > 0. got c j = [])"

definition counter_joined :: "u64 \<Rightarrow> u64 \<Rightarrow> nat \<Rightarrow> ('q, 'p, 'v) counter_conc \<Rightarrow> bool" where
  "counter_joined a1 a2 iter c \<longleftrightarrow>
     all_idle c \<and> map fst (got c 0) = [incr_op a1, get_op a2] \<and>
     map fst (got c 1) = replicate iter (incr_op a1) \<and> map fst (got c 2) = replicate iter (incr_op a1) \<and>
     (\<forall>j > 2. got c j = [])"

definition counter_read :: "u64 \<Rightarrow> ('q, 'p, 'v) counter_conc \<Rightarrow> ('q, 'p, 'v) counter_conc \<Rightarrow> counter_reply answer \<Rightarrow> bool" where
  "counter_read a2 c c' r \<longleftrightarrow> all_idle c' \<and> got c' = (got c)(0 := got c 0 @ [(get_op a2, r)])"

text \<open>The threads launch nothing.\<close>

lemma counter_tags [simp]: "op_tag (incr_op a) \<noteq> Launch" "op_tag (get_op a) \<noteq> Launch"
  by (simp_all add: incr_op_def get_op_def)

lemma counter_calls:
  "counter_first a1 a2 c \<Longrightarrow> x \<in> set (map fst (got c j)) \<Longrightarrow> op_tag x \<noteq> Launch"
  "counter_joined a1 a2 iter c \<Longrightarrow> x \<in> set (map fst (got c j)) \<Longrightarrow> op_tag x \<noteq> Launch"
proof -
  assume c: "counter_first a1 a2 c" and x: "x \<in> set (map fst (got c j))"
  then have "map fst (got c j) = (if j = 0 then [incr_op a1, get_op a2] else [])" by (simp add: counter_first_def)
  then show "op_tag x \<noteq> Launch" using x by (auto simp del: set_map split: if_splits)
next
  assume c: "counter_joined a1 a2 iter c" and x: "x \<in> set (map fst (got c j))"
  have "j = 0 \<or> j = 1 \<or> j = 2 \<or> 2 < j" by linarith
  then have "map fst (got c j) \<in> {[incr_op a1, get_op a2], replicate iter (incr_op a1), []}"
    using c unfolding counter_joined_def by auto
  then show "op_tag x \<noteq> Launch" using x by (auto simp del: set_map split: if_splits)
qed

lemma counter_read_calls:
  assumes "counter_joined a1 a2 iter c" "counter_read a2 c c' r" "x \<in> set (map fst (got c' j))"
  shows "op_tag x \<noteq> Launch"
proof -
  have "got c' j = (if j = 0 then got c 0 @ [(get_op a2, r)] else got c j)" using assms(2) by (simp add: counter_read_def)
  then have "x = get_op a2 \<or> x \<in> set (map fst (got c j))" using assms(3) by (auto split: if_splits)
  then show ?thesis using counter_calls(2)[OF assms(1)] counter_tags(2) by blast
qed

section \<open>What the log says\<close>

definition incrs :: "'op \<Rightarrow> ('op \<times> 'r) list \<Rightarrow> nat" where
  "incrs x xs = length (filter (\<lambda>y. fst y = x) xs)"

lemma incrs_fst: "incrs x xs = count_list (map fst xs) x"
  by (induction xs) (auto simp: incrs_def)

lemma count_replicate: "count_list (replicate n x) x = n"
  by (induction n) simp_all

text \<open>Only increments change the counter.\<close>

lemma replay_counter:
  assumes "replay op_eval log v t" "\<forall>e \<in> set log. fst (snd e) \<in> {incr_op a1, get_op a2}"
  shows "t = v + of_nat (incrs (incr_op a1) (map snd log))"
  using assms
proof (induction log arbitrary: v)
  case (Cons e log)
  obtain j x r where e: "e = (j, x, r)" by (rule prod_cases3)
  consider "x = incr_op a1" | "x = get_op a2" using Cons.prems(2) e by auto
  then show ?case
  proof cases
    case 1
    then show ?thesis using Cons.IH[of "v + 1"] Cons.prems by (simp add: e incrs_def add.assoc)
  next
    case 2
    then show ?thesis using Cons.IH[of v] Cons.prems by (simp add: e incrs_def)
  qed
qed (simp add: incrs_def)

lemma incrs_sum: "incrs x xs = (\<Sum>y \<leftarrow> xs. if fst y = x then 1 else 0)"
  by (induction xs) (auto simp: incrs_def)

lemma incrs_by_client:
  "\<forall>e \<in> set log. fst e < (k :: nat) \<Longrightarrow>
   incrs x (map snd log) = (\<Sum>j < k. incrs x (map snd (filter (\<lambda>e. fst e = j) log)))"
  using sum_by_client[of log k "\<lambda>e. if fst (snd e) = x then 1 else (0 :: nat)"] by (simp add: incrs_sum o_def)

lemma joined_value:
  assumes l: "logged v log c" and c: "counter_joined a1 a2 iter c"
  shows "prop_cell (sys c) = v + of_nat (1 + iter + iter)"
proof -
  have i: "all_idle c" and g: "map fst (got c 0) = [incr_op a1, get_op a2]" "map fst (got c 1) = replicate iter (incr_op a1)"
    "map fst (got c 2) = replicate iter (incr_op a1)" "\<And>j. 2 < j \<Longrightarrow> got c j = []"
    using c by (auto simp: counter_joined_def)
  have lt: "fst e < 3" if "e \<in> set log" for e
  proof (rule ccontr)
    assume "\<not> fst e < 3"
    then have "got c (fst e) = []" by (intro g(4)) simp
    then show False using log_client[OF l i that] by simp
  qed
  have "fst (snd e) \<in> {incr_op a1, get_op a2}" if e: "e \<in> set log" for e
  proof -
    have m: "fst (snd e) \<in> set (map fst (got c (fst e)))" using log_client[OF l i e] by auto
    consider "fst e = 0" | "fst e = 1" | "fst e = 2" using lt[OF e] by linarith
    then show ?thesis
      by cases (use m in \<open>simp_all only: g(1-3)\<close>, auto simp: set_replicate_conv_if split: if_splits)
  qed
  then have "prop_cell (sys c) = v + of_nat (incrs (incr_op a1) (map snd log))"
    using replay_counter[of log v "prop_cell (sys c)" a1 a2] l by (simp add: logged_def)
  moreover have "incrs (incr_op a1) (map snd log) = (\<Sum>j < 3. incrs (incr_op a1) (got c j))"
    using incrs_by_client[of log 3 "incr_op a1"] lt idle_log[OF l i] by simp
  moreover have "(\<Sum>j < 3. incrs (incr_op a1) (got c j)) = 1 + iter + iter"
    using g(1-3) by (simp add: incrs_fst count_replicate eval_nat_numeral)
  ultimately show ?thesis by (simp del: of_nat_add)
qed

text \<open>The read that follows is executed last.\<close>

lemma last_read:
  assumes l: "logged v log c" "logged v (log @ es) c'" and i: "all_idle c" and r: "counter_read a2 c c' r"
  shows "r = Value (Got (prop_cell (sys c)))"
proof -
  have i': "all_idle c'" and g: "got c' = (got c)(0 := got c 0 @ [(get_op a2, r)])" using r by (auto simp: counter_read_def)
  have f: "got c j @ map snd (filter (\<lambda>e. fst e = j) es) = got c' j" for j
    using idle_log[OF l(2) i', of j] idle_log[OF l(1) i, of j] by simp
  have "fst e = 0" if "e \<in> set es" for e
  proof (rule ccontr)
    assume n: "fst e \<noteq> 0"
    then have "map snd (filter (\<lambda>x. fst x = fst e) es) = []" using f[of "fst e"] g by simp
    then show False using that by (auto simp: filter_empty_conv)
  qed
  then have "filter (\<lambda>e. fst e = 0) es = es" by (simp add: filter_id_conv)
  then have "map snd es = [(get_op a2, r)]" using f[of 0] g by simp
  then obtain j where es: "es = [(j, get_op a2, r)]" by auto
  have "replay op_eval log v (prop_cell (sys c))" "replay op_eval (log @ es) v (prop_cell (sys c'))"
    using l by (simp_all add: logged_def)
  then have "replay op_eval es (prop_cell (sys c)) (prop_cell (sys c'))" by (rule replay_suffix)
  then show ?thesis by (simp add: es)
qed

lemma first_read:
  assumes l: "logged 0 log c" and c: "counter_first a1 a2 c"
  shows "snd (got c 0 ! 1) = Value (Got 1)"
proof -
  have i: "all_idle c" and g: "map fst (got c 0) = [incr_op a1, get_op a2]" "\<And>j. 0 < j \<Longrightarrow> got c j = []"
    using c by (auto simp: counter_first_def)
  obtain r1 r2 where r: "got c 0 = [(incr_op a1, r1), (get_op a2, r2)]" using g(1) by auto
  have "fst e = 0" if "e \<in> set log" for e using log_client[OF l i that] g(2)[of "fst e"] by force
  then have "filter (\<lambda>e. fst e = 0) log = log" by (simp add: filter_id_conv)
  then have "map snd log = [(incr_op a1, r1), (get_op a2, r2)]" using idle_log[OF l i, of 0] r by simp
  then obtain j1 j2 where "log = [(j1, incr_op a1, r1), (j2, get_op a2, r2)]" by auto
  then show ?thesis using l r by (simp add: logged_def)
qed

section \<open>The program\<close>

text \<open>C21. The counter shared by threads: whatever the interleaving of the steps of the three clients,
  the worker and the fibers, on the bytes of the channels, the read the main thread makes before it
  spawns the two threads returns 1, and the read it makes when both threads have made their
  \<open>iter\<close> increments and been joined returns 1 + 2 * \<open>iter\<close>; sums wrap as in a release build.\<close>

theorem counter_example:
  fixes c0 c c' :: "('q, 'p, 'v) counter_conc"
  assumes "seg_queue items (reg_push X) (reg_pop X)" "seg_queue pitems (pool_push X) (pool_pop X)"
    and "conc_reachable items pitems X B 0 c0" "counter_first a1 a2 c0"
    and "(conc_step X B)\<^sup>*\<^sup>* c0 c" "counter_joined a1 a2 iter c"
    and "(conc_step X B)\<^sup>*\<^sup>* c c'" "counter_read a2 c c' r"
  shows "snd (got c0 0 ! 1) = Value (Got 1) \<and> r = Value (Got (1 + of_nat iter * 2))"
proof -
  note sy = conc_systemI[OF assms(1,2)]
  note free = conc_system.launch_free[OF sy]
  have i0: "all_idle c0" using assms(4) by (simp add: counter_first_def)
  have "\<not> overlapped c0" by (rule free[OF assms(3) i0 counter_calls(1)[OF assms(4)]])
  then obtain log0 where "logged 0 log0 c0" by (rule conc_system.run_logs[OF sy assms(3) rtranclp.rtrancl_refl])
  then have 0: "snd (got c0 0 ! 1) = Value (Got 1)" using assms(4) by (rule first_read)
  have rc: "conc_reachable items pitems X B 0 c" by (rule conc_reachable_steps[OF assms(5,3)])
  have i: "all_idle c" using assms(6) by (simp add: counter_joined_def)
  have "all_idle c'" using assms(8) by (simp add: counter_read_def)
  then have "\<not> overlapped c'"
    by (intro free[OF conc_reachable_steps[OF assms(7) rc]] counter_read_calls[OF assms(6,8)])
  then obtain log es where log: "logged 0 log c" "logged 0 (log @ es) c'" by (rule conc_system.run_logs[OF sy rc assms(7)])
  have "r = Value (Got (prop_cell (sys c)))" by (rule last_read[OF log i assms(8)])
  moreover have "prop_cell (sys c) = 1 + of_nat iter * 2" using joined_value[OF log(1) assms(6)] by (simp add: algebra_simps)
  ultimately show ?thesis using 0 by simp
qed

section \<open>A run of the program\<close>

text \<open>The closures linked at two addresses, the three handles opened, then one increment per thread.\<close>

definition counter_world :: "(u64, ClientPair list, nat list) world" where
  "counter_world =
     \<lparr> vt_mut = (\<lambda>a. None),
       vt_out = (\<lambda>a. if a = 0x5000 then Some (VTABLE 0 1 (apply_adapter done_ret (\<lambda>env. counter_incr)))
         else if a = 0x6000 then Some (VTABLE 0 1 (apply_adapter got_ret (\<lambda>env. counter_get))) else None),
       vt_args = (\<lambda>a. None), prop_bytes = le_bytes 8,
       reg_push = list_push, reg_pop = list_pop, pool_push = list_push, pool_pop = list_pop \<rparr>"

lemma counter_queues:
  "seg_queue (\<lambda>q. q) (reg_push counter_world) (reg_pop counter_world)"
  "seg_queue (\<lambda>q. q) (pool_push counter_world) (pool_pop counter_world)"
  using list_queue.seg_queue_axioms by (simp_all add: counter_world_def)

lemma counter_links:
  "linked_bare counter_world done_ret 0x5000 counter_incr" "linked_bare counter_world got_ret 0x6000 counter_get"
  by (auto simp: linked_bare_def counter_world_def)

lemma counter_linked:
  "sendable counter_world B (incr_op 0x5000)" "sendable counter_world B (get_op 0x6000)"
  by (rule counter_sendable, rule counter_links)+

interpretation counter_conc: conc_system "\<lambda>q. q" counter_world "\<lambda>p. p" B for B :: "'v codec"
  by (rule conc_systemI[OF counter_queues])

text \<open>The main thread's two calls, an increment of each thread, and the last read.\<close>

theorem counter_example_witness:
  "\<exists>(c :: (ClientPair list, nat list, u64) counter_conc) c' r.
     conc_reachable (\<lambda>q. q) (\<lambda>p. p) counter_world demo_codec 0 c \<and> counter_joined 0x5000 0x6000 1 c \<and>
     (conc_step counter_world demo_codec)\<^sup>*\<^sup>* c c' \<and> counter_read 0x6000 c c' r \<and> r = Value (Got 3)"
proof -
  let ?B = demo_codec
  let ?i = "incr_op 0x5000 :: (u64, u64, counter_reply) client_op" and ?g = "get_op 0x6000 :: (u64, u64, counter_reply) client_op"
  let ?o = "opened counter_world 3 0 [] [] :: (ClientPair list, nat list, u64) counter_conc"
  have or: "conc_reachable (\<lambda>q. q) (\<lambda>p. p) counter_world ?B 0 ?o" by (rule opened_reachable) simp_all
  note st = counter_conc.reachable_simulated[OF or]
  obtain c0 where c0: "(conc_step counter_world ?B)\<^sup>*\<^sup>* ?o c0" "counter_conc.simulated ?B (0, []) c0" "quiescent c0"
    "all_idle c0" "n_chans (sys c0) = 3" "(\<lambda>j. map fst (got c0 j)) = calls_logged [(0, ?i), (0, ?g)] (\<lambda>j. [])"
    using counter_conc.calls_in_turn[OF st, where ys = "[(0, ?i), (0, ?g)]"] counter_linked[of ?B] by (auto simp: all_idle_def)
  obtain c where c: "(conc_step counter_world ?B)\<^sup>*\<^sup>* c0 c" "counter_conc.simulated ?B (0, []) c" "quiescent c"
    "all_idle c" "n_chans (sys c) = 3" "(\<lambda>j. map fst (got c j)) = calls_logged [(0, ?i), (0, ?g), (1, ?i), (2, ?i)] (\<lambda>j. [])"
    using counter_conc.calls_in_turn[OF c0(2-4), where ys = "[(1, ?i), (2, ?i)]"] counter_linked[of ?B] c0(5,6) by auto
  obtain c' r where c': "(conc_step counter_world ?B)\<^sup>*\<^sup>* c c'" "at c' = at c" "got c' = (got c)(0 := got c 0 @ [(?g, r)])"
    by (rule counter_conc.completes[OF c(2), of 0 ?g]) (use c(3-5) counter_linked(2)[of ?B] in \<open>auto simp: all_idle_def quiescent_def\<close>)
  have r0: "conc_reachable (\<lambda>q. q) (\<lambda>p. p) counter_world ?B 0 c0" by (rule conc_reachable_steps[OF c0(1) or])
  have "got c0 k = []" if "0 < k" for k using fun_cong[OF c0(6), of k] that by simp
  then have f: "counter_first 0x5000 0x6000 c0" using c0(4) fun_cong[OF c0(6), of 0] by (simp add: counter_first_def)
  have "got c k = []" if "2 < k" for k using fun_cong[OF c(6), of k] that by (simp split: if_splits)
  then have j: "counter_joined 0x5000 0x6000 1 c"
    using c(4) fun_cong[OF c(6), of 0] fun_cong[OF c(6), of 1] fun_cong[OF c(6), of 2] by (simp add: counter_joined_def)
  have l: "counter_read 0x6000 c c' r" using c'(2,3) c(4) by (simp add: counter_read_def all_idle_def)
  have r3: "r = Value (Got 3)" using counter_example[OF counter_queues r0 f c(1) j c'(1) l] by simp
  show ?thesis
    by (rule exI[of _ c], rule exI[of _ c'], rule exI[of _ r]) (intro conjI conc_reachable_steps[OF c(1) r0] j c'(1) l r3)
qed

end
