(* ===== verification/Text_Values.thy ===== *)
theory Text_Values
  imports Remote_Request
begin

text \<open>
  Text: how numbers are printed and strings are quoted by the formatting of the standard library,
  and strings as values that cross a slot. A Rust string is a pointer to the heap with a length;
  what the models rely on is that moving its bytes moves the string, so its representation is a
  result type that a theorem is given, and strings of a bounded length stored in place are one.
\<close>

section \<open>Numbers\<close>

text \<open>Decimal digits, as \<open>format!\<close> prints an integer, and the hexadecimal digits of an address.\<close>

fun show_nat :: "nat \<Rightarrow> string" where
  "show_nat n = (if n < 10 then [char_of (48 + n)] else show_nat (n div 10) @ [char_of (48 + n mod 10)])"

declare show_nat.simps [simp del]

definition hex_digit :: "nat \<Rightarrow> char" where
  "hex_digit n = (if n < 10 then char_of (48 + n) else char_of (87 + n))"

fun show_hex :: "nat \<Rightarrow> string" where
  "show_hex n = (if n < 16 then [hex_digit n] else show_hex (n div 16) @ [hex_digit (n mod 16)])"

declare show_hex.simps [simp del]

lemma length_show_nat: "n < 10 ^ k \<Longrightarrow> 0 < k \<Longrightarrow> length (show_nat n) \<le> k"
proof (induction k arbitrary: n)
  case (Suc k)
  show ?case
  proof (cases "n < 10")
    case False
    then have "0 < k" using Suc.prems(1) by (cases k) simp_all
    moreover have "n div 10 < 10 ^ k" using Suc.prems(1) by (simp add: less_mult_imp_div_less mult.commute)
    ultimately have "length (show_nat (n div 10)) \<le> k" using Suc.IH by blast
    then show ?thesis using False by (simp add: show_nat.simps[of n])
  qed (simp add: show_nat.simps[of n])
qed simp

section \<open>Strings in place\<close>

text \<open>A length, then the characters, then padding.\<close>

definition text_bytes :: "nat \<Rightarrow> string \<Rightarrow> u8 list" where
  "text_bytes n s = of_nat (length s) # map of_char s @ replicate (n - length s) 0"

definition text_of :: "u8 list \<Rightarrow> string option" where
  "text_of bs = (case bs of [] \<Rightarrow> None | b # bs \<Rightarrow> Some (map (\<lambda>b. char_of (unat b)) (take (unat b) bs)))"

lemma char_of_byte [simp]: "char_of (unat (of_char c :: u8)) = c"
proof -
  have "(of_char c :: u8) = of_nat (of_char c)" by (simp only: of_nat_of_char)
  moreover have "(of_char c :: nat) mod 256 = of_char c" by simp
  ultimately have "unat (of_char c :: u8) = of_char c" by (simp only: unat_of_nat) simp
  then show ?thesis by simp
qed

lemma text_of_bytes:
  assumes "length s \<le> n" "n < 256"
  shows "text_of (text_bytes n s) = Some s" "length (text_bytes n s) = Suc n"
  using assms by (simp_all add: text_of_def text_bytes_def unat_of_nat o_def)

definition inline_ret :: "nat \<Rightarrow> string ret_type" where
  "inline_ret n = \<lparr> ret_size = Suc n, ret_enc = text_bytes n, ret_dec = text_of \<rparr>"

lemma inline_codes: "length s \<le> n \<Longrightarrow> n < 256 \<Longrightarrow> codes (inline_ret n) s"
  by (simp add: codes_def inline_ret_def text_of_bytes)

section \<open>Quoting\<close>

text \<open>A string as \<open>Debug\<close> prints it (for the characters of ASCII; the others stand for themselves).\<close>

definition escape_char :: "char \<Rightarrow> string" where
  "escape_char c =
     (let n = of_char c :: nat
      in if n = 34 \<or> n = 92 then [char_of (92 :: nat), c]
         else if n = 0 then [char_of (92 :: nat), CHR ''0'']
         else if n = 9 then [char_of (92 :: nat), CHR ''t'']
         else if n = 10 then [char_of (92 :: nat), CHR ''n'']
         else if n = 13 then [char_of (92 :: nat), CHR ''r'']
         else if n < 32 \<or> n = 127 then char_of (92 :: nat) # ''u{'' @ show_hex n @ ''}''
         else [c])"

definition quoted :: "string \<Rightarrow> string" where
  "quoted s = CHR 0x22 # concat (map escape_char s) @ [CHR 0x22]"

lemma hex_digit_printable: "n < 16 \<Longrightarrow> 32 \<le> (of_char (hex_digit n) :: nat)"
  by (simp add: hex_digit_def)

lemma show_hex_printable: "c \<in> set (show_hex n) \<Longrightarrow> 32 \<le> (of_char c :: nat)"
proof (induction n rule: show_hex.induct)
  case (1 n)
  then show ?case using hex_digit_printable[of n] hex_digit_printable[of "n mod 16"]
    by (auto simp: show_hex.simps[of n] split: if_splits)
qed

lemma escape_printable: "x \<in> set (escape_char c) \<Longrightarrow> 32 \<le> (of_char x :: nat)"
  using show_hex_printable[of x] by (auto simp: escape_char_def Let_def split: if_splits)

text \<open>A quoted string is one line.\<close>

lemma quoted_line: "CHR 0x0A \<notin> set (quoted s)"
proof
  assume "CHR 0x0A \<in> set (quoted s)"
  then have "32 \<le> (of_char (CHR 0x0A) :: nat)" by (auto simp: quoted_def dest: escape_printable)
  then show False by simp
qed

end
