(* ===== verification/Bank.thy ===== *)
theory Bank
  imports Protocol Text_Values
begin

text \<open>
  The bank of src/examples/remote_complex.rs: a state that is entrusted to a remote trustee and
  changed by many clients at once. Its operations as functions, the invariants they keep, and what
  the channel protocol makes of them under concurrency. Amounts are 64-bit floating-point numbers:
  their operations are an argument, and what is assumed of them is that they are exact on integers
  of at most 53 bits.
\<close>

section \<open>Amounts\<close>

record 'f f64_ops =
  f_add :: "'f \<Rightarrow> 'f \<Rightarrow> 'f"
  f_sub :: "'f \<Rightarrow> 'f \<Rightarrow> 'f"
  f_mul :: "'f \<Rightarrow> 'f \<Rightarrow> 'f"
  f_lt :: "'f \<Rightarrow> 'f \<Rightarrow> bool"
  f_int :: "int \<Rightarrow> 'f"
  f_fixed2 :: "'f \<Rightarrow> string"

definition exact_range :: "int \<Rightarrow> bool" where
  "exact_range a \<longleftrightarrow> \<bar>a\<bar> \<le> 2 ^ 53"

definition f64_exact :: "'f f64_ops \<Rightarrow> bool" where
  "f64_exact F \<longleftrightarrow>
     (\<forall>a b. exact_range a \<longrightarrow> exact_range b \<longrightarrow>
        (exact_range (a + b) \<longrightarrow> f_add F (f_int F a) (f_int F b) = f_int F (a + b)) \<and>
        (exact_range (a - b) \<longrightarrow> f_sub F (f_int F a) (f_int F b) = f_int F (a - b)) \<and>
        (exact_range (a * b) \<longrightarrow> f_mul F (f_int F a) (f_int F b) = f_int F (a * b)) \<and>
        f_lt F (f_int F a) (f_int F b) = (a < b) \<and>
        (f_int F a = f_int F b \<longrightarrow> a = b))"

section \<open>The state and its operations\<close>

record 'f User =
  user_id :: u64
  user_name :: string
  balance :: 'f
  last_login :: u64

record 'f Transaction =
  t_from :: u64
  t_to :: u64
  t_amount :: 'f
  timestamp :: u64

record 'f BankState =
  users :: "u64 \<rightharpoonup> 'f User"
  transactions :: "'f Transaction list"
  next_user_id :: u64
  total_balance :: 'f

definition BankState_new :: "'f f64_ops \<Rightarrow> 'f BankState" where
  "BankState_new F = \<lparr> users = Map.empty, transactions = [], next_user_id = 1, total_balance = f_int F 0 \<rparr>"

text \<open>The counter of ids wraps at 64 bits, as in a release build.\<close>

definition create_user :: "'f f64_ops \<Rightarrow> string \<Rightarrow> 'f \<Rightarrow> 'f BankState \<Rightarrow> 'f BankState \<times> u64" where
  "create_user F name initial_balance st =
     (let uid = next_user_id st;
          user = \<lparr> user_id = uid, user_name = name, balance = initial_balance, last_login = 0 \<rparr>
      in (st\<lparr> next_user_id := uid + 1, total_balance := f_add F (total_balance st) initial_balance,
              users := (users st)(uid \<mapsto> user) \<rparr>, uid))"

definition not_found :: "u64 \<Rightarrow> string" where
  "not_found uid = ''User '' @ show_nat (unat uid) @ '' not found''"

definition upd_balance :: "u64 \<Rightarrow> ('f \<Rightarrow> 'f) \<Rightarrow> 'f BankState \<Rightarrow> 'f BankState" where
  "upd_balance uid g st =
     (case users st uid of
        Some u \<Rightarrow> st\<lparr> users := (users st)(uid \<mapsto> u\<lparr> balance := g (balance u) \<rparr>) \<rparr>
      | None \<Rightarrow> st)"

definition transfer :: "'f f64_ops \<Rightarrow> u64 \<Rightarrow> u64 \<Rightarrow> 'f \<Rightarrow> 'f BankState \<Rightarrow> 'f BankState \<times> (string + unit)" where
  "transfer F src dst amount st =
     (case users st src of
        None \<Rightarrow> (st, Inl (not_found src))
      | Some from_user \<Rightarrow>
          (case users st dst of
             None \<Rightarrow> (st, Inl (not_found dst))
           | Some to_user \<Rightarrow>
               if f_lt F (balance from_user) amount
               then (st, Inl (''Insufficient balance: '' @ f_fixed2 F (balance from_user)))
               else
                 (let st1 = upd_balance src (\<lambda>b. f_sub F b amount) st;
                      st2 = upd_balance dst (\<lambda>b. f_add F b amount) st1;
                      t = \<lparr> t_from = src, t_to = dst, t_amount = amount,
                            timestamp = of_nat (length (transactions st2)) \<rparr>
                  in (st2\<lparr> transactions := transactions st2 @ [t] \<rparr>, Inr ()))))"

section \<open>The operations clients send\<close>

datatype 'f bank_op = CreateUser string 'f | TransferOp u64 u64 'f
datatype bank_reply = UserId u64 | TransferResult "string + unit"

fun bank_eval :: "'f f64_ops \<Rightarrow> 'f bank_op \<Rightarrow> 'f BankState \<Rightarrow> 'f BankState \<times> bank_reply" where
  "bank_eval F (CreateUser name b) st = (case create_user F name b st of (st', uid) \<Rightarrow> (st', UserId uid))"
| "bank_eval F (TransferOp src dst amount) st =
     (case transfer F src dst amount st of (st', r) \<Rightarrow> (st', TransferResult r))"

section \<open>The invariant\<close>

text \<open>The ids below the next one are the users', and balances are integers that are not negative
  and add up to the total.\<close>

definition ledger :: "'f f64_ops \<Rightarrow> (u64 \<Rightarrow> int) \<Rightarrow> 'f BankState \<Rightarrow> bool" where
  "ledger F m st \<longleftrightarrow>
     (\<forall>uid u. users st uid = Some u \<longrightarrow> user_id u = uid \<and> balance u = f_int F (m uid)) \<and> (\<forall>uid. 0 \<le> m uid)"

definition bank_inv :: "'f f64_ops \<Rightarrow> nat \<Rightarrow> int \<Rightarrow> 'f BankState \<Rightarrow> bool" where
  "bank_inv F n T st \<longleftrightarrow>
     1 \<le> n \<and> unat (next_user_id st) = n \<and> total_balance st = f_int F T \<and> T \<le> 2 ^ 53 \<and>
     dom (users st) = {uid. 0 < unat uid \<and> unat uid < n} \<and>
     (\<exists>m. ledger F m st \<and> sum m (dom (users st)) = T) \<and>
     map timestamp (transactions st) = map of_nat [0..<length (transactions st)]"

lemma bank_invI:
  assumes "1 \<le> n" "unat (next_user_id st) = n" "total_balance st = f_int F T" "T \<le> 2 ^ 53"
    "dom (users st) = {uid. 0 < unat uid \<and> unat uid < n}" "ledger F m st" "sum m (dom (users st)) = T"
    "map timestamp (transactions st) = map of_nat [0..<length (transactions st)]"
  shows "bank_inv F n T st"
  using assms unfolding bank_inv_def by blast

lemma bank_inv_new: "bank_inv F 1 0 (BankState_new F)"
  by (auto simp: bank_inv_def ledger_def BankState_new_def intro: exI[of _ "\<lambda>_. 0"])

lemma member_le_total: "ledger F m st \<Longrightarrow> uid \<in> dom (users st) \<Longrightarrow> m uid \<le> sum m (dom (users st))"
  by (rule member_le_sum) (auto simp: ledger_def)

lemma f64_exactD:
  assumes "f64_exact F" "exact_range a" "exact_range b"
  shows "exact_range (a + b) \<Longrightarrow> f_add F (f_int F a) (f_int F b) = f_int F (a + b)"
    and "exact_range (a - b) \<Longrightarrow> f_sub F (f_int F a) (f_int F b) = f_int F (a - b)"
    and "exact_range (a * b) \<Longrightarrow> f_mul F (f_int F a) (f_int F b) = f_int F (a * b)"
    and "f_lt F (f_int F a) (f_int F b) = (a < b)"
  using assms unfolding f64_exact_def by blast+

lemma unat_Suc_word: "unat (w :: u64) + 1 < 2 ^ 64 \<Longrightarrow> unat (w + 1) = unat w + 1"
  by (simp add: unat_word_ariths)

lemma create_user_inv:
  assumes F: "f64_exact F" and inv: "bank_inv F n T st" and a: "0 \<le> a" "T + a \<le> 2 ^ 53" "n + 1 < 2 ^ 64"
  shows "bank_inv F (n + 1) (T + a) (fst (create_user F name (f_int F a) st))"
proof -
  obtain m where m: "ledger F m st" "sum m (dom (users st)) = T" using inv by (auto simp: bank_inv_def)
  let ?id = "next_user_id st" and ?m = "m(next_user_id st := a)"
  have n: "unat ?id = n" "1 \<le> n" and d: "dom (users st) = {uid. 0 < unat uid \<and> unat uid < n}"
    using inv by (auto simp: bank_inv_def)
  have new: "?id \<notin> dom (users st)" using n d by auto
  have T: "0 \<le> T" using m sum_nonneg[of "dom (users st)" m] by (auto simp: ledger_def)
  have id1: "unat (?id + 1) = n + 1" using unat_Suc_word[of ?id] n a(3) by simp
  have "insert ?id {uid. 0 < unat uid \<and> unat uid < n} = {uid. 0 < unat uid \<and> unat uid < n + 1}"
    using n by (auto simp: less_Suc_eq dest: unsigned_word_eqI)
  moreover have "ledger F ?m (fst (create_user F name (f_int F a) st))"
    using m(1) a(1) by (auto simp: ledger_def create_user_def Let_def)
  moreover have "sum ?m (insert ?id (dom (users st))) = T + a"
  proof -
    have "sum ?m (dom (users st)) = sum m (dom (users st))" by (rule sum.cong) (use new in auto)
    then show ?thesis using m(2) sum.insert[OF finite new, of ?m] by simp
  qed
  moreover have "f_add F (f_int F T) (f_int F a) = f_int F (T + a)"
    by (rule f64_exactD(1)[OF F]) (use T a in \<open>simp_all add: exact_range_def\<close>)
  ultimately show ?thesis
    using inv a id1 d by (intro bank_invI[where m = ?m]) (simp_all add: bank_inv_def create_user_def Let_def)
qed

lemma upd_balance_simps [simp]:
  "users st uid = Some u \<Longrightarrow> users (upd_balance uid g st) = (users st)(uid \<mapsto> u\<lparr> balance := g (balance u) \<rparr>)"
  "transactions (upd_balance uid g st) = transactions st" "next_user_id (upd_balance uid g st) = next_user_id st"
  "total_balance (upd_balance uid g st) = total_balance st" "dom (users (upd_balance uid g st)) = dom (users st)"
  by (auto simp: upd_balance_def split: option.splits)

lemma ledger_transactions: "ledger F m (st\<lparr> transactions := ts \<rparr>) = ledger F m st"
  by (simp add: ledger_def)

lemma ledger_upd:
  assumes "ledger F m st" "users st uid = Some u" "g (f_int F (m uid)) = f_int F b" "0 \<le> b"
  shows "ledger F (m(uid := b)) (upd_balance uid g st)"
  using assms by (auto simp: ledger_def)

text \<open>A transfer between known users with enough money moves it; every other one changes nothing.\<close>

lemma transfer_ledger:
  assumes F: "f64_exact F" and inv: "bank_inv F n T st" and m: "ledger F m st" "sum m (dom (users st)) = T"
    and u: "src \<in> dom (users st)" "dst \<in> dom (users st)" and a: "0 \<le> a" "a \<le> 2 ^ 53"
  shows "transfer F src dst (f_int F a) st =
     (if m src < a then (st, Inl (''Insufficient balance: '' @ f_fixed2 F (f_int F (m src))))
      else ((upd_balance dst (\<lambda>b. f_add F b (f_int F a)) (upd_balance src (\<lambda>b. f_sub F b (f_int F a)) st))
        \<lparr> transactions := transactions st @ [\<lparr> t_from = src, t_to = dst, t_amount = f_int F a,
            timestamp = of_nat (length (transactions st)) \<rparr>] \<rparr>, Inr ()))"
proof -
  obtain us ud where us: "users st src = Some us" "users st dst = Some ud" using u by auto
  have b: "balance us = f_int F (m src)" using m(1) us by (auto simp: ledger_def)
  have r: "0 \<le> m src" "m src \<le> 2 ^ 53"
    using member_le_total[OF m(1) u(1)] m inv by (auto simp: ledger_def bank_inv_def)
  have "f_lt F (f_int F (m src)) (f_int F a) = (m src < a)"
    by (rule f64_exactD(4)[OF F]) (use r a in \<open>simp_all add: exact_range_def\<close>)
  then show ?thesis using us b by (simp add: transfer_def Let_def)
qed

lemma transfer_moves:
  assumes F: "f64_exact F" and inv: "bank_inv F n T st" and m: "ledger F m st" "sum m (dom (users st)) = T"
    and u: "src \<in> dom (users st)" "dst \<in> dom (users st)" and a: "0 \<le> a" "a \<le> m src"
  defines "m1 \<equiv> m(src := m src - a)"
  shows "ledger F (m1(dst := m1 dst + a))
      (upd_balance dst (\<lambda>b. f_add F b (f_int F a)) (upd_balance src (\<lambda>b. f_sub F b (f_int F a)) st))"
    and "sum (m1(dst := m1 dst + a)) (dom (users st)) = T"
proof -
  let ?D = "dom (users st)" and ?st = "upd_balance src (\<lambda>b. f_sub F b (f_int F a)) st"
  have T: "T \<le> 2 ^ 53" and nn: "\<And>uid. 0 \<le> m uid" using inv m(1) by (auto simp: bank_inv_def ledger_def)
  have s1: "sum m1 ?D = T - a" using m(2) u(1) sum.remove[OF finite u(1), of m] sum.remove[OF finite u(1), of m1]
    by (simp add: m1_def)
  have r: "m src \<le> T" "0 \<le> m1 src" "0 \<le> m1 dst" using member_le_total[OF m(1) u(1)] m(2) a nn by (auto simp: m1_def)
  obtain us where us: "users st src = Some us" using u by auto
  have l1: "ledger F m1 ?st"
    unfolding m1_def by (rule ledger_upd[OF m(1) us]) (use F r T a nn[of src] in \<open>auto simp: exact_range_def intro!: f64_exactD(2)\<close>)
  have "m1 dst \<le> T - a" using member_le_total[OF l1, of dst] u(2) s1 by simp
  then have e: "f_add F (f_int F (m1 dst)) (f_int F a) = f_int F (m1 dst + a)"
    by (intro f64_exactD(1)[OF F]) (use r T a in \<open>auto simp: exact_range_def\<close>)
  have "dst \<in> dom (users ?st)" using u(2) by simp
  then obtain ud where ud: "users ?st dst = Some ud" by (blast dest: domD)
  show "ledger F (m1(dst := m1 dst + a)) (upd_balance dst (\<lambda>b. f_add F b (f_int F a)) ?st)"
    by (rule ledger_upd[OF l1 ud]) (use e r a in simp_all)
  show "sum (m1(dst := m1 dst + a)) ?D = T"
    using s1 sum.remove[OF finite u(2), of m1] sum.remove[OF finite u(2), of "m1(dst := m1 dst + a)"] by simp
qed

lemma transfer_inv:
  assumes F: "f64_exact F" and inv: "bank_inv F n T st" and a: "0 \<le> a" "a \<le> 2 ^ 53"
  shows "bank_inv F n T (fst (transfer F src dst (f_int F a) st))"
proof (cases "src \<in> dom (users st) \<and> dst \<in> dom (users st)")
  case True
  then have u: "src \<in> dom (users st)" "dst \<in> dom (users st)" by auto
  obtain m where m: "ledger F m st" "sum m (dom (users st)) = T" using inv by (auto simp: bank_inv_def)
  show ?thesis
  proof (cases "m src < a")
    case False
    let ?m = "m(src := m src - a)" and ?st = "upd_balance dst (\<lambda>b. f_add F b (f_int F a)) (upd_balance src (\<lambda>b. f_sub F b (f_int F a)) st)"
    note mv = transfer_moves[OF F inv m u a(1)]
    have "ledger F (?m(dst := ?m dst + a)) (?st\<lparr> transactions := ts \<rparr>)" for ts
      using mv(1) False by (simp add: ledger_transactions)
    moreover have "sum (?m(dst := ?m dst + a)) (dom (users st)) = T" using mv(2) False by simp
    ultimately show ?thesis
      using inv False unfolding transfer_ledger[OF F inv m u a]
      by (intro bank_invI[where m = "?m(dst := ?m dst + a)"]) (simp_all add: bank_inv_def)
  qed (use inv in \<open>simp add: transfer_ledger[OF F inv m u a]\<close>)
next
  case False
  then show ?thesis using inv by (auto simp: transfer_def split: option.splits)
qed

text \<open>A transfer does exactly one of four things: it refuses an unknown payer, an unknown payee
  or a payer without the money, and then changes nothing; or it takes the amount from the payer, gives
  it to the payee - one after the other, so that a transfer to oneself changes no balance - records
  it, and leaves everybody else alone.\<close>

lemma transfer_cases:
  assumes "f64_exact F" "bank_inv F n T st" "ledger F m st" "sum m (dom (users st)) = T" "0 \<le> a" "a \<le> 2 ^ 53"
  shows "if src \<notin> dom (users st) then transfer F src dst (f_int F a) st = (st, Inl (not_found src))
    else if dst \<notin> dom (users st) then transfer F src dst (f_int F a) st = (st, Inl (not_found dst))
    else if m src < a then fst (transfer F src dst (f_int F a) st) = st \<and> snd (transfer F src dst (f_int F a) st) \<noteq> Inr ()
    else snd (transfer F src dst (f_int F a) st) = Inr () \<and>
      ledger F (if src = dst then m else m(src := m src - a, dst := m dst + a)) (fst (transfer F src dst (f_int F a) st)) \<and>
      length (transactions (fst (transfer F src dst (f_int F a) st))) = Suc (length (transactions st))"
proof (cases "src \<in> dom (users st) \<and> dst \<in> dom (users st)")
  case True
  then have u: "src \<in> dom (users st)" "dst \<in> dom (users st)" by auto
  note tr = transfer_ledger[OF assms(1-4) u assms(5,6)]
  have "ledger F (if src = dst then m else m(src := m src - a, dst := m dst + a)) (fst (transfer F src dst (f_int F a) st))"
    if "\<not> m src < a"
  proof -
    let ?m = "m(src := m src - a)"
    have "?m(dst := ?m dst + a) = (if src = dst then m else m(src := m src - a, dst := m dst + a))" by auto
    then show ?thesis using transfer_moves(1)[OF assms(1-4) u assms(5)] that by (simp add: tr ledger_transactions)
  qed
  then show ?thesis using u by (simp add: tr)
next
  case False
  then show ?thesis by (auto simp: transfer_def split: option.splits)
qed

section \<open>Under concurrency\<close>

text \<open>Operations on integer amounts, what they deposit, and when they are in range.\<close>

fun deposit :: "int bank_op \<Rightarrow> int" where
  "deposit (CreateUser name a) = a"
| "deposit (TransferOp src dst a) = 0"

fun in_range :: "int bank_op \<Rightarrow> bool" where
  "in_range (CreateUser name a) \<longleftrightarrow> 0 \<le> a"
| "in_range (TransferOp src dst a) \<longleftrightarrow> 0 \<le> a \<and> a \<le> 2 ^ 53"

lemma deposit_nonneg: "in_range x \<Longrightarrow> 0 \<le> deposit x"
  by (cases x) auto

lemma deposits_nonneg: "\<forall>x \<in> set ops. in_range x \<Longrightarrow> 0 \<le> (\<Sum>x \<leftarrow> ops. deposit x)"
  by (auto intro!: sum_list_nonneg deposit_nonneg)

lemma bank_eval_inv:
  assumes F: "f64_exact F" and inv: "bank_inv F n T st" and x: "in_range x"
    and b: "T + deposit x \<le> 2 ^ 53" "n + 1 < 2 ^ 64"
  obtains n' where "n' \<le> n + 1" "bank_inv F n' (T + deposit x) (fst (bank_eval F (map_bank_op (f_int F) x) st))"
proof (cases x)
  case (CreateUser name a)
  then show ?thesis
    using create_user_inv[OF F inv, of a name] x b that[of "n + 1"] by (simp add: split_beta)
next
  case (TransferOp src dst a)
  then show ?thesis using transfer_inv[OF F inv, of a src dst] x that[of n] by (simp add: split_beta)
qed

lemma replay_bank_inv:
  assumes "f64_exact F" "bank_inv F n T v" "replay (bank_eval F) log v t"
    and "map (fst \<circ> snd) log = map (map_bank_op (f_int F)) ops" "\<forall>x \<in> set ops. in_range x"
    and "T + (\<Sum>x \<leftarrow> ops. deposit x) \<le> 2 ^ 53" "n + length ops < 2 ^ 64"
  shows "\<exists>n'. bank_inv F n' (T + (\<Sum>x \<leftarrow> ops. deposit x)) t"
  using assms(2-)
proof (induction ops arbitrary: log n T v)
  case Nil
  then show ?case by auto
next
  case (Cons x ops)
  then obtain j r log' where l: "log = (j, map_bank_op (f_int F) x, r) # log'"
    "map (fst \<circ> snd) log' = map (map_bank_op (f_int F)) ops" by (cases log) (auto simp: o_def)
  have le: "T + deposit x \<le> 2 ^ 53" using Cons.prems(4,5) deposits_nonneg[of ops] by simp
  obtain n' where n': "n' \<le> n + 1" "bank_inv F n' (T + deposit x) (fst (bank_eval F (map_bank_op (f_int F) x) v))"
    by (rule bank_eval_inv[OF assms(1) Cons.prems(1) _ le]) (use Cons.prems(4,6) in auto)
  show ?case
    using Cons.IH[OF n'(2) _ l(2)] Cons.prems n'(1) l(1) by (simp add: add.assoc)
qed

text \<open>Exact integers are an instance of such amounts.\<close>

definition int_ops :: "int f64_ops" where
  "int_ops = \<lparr> f_add = (+), f_sub = (-), f_mul = (*), f_lt = (<), f_int = (\<lambda>a. a), f_fixed2 = (\<lambda>a. show_nat (nat a) @ ''.00'') \<rparr>"

lemma int_ops_exact: "f64_exact int_ops"
  by (simp add: f64_exact_def int_ops_def)

text \<open>Alice with 1000 opens her account, then Bob with 500, and Alice pays Bob 300, from two clients.\<close>

definition demo_ops :: "int bank_op list" where
  "demo_ops = [CreateUser ''Alice'' 1000, CreateUser ''Bob'' 500, TransferOp 1 2 300]"

section \<open>Properties\<close>

text \<open>C23. The entrusted bank keeps its books under every interleaving of its clients: as long as
  amounts are not negative and the money paid in stays within what floating point represents
  exactly, the total is what has been paid in, the balances are not negative and add up to it, every
  user is filed under its id, and the transactions are numbered in order.\<close>

theorem bank_books_balance:
  assumes "f64_exact F" "reachable (bank_eval F) (BankState_new F) s"
    and "map (fst \<circ> snd) (executed s) = map (map_bank_op (f_int F)) ops" "\<forall>x \<in> set ops. in_range x"
    and "(\<Sum>x \<leftarrow> ops. deposit x) \<le> 2 ^ 53" "length ops < 2 ^ 63"
  shows "total_balance (property s) = f_int F (\<Sum>x \<leftarrow> ops. deposit x) \<and>
    (\<exists>m. (\<forall>uid u. users (property s) uid = Some u \<longrightarrow> user_id u = uid \<and> balance u = f_int F (m uid)) \<and>
      (\<forall>uid. 0 \<le> m uid) \<and> sum m (dom (users (property s))) = (\<Sum>x \<leftarrow> ops. deposit x)) \<and>
    map timestamp (transactions (property s)) = map of_nat [0..<length (transactions (property s))]"
proof -
  have "replay (bank_eval F) (executed s) (BankState_new F) (property s)"
    using reachable_inv[OF assms(2)] by (simp add: proto_inv_def)
  from replay_bank_inv[OF assms(1) bank_inv_new this assms(3,4)] assms(5,6)
  obtain n where "bank_inv F n (\<Sum>x \<leftarrow> ops. deposit x) (property s)" by auto
  then show ?thesis unfolding bank_inv_def ledger_def by blast
qed

theorem bank_books_balance_witness:
  "\<exists>s. reachable (bank_eval int_ops) (BankState_new int_ops) s \<and> total_balance (property s) = 1500 \<and>
     (\<exists>m. sum m (dom (users (property s))) = (1500 :: int))"
proof -
  have id: "map_bank_op (f_int int_ops) = (\<lambda>x. x)" using bank_op.map_id0 by (simp add: int_ops_def id_def fun_eq_iff)
  obtain s where s: "reachable (bank_eval int_ops) (BankState_new int_ops) s"
    "map (\<lambda>(j, x, r). (j, x)) (executed s) = zip [0, 1, 0] demo_ops"
    using sequential_run[of "bank_eval int_ops" "BankState_new int_ops" "zip [0, 1, 0] demo_ops"] by blast
  have "map (fst \<circ> snd) (executed s) = map snd (map (\<lambda>(j, x, r). (j, x)) (executed s))" by (simp add: o_def split_beta)
  then have o: "map (fst \<circ> snd) (executed s) = map (map_bank_op (f_int int_ops)) demo_ops"
    using s(2) by (simp add: id demo_ops_def)
  from bank_books_balance[OF int_ops_exact s(1) o] s(1) show ?thesis by (auto simp: demo_ops_def int_ops_def)
qed

end
