(* ===== verification/Bank_System.thy ===== *)
theory Bank_System
  imports Bank Client_Logs
begin

text \<open>
  The bank of src/examples/remote_complex.rs as it runs: the threads of \<open>main\<close> are clients of the
  concurrent system, their closures and serialised arguments cross the channels as bytes, and the
  books of the bank when every thread has been joined are the same under every interleaving.
\<close>

section \<open>The closures and their calls\<close>

text \<open>The argument types of the closures; a closure is only ever called with its own.\<close>

datatype 'f bank_arg = Name string | NameBalance string 'f | FromToAmount u64 u64 'f

definition open_account :: "'f f64_ops \<Rightarrow> int \<Rightarrow> u8 list \<Rightarrow> 'f BankState \<Rightarrow> 'f bank_arg \<Rightarrow> 'f BankState \<times> bank_reply option" where
  "open_account F amount env st w =
     (case w of
        Name name \<Rightarrow> (let (st', uid) = create_user F name (f_int F amount) st in (st', Some (UserId uid)))
      | _ \<Rightarrow> (st, None))"

definition open_with :: "'f f64_ops \<Rightarrow> u8 list \<Rightarrow> 'f BankState \<Rightarrow> 'f bank_arg \<Rightarrow> 'f BankState \<times> bank_reply option" where
  "open_with F env st w =
     (case w of
        NameBalance name b \<Rightarrow> (let (st', uid) = create_user F name b st in (st', Some (UserId uid)))
      | _ \<Rightarrow> (st, None))"

definition transferring :: "'f f64_ops \<Rightarrow> u8 list \<Rightarrow> 'f BankState \<Rightarrow> 'f bank_arg \<Rightarrow> 'f BankState \<times> bank_reply option" where
  "transferring F env st w =
     (case w of
        FromToAmount src dst amount \<Rightarrow>
          (let (st', r) = transfer F src dst amount st in (st', Some (TransferResult r)))
      | _ \<Rightarrow> (st, None))"

text \<open>The program image: where the five closures are linked, and how a \<open>Result\<close> with a string lies
  in memory; an id is its eight bytes.\<close>

record bank_image =
  i_alice :: u64
  i_bob :: u64
  i_charlie :: u64
  i_user :: u64
  i_transfer :: u64
  i_ret :: "bank_reply ret_type"

definition id_ret :: "bank_reply ret_type" where
  "id_ret = \<lparr> ret_size = 8, ret_enc = (\<lambda>r. case r of UserId u \<Rightarrow> le_bytes 8 u | TransferResult _ \<Rightarrow> le_bytes 8 (0 :: u64)),
     ret_dec = (\<lambda>bs. map_option UserId (dec_word bs)) \<rparr>"

type_synonym 'f bank_call = "('f BankState, 'f bank_arg, bank_reply) client_op"

definition bank_fn :: "u64 \<Rightarrow> (u8 list \<Rightarrow> 'f BankState \<Rightarrow> 'f bank_arg \<Rightarrow> 'f BankState \<times> bank_reply option) \<Rightarrow>
    ('f BankState, 'f bank_arg, bank_reply) client_fn_with" where
  "bank_fn a code = \<lparr> fvw = \<lparr> fn_size = 0, fn_align = 1, fn_env = [], fn_vtable = a \<rparr>, bodyw = code \<rparr>"

definition alice_call :: "'f f64_ops \<Rightarrow> bank_image \<Rightarrow> 'f bank_call" where
  "alice_call F I = Op_apply_with id_ret (bank_fn (i_alice I) (open_account F 1000)) (Name ''Alice'')"

definition bob_call :: "'f f64_ops \<Rightarrow> bank_image \<Rightarrow> 'f bank_call" where
  "bob_call F I = Op_apply_with id_ret (bank_fn (i_bob I) (open_account F 500)) (Name ''Bob'')"

definition charlie_call :: "'f f64_ops \<Rightarrow> bank_image \<Rightarrow> 'f bank_call" where
  "charlie_call F I = Op_apply_with id_ret (bank_fn (i_charlie I) (open_account F 200)) (Name ''Charlie'')"

definition user_call :: "'f f64_ops \<Rightarrow> bank_image \<Rightarrow> nat \<Rightarrow> 'f bank_call" where
  "user_call F I i = Op_apply_with id_ret (bank_fn (i_user I) (open_with F))
     (NameBalance (''ConcurrentUser'' @ show_nat i) (f_mul F (f_int F 100) (f_int F (int (i + 1)))))"

definition transfer_call :: "'f f64_ops \<Rightarrow> bank_image \<Rightarrow> u64 \<Rightarrow> u64 \<Rightarrow> 'f \<Rightarrow> 'f bank_call" where
  "transfer_call F I src dst amount =
     Op_apply_with (i_ret I) (bank_fn (i_transfer I) (transferring F)) (FromToAmount src dst amount)"

text \<open>The transfer a worker of the stress test makes in its \<open>j\<close>-th turn.\<close>

definition pick :: "'a \<Rightarrow> 'a \<Rightarrow> 'a \<Rightarrow> nat \<Rightarrow> 'a" where
  "pick a b c k = (if k mod 3 = 0 then a else if k mod 3 = 1 then b else c)"

definition stress_call :: "'f f64_ops \<Rightarrow> bank_image \<Rightarrow> u64 \<Rightarrow> u64 \<Rightarrow> u64 \<Rightarrow> nat \<Rightarrow> 'f bank_call" where
  "stress_call F I alice_id bob_id charlie_id j =
     transfer_call F I (pick alice_id bob_id charlie_id j) (pick alice_id bob_id charlie_id (j + 1))
       (f_int F (int (j mod 10 + 1)))"

section \<open>The threads\<close>

type_synonym ('f, 'q, 'p) bank_conc = "('f BankState, 'q, 'p, 'f bank_arg, bank_reply) conc"

text \<open>The main thread holds the first channel. It has opened three accounts, before it spawns the
  others.\<close>

definition bank_opened :: "'f f64_ops \<Rightarrow> bank_image \<Rightarrow> ('f, 'q, 'p) bank_conc \<Rightarrow> bool" where
  "bank_opened F I c \<longleftrightarrow>
     all_idle c \<and> map fst (got c 0) = [alice_call F I, bob_call F I, charlie_call F I] \<and> (\<forall>j > 0. got c j = [])"

definition returned_id :: "('f, 'q, 'p) bank_conc \<Rightarrow> nat \<Rightarrow> u64" where
  "returned_id c k = (case snd (got c 0 ! k) of Value (UserId u) \<Rightarrow> u | _ \<Rightarrow> 0)"

text \<open>Five threads open one account each and ten transfer in a loop over the three ids; all have
  been joined.\<close>

definition bank_joined :: "'f f64_ops \<Rightarrow> bank_image \<Rightarrow> nat \<Rightarrow> ('f, 'q, 'p) bank_conc \<Rightarrow> ('f, 'q, 'p) bank_conc \<Rightarrow> bool" where
  "bank_joined F I iter c0 c \<longleftrightarrow>
     all_idle c \<and> got c 0 = got c0 0 \<and>
     (\<forall>j \<in> {1..5}. map fst (got c j) = [user_call F I (j - 1)]) \<and>
     (\<forall>j \<in> {6..15}. map fst (got c j) =
        map (stress_call F I (returned_id c0 0) (returned_id c0 1) (returned_id c0 2)) [0..<iter]) \<and>
     (\<forall>j > 15. got c j = [])"

text \<open>The threads launch nothing.\<close>

lemma bank_tags [simp]:
  "op_tag (alice_call F I) \<noteq> Launch" "op_tag (bob_call F I) \<noteq> Launch" "op_tag (charlie_call F I) \<noteq> Launch"
  "op_tag (user_call F I k) \<noteq> Launch" "op_tag (transfer_call F I src dst a) \<noteq> Launch" "op_tag (stress_call F I u1 u2 u3 k) \<noteq> Launch"
  by (simp_all add: alice_call_def bob_call_def charlie_call_def user_call_def transfer_call_def stress_call_def)

lemma bank_calls:
  "bank_opened F I c0 \<Longrightarrow> x \<in> set (map fst (got c0 j)) \<Longrightarrow> op_tag x \<noteq> Launch"
  "bank_opened F I c0 \<Longrightarrow> bank_joined F I iter c0 c \<Longrightarrow> x \<in> set (map fst (got c j)) \<Longrightarrow> op_tag x \<noteq> Launch"
proof -
  assume c: "bank_opened F I c0"
  show first: "op_tag x \<noteq> Launch" if x: "x \<in> set (map fst (got c0 j))" for x j
  proof -
    have "map fst (got c0 j) = (if j = 0 then [alice_call F I, bob_call F I, charlie_call F I] else [])"
      using c by (simp add: bank_opened_def)
    then show ?thesis using x by (auto simp del: set_map split: if_splits)
  qed
  assume d: "bank_joined F I iter c0 c" and x: "x \<in> set (map fst (got c j))"
  consider "j = 0" | "j \<in> {1..5}" | "j \<in> {6..15}" | "15 < j" by force
  then show "op_tag x \<noteq> Launch"
  proof cases
    case 1
    then show ?thesis using d x first[of x 0] by (simp add: bank_joined_def)
  next
    case 2
    then have "map fst (got c j) = [user_call F I (j - 1)]" using d unfolding bank_joined_def by blast
    then show ?thesis using x by (simp del: set_map)
  next
    case 3
    then have "map fst (got c j) = map (stress_call F I (returned_id c0 0) (returned_id c0 1) (returned_id c0 2)) [0..<iter]"
      using d unfolding bank_joined_def by blast
    then have "x \<in> set (map (stress_call F I (returned_id c0 0) (returned_id c0 1) (returned_id c0 2)) [0..<iter])" using x by metis
    then show ?thesis by auto
  next
    case 4
    then show ?thesis using d x unfolding bank_joined_def by simp
  qed
qed

section \<open>What the calls do\<close>

lemma bank_evals:
  "op_eval (alice_call F I) st = (fst (create_user F ''Alice'' (f_int F 1000) st), Value (UserId (next_user_id st)))"
  "op_eval (bob_call F I) st = (fst (create_user F ''Bob'' (f_int F 500) st), Value (UserId (next_user_id st)))"
  "op_eval (charlie_call F I) st = (fst (create_user F ''Charlie'' (f_int F 200) st), Value (UserId (next_user_id st)))"
  "op_eval (transfer_call F I src dst amount) st =
     (fst (transfer F src dst amount st), Value (TransferResult (snd (transfer F src dst amount st))))"
  by (simp_all add: op_eval_def alice_call_def bob_call_def charlie_call_def transfer_call_def call_fn_with_def bank_fn_def
      open_account_def transferring_def create_user_def Let_def split_beta)

lemma user_eval:
  assumes "f64_exact F" "i < 5"
  shows "op_eval (user_call F I i) st =
    (fst (create_user F (''ConcurrentUser'' @ show_nat i) (f_int F (100 * int (i + 1))) st), Value (UserId (next_user_id st)))"
proof -
  have "f_mul F (f_int F 100) (f_int F (int (i + 1))) = f_int F (100 * int (i + 1))"
    by (rule f64_exactD(3)[OF assms(1)]) (use assms(2) in \<open>simp_all add: exact_range_def\<close>)
  then show ?thesis
    by (simp add: op_eval_def user_call_def call_fn_with_def bank_fn_def open_with_def create_user_def Let_def)
qed

text \<open>A thread of the stress test never pays itself.\<close>

lemma pick_differs: "distinct [a, b, c] \<Longrightarrow> pick a b c j \<noteq> pick a b c (j + 1)"
  by (auto simp: pick_def mod_Suc)

lemma pick_cases: "pick a b c j \<in> {a, b, c}"
  by (simp add: pick_def)

section \<open>What the log says\<close>

text \<open>The entries of the second part of a run: threads 1 to 5 open an account, 6 to 15 transfer.\<close>

definition opener :: "nat \<times> 'a \<Rightarrow> bool" where
  "opener e \<longleftrightarrow> fst e \<le> 5"

definition stress_entry :: "'f f64_ops \<Rightarrow> bank_image \<Rightarrow> nat \<times> 'f bank_call \<times> bank_reply answer \<Rightarrow> bool" where
  "stress_entry F I e \<longleftrightarrow>
     (opener e \<and> 1 \<le> fst e \<and> fst (snd e) = user_call F I (fst e - 1)) \<or>
     (\<not> opener e \<and> (\<exists>k. fst (snd e) = stress_call F I 1 2 3 k))"

definition paid_in :: "(nat \<times> 'a) list \<Rightarrow> int" where
  "paid_in es = (\<Sum>e \<leftarrow> es. if opener e then 100 * int (fst e) else 0)"

definition openers :: "(nat \<times> 'a) list \<Rightarrow> nat" where
  "openers es = (\<Sum>e \<leftarrow> es. if opener e then 1 else 0)"

definition paid :: "bank_reply answer \<Rightarrow> bool" where
  "paid a \<longleftrightarrow> a = Value (TransferResult (Inr ()))"

definition refused :: "'f f64_ops \<Rightarrow> bank_reply answer \<Rightarrow> bool" where
  "refused F a \<longleftrightarrow> (\<exists>b. a = Value (TransferResult (Inl (''Insufficient balance: '' @ f_fixed2 F b))))"

text \<open>A transfer between the first three accounts is paid or refused for want of money.\<close>

lemma stress_eval:
  assumes F: "f64_exact F" and inv: "bank_inv F n T st" and n: "4 \<le> n" and e: "op_eval (stress_call F I 1 2 3 k) st = (st', a)"
  shows "bank_inv F n T st'" "paid a \<or> refused F a"
    "length (transactions st') = length (transactions st) + (if paid a then 1 else 0)"
proof -
  let ?src = "pick 1 2 3 k :: u64" and ?dst = "pick 1 2 3 (k + 1) :: u64" and ?a = "int (k mod 10 + 1)"
  have r: "0 \<le> ?a" "?a \<le> 2 ^ 53" by (simp_all add: order_trans[of _ 10])
  have e': "st' = fst (transfer F ?src ?dst (f_int F ?a) st)" "a = Value (TransferResult (snd (transfer F ?src ?dst (f_int F ?a) st)))"
    using e by (simp_all add: stress_call_def bank_evals)
  have d: "dom (users st) = {uid. 0 < unat uid \<and> unat uid < n}" using inv by (simp add: bank_inv_def)
  have u: "x \<in> dom (users st)" if "x \<in> {1, 2, 3}" for x :: u64 unfolding d using that n by auto
  obtain m where m: "ledger F m st" "sum m (dom (users st)) = T" using inv by (auto simp: bank_inv_def)
  note t = transfer_ledger[OF F inv m u[OF pick_cases] u[OF pick_cases] r]
  show "bank_inv F n T st'" unfolding e' by (rule transfer_inv[OF F inv r])
  show "paid a \<or> refused F a" "length (transactions st') = length (transactions st) + (if paid a then 1 else 0)"
    unfolding e' t by (auto simp: paid_def refused_def)
qed

lemma open_eval:
  assumes F: "f64_exact F" and inv: "bank_inv F n T st" and a: "0 \<le> a" "T + a \<le> 2 ^ 53" "n + 1 < 2 ^ 64"
    and e: "op_eval x st = (fst (create_user F name (f_int F a) st), Value (UserId (next_user_id st)))" "op_eval x st = (st', r)"
  shows "bank_inv F (n + 1) (T + a) st'" "r = Value (UserId (of_nat n))" "transactions st' = transactions st"
proof -
  have "unat (next_user_id st) = n" using inv by (simp add: bank_inv_def)
  moreover have "of_nat (unat (next_user_id st)) = next_user_id st" by simp
  ultimately have "next_user_id st = of_nat n" by metis
  then show "bank_inv F (n + 1) (T + a) st'" "r = Value (UserId (of_nat n))" "transactions st' = transactions st"
    using create_user_inv[OF F inv a, of name] e by (auto simp: create_user_def Let_def)
qed

lemma stress_log:
  assumes "f64_exact F" "bank_inv F n T v" "4 \<le> n" "replay op_eval es v t" "\<forall>e \<in> set es. stress_entry F I e"
    and "T + paid_in es \<le> 2 ^ 53" "n + openers es < 2 ^ 64"
  shows "bank_inv F (n + openers es) (T + paid_in es) t \<and>
    map (snd \<circ> snd) (filter opener es) = map (\<lambda>k. Value (UserId (of_nat k))) [n..<n + openers es] \<and>
    (\<forall>e \<in> set es. \<not> opener e \<longrightarrow> paid (snd (snd e)) \<or> refused F (snd (snd e))) \<and>
    length (transactions t) = length (transactions v) + (\<Sum>e \<leftarrow> es. if paid (snd (snd e)) then 1 else 0)"
  using assms(2-)
proof (induction es arbitrary: n T v)
  case Nil
  then show ?case by (simp add: openers_def paid_in_def)
next
  case (Cons e es)
  obtain j x r where e: "e = (j, x, r)" by (rule prod_cases3)
  obtain v' where v: "op_eval x v = (v', r)" and rp: "replay op_eval es v' t" using Cons.prems(3) e by (cases "op_eval x v") auto
  have nn: "0 \<le> paid_in es" by (auto simp: paid_in_def intro!: sum_list_nonneg)
  show ?case
  proof (cases "opener e")
    case True
    then have j: "1 \<le> j" "j \<le> 5" and x: "x = user_call F I (j - 1)" using Cons.prems(4) by (auto simp: e stress_entry_def opener_def)
    have j5: "j - 1 < 5" and amt: "100 * int (j - 1 + 1) = 100 * int j" using j by simp_all
    have c: "paid_in (e # es) = 100 * int j + paid_in es" "openers (e # es) = Suc (openers es)"
      using True by (simp_all add: paid_in_def openers_def e)
    note o = open_eval[OF assms(1) Cons.prems(1) _ _ _ user_eval[OF assms(1) j5, of I v, folded x, unfolded amt] v]
    have b: "0 \<le> 100 * int j" "T + 100 * int j \<le> 2 ^ 53" "n + 1 < 2 ^ 64" using Cons.prems(5,6) nn by (simp_all add: c)
    have ih: "bank_inv F (n + 1 + openers es) (T + 100 * int j + paid_in es) t \<and>
      map (snd \<circ> snd) (filter opener es) = map (\<lambda>k. Value (UserId (of_nat k))) [n + 1..<n + 1 + openers es] \<and>
      (\<forall>e \<in> set es. \<not> opener e \<longrightarrow> paid (snd (snd e)) \<or> refused F (snd (snd e))) \<and>
      length (transactions t) = length (transactions v') + (\<Sum>e \<leftarrow> es. if paid (snd (snd e)) then 1 else 0)"
      by (rule Cons.IH[OF o(1)[OF b] _ rp]) (use Cons.prems c in simp_all)
    have r: "r = Value (UserId (of_nat n))" by (rule o(2)[OF b])
    then have np: "\<not> paid r" by (simp add: paid_def)
    have l: "[n..<n + openers (e # es)] = n # [n + 1..<n + 1 + openers es]" by (simp add: c upt_conv_Cons)
    have n: "n + openers (e # es) = n + 1 + openers es" by (simp add: c)
    have f: "map (snd \<circ> snd) (filter opener (e # es)) = Value (UserId (of_nat n)) # map (snd \<circ> snd) (filter opener es)"
      using True r by (simp add: e)
    show ?thesis unfolding l f unfolding n c(1) using ih np True o(3)[OF b] by (simp add: add.assoc del: upt_Suc) (simp add: e)
  next
    case False
    then obtain k where x: "x = stress_call F I 1 2 3 k" using Cons.prems(4) by (auto simp: e stress_entry_def)
    have c: "paid_in (e # es) = paid_in es" "openers (e # es) = openers es" using False by (simp_all add: paid_in_def openers_def)
    note s = stress_eval[OF assms(1) Cons.prems(1,2) v[unfolded x]]
    have ih: "bank_inv F (n + openers es) (T + paid_in es) t \<and>
      map (snd \<circ> snd) (filter opener es) = map (\<lambda>k. Value (UserId (of_nat k))) [n..<n + openers es] \<and>
      (\<forall>e \<in> set es. \<not> opener e \<longrightarrow> paid (snd (snd e)) \<or> refused F (snd (snd e))) \<and>
      length (transactions t) = length (transactions v') + (\<Sum>e \<leftarrow> es. if paid (snd (snd e)) then 1 else 0)"
      by (rule Cons.IH[OF s(1) Cons.prems(2) rp]) (use Cons.prems c in simp_all)
    then show ?thesis using s(2,3) False by (simp add: c o_def) (auto simp: e o_def)
  qed
qed

text \<open>The accounts of the main thread.\<close>

lemma opened_accounts:
  assumes F: "f64_exact F" and l: "logged (BankState_new F) log c" and c: "bank_opened F I c"
  shows "map snd (got c 0) = [Value (UserId 1), Value (UserId 2), Value (UserId 3)]"
    and "bank_inv F 4 1700 (prop_cell (sys c))" "transactions (prop_cell (sys c)) = []"
proof -
  have i: "all_idle c" and g: "map fst (got c 0) = [alice_call F I, bob_call F I, charlie_call F I]" "\<And>j. 0 < j \<Longrightarrow> got c j = []"
    using c by (auto simp: bank_opened_def)
  have "fst e = 0" if "e \<in> set log" for e using log_client[OF l i that] g(2)[of "fst e"] by force
  then have "filter (\<lambda>e. fst e = 0) log = log" by (simp add: filter_id_conv)
  then have m: "map snd log = got c 0" using idle_log[OF l i, of 0] by simp
  then have "map (fst \<circ> snd) log = [alice_call F I, bob_call F I, charlie_call F I]" using g(1) by (metis map_map)
  then obtain j1 r1 j2 r2 j3 r3 where log: "log = [(j1, alice_call F I, r1), (j2, bob_call F I, r2), (j3, charlie_call F I, r3)]"
    by (auto simp: map_eq_Cons_conv)
  obtain v1 v2 v3 where v: "op_eval (alice_call F I) (BankState_new F) = (v1, r1)" "op_eval (bob_call F I) v1 = (v2, r2)"
    "op_eval (charlie_call F I) v2 = (v3, r3)" "prop_cell (sys c) = v3"
    using l by (auto simp: logged_def log prod_eq_iff)
  note 1 = open_eval[OF F bank_inv_new _ _ _ bank_evals(1)[of F I] v(1), simplified]
  note 2 = open_eval[OF F 1(1) _ _ _ bank_evals(2)[of F I] v(2), simplified]
  note 3 = open_eval[OF F 2(1) _ _ _ bank_evals(3)[of F I] v(3), simplified]
  show "bank_inv F 4 1700 (prop_cell (sys c))" using 3(1) v(4) by (simp add: eval_nat_numeral)
  show "transactions (prop_cell (sys c)) = []" using 1(3) 2(3) 3(3) v(4) by (simp add: BankState_new_def)
  show "map snd (got c 0) = [Value (UserId 1), Value (UserId 2), Value (UserId 3)]"
    unfolding m[symmetric] using 1(2) 2(2) 3(2) by (simp add: log)
qed

lemma returned_ids:
  assumes "map snd (got c 0) = [Value (UserId a), Value (UserId b), Value (UserId d)]"
  shows "returned_id c 0 = a" "returned_id c 1 = b" "returned_id c 2 = d"
proof -
  obtain x y z where "got c 0 = [(x, Value (UserId a)), (y, Value (UserId b)), (z, Value (UserId d))]"
    using assms by (auto simp: map_eq_Cons_conv)
  then show "returned_id c 0 = a" "returned_id c 1 = b" "returned_id c 2 = d" by (simp_all add: returned_id_def)
qed

text \<open>The books when all threads are done.\<close>

lemma sum_over_clients:
  fixes g :: "nat \<Rightarrow> 'b :: comm_semiring_1"
  assumes "\<forall>e \<in> set log. fst e < k"
  shows "(\<Sum>e \<leftarrow> log. g (fst e)) = (\<Sum>j < k. of_nat (length (filter (\<lambda>e. fst e = j) log)) * g j)"
proof -
  have "(\<Sum>e \<leftarrow> filter (\<lambda>e. fst e = j) log. g (fst e)) = of_nat (length (filter (\<lambda>e. fst e = j) log)) * g j" for j
    by (induction log) (auto simp: algebra_simps)
  then show ?thesis using sum_by_client[OF assms, of "\<lambda>e. g (fst e)"] by simp
qed

lemma joined_entries:
  assumes l: "logged v log c0" "logged v (log @ es) c" and c0: "bank_opened F I c0" and c: "bank_joined F I iter c0 c"
    and id: "returned_id c0 0 = 1" "returned_id c0 1 = 2" "returned_id c0 2 = 3"
  shows "\<And>j. 0 < j \<Longrightarrow> map snd (filter (\<lambda>e. fst e = j) es) = got c j"
    and "\<forall>e \<in> set es. stress_entry F I e" "\<forall>e \<in> set es. 0 < fst e \<and> fst e < 16"
    and "openers es = 5" "paid_in es = 1500"
proof -
  have i: "all_idle c0" "all_idle c" using c0 c by (auto simp: bank_opened_def bank_joined_def)
  have g0: "got c0 j = []" if "0 < j" for j using c0 that by (simp add: bank_opened_def)
  have g: "got c 0 = got c0 0" "\<And>j. j \<in> {1..5} \<Longrightarrow> map fst (got c j) = [user_call F I (j - 1)]"
    "\<And>j. j \<in> {6..15} \<Longrightarrow> map fst (got c j) = map (stress_call F I 1 2 3) [0..<iter]" "\<And>j. 15 < j \<Longrightarrow> got c j = []"
    using c unfolding bank_joined_def id by blast+
  note lt = idle_later[OF l i]
  show f: "map snd (filter (\<lambda>e. fst e = j) es) = got c j" if "0 < j" for j using lt[of j] g0[OF that] by simp
  have f0: "filter (\<lambda>e. fst e = 0) es = []" using lt[of 0] g(1) by simp
  have mem: "snd e \<in> set (got c (fst e))" "0 < fst e" if "e \<in> set es" for e
  proof -
    show "0 < fst e" using f0 that by (auto simp: filter_empty_conv)
    have "snd e \<in> set (map snd (filter (\<lambda>x. fst x = fst e) es))" using that by auto
    with f[OF \<open>0 < fst e\<close>] show "snd e \<in> set (got c (fst e))" by simp
  qed
  show r: "\<forall>e \<in> set es. 0 < fst e \<and> fst e < 16"
  proof
    fix e assume e: "e \<in> set es"
    have "\<not> 15 < fst e" using mem(1)[OF e] g(4)[of "fst e"] by auto
    then show "0 < fst e \<and> fst e < 16" using mem(2)[OF e] by simp
  qed
  have m: "fst (snd e) \<in> set (map fst (got c (fst e)))" if "e \<in> set es" for e using mem(1)[OF that] by force
  show "\<forall>e \<in> set es. stress_entry F I e"
  proof
    fix e assume e: "e \<in> set es"
    consider "fst e \<in> {1..5}" | "fst e \<in> {6..15}" using r e by force
    then show "stress_entry F I e"
      by cases (use m[OF e] g(2,3) in \<open>auto simp: stress_entry_def opener_def\<close>)
  qed
  have len: "length (filter (\<lambda>e. fst e = j) es) = length (map fst (got c j))" if "0 < j" for j using f[OF that] by (metis length_map)
  have n: "length (filter (\<lambda>e. fst e = j) es) = (if j = 0 then 0 else if j \<le> 5 then 1 else iter)" if "j < 16" for j
    using len[of j] g(2)[of j] arg_cong[OF g(3)[of j], of length] f0 that by (cases "j = 0") auto
  have lt16: "\<forall>e \<in> set es. fst e < 16" using r by blast
  have "openers es = (\<Sum>j :: nat < 16. (if j = 0 then 0 else if j \<le> 5 then 1 else iter) * (if j \<le> 5 then 1 else 0))"
    using sum_over_clients[OF lt16, of "\<lambda>j. if j \<le> 5 then 1 else 0 :: nat"] n by (simp add: openers_def opener_def)
  then show "openers es = 5" by (simp add: eval_nat_numeral)
  have "paid_in es = (\<Sum>j :: nat < 16. int (if j = 0 then 0 else if j \<le> 5 then 1 else iter) * (if j \<le> 5 then 100 * int j else 0))"
    using sum_over_clients[OF lt16, of "\<lambda>j. if j \<le> 5 then 100 * int j else 0"] n by (simp add: paid_in_def opener_def)
  then show "paid_in es = 1500" by (simp add: eval_nat_numeral)
qed

lemma paid_count: "length (filter P xs) = (\<Sum>x \<leftarrow> xs. if P x then 1 else 0)"
  by (induction xs) simp_all

section \<open>The program\<close>

text \<open>C22. The bank of the example, run by its threads over the bytes of the channels: the three
  accounts of the main thread get the ids 1 to 3, and when the five threads that open an account and
  the ten that transfer have been joined, whatever the interleaving, the five new accounts have the ids
  4 to 8, no transfer has met an unknown user - each was paid or refused for want of money -, there is
  one record for each transfer that was paid, and the books balance: nine is the next id, the total is
  the 3200 paid in, and the balances are not negative and add up to it.\<close>

theorem bank_example:
  fixes c0 c :: "('f, 'q, 'p) bank_conc"
  assumes "seg_queue items (reg_push X) (reg_pop X)" "seg_queue pitems (pool_push X) (pool_pop X)" "f64_exact F"
    and "conc_reachable items pitems X B (BankState_new F) c0" "bank_opened F I c0"
    and "(conc_step X B)\<^sup>*\<^sup>* c0 c" "bank_joined F I iter c0 c"
  shows "map snd (got c0 0) = [Value (UserId 1), Value (UserId 2), Value (UserId 3)] \<and>
    {a. \<exists>j \<in> {1..5}. a \<in> snd ` set (got c j)} = (\<lambda>k. Value (UserId (of_nat k))) ` {4..8} \<and>
    (\<forall>j \<in> {6..15}. \<forall>a \<in> snd ` set (got c j). paid a \<or> refused F a) \<and>
    length (transactions (prop_cell (sys c))) = (\<Sum>j \<in> {6..15}. length (filter (\<lambda>y. paid (snd y)) (got c j))) \<and>
    bank_inv F 9 3200 (prop_cell (sys c))"
proof -
  note sy = conc_systemI[OF assms(1,2)]
  have "all_idle c" using assms(7) by (simp add: bank_joined_def)
  then have "\<not> overlapped c"
    by (intro conc_system.launch_free[OF sy conc_reachable_steps[OF assms(6,4)]] bank_calls(2)[OF assms(5,7)])
  then obtain log es where l: "logged (BankState_new F) log c0" "logged (BankState_new F) (log @ es) c"
    by (rule conc_system.run_logs[OF sy assms(4,6)])
  note o = opened_accounts[OF assms(3) l(1) assms(5)]
  note e = joined_entries[OF l assms(5,7) returned_ids[OF o(1)]]
  have s: "bank_inv F (4 + openers es) (1700 + paid_in es) (prop_cell (sys c)) \<and>
      map (snd \<circ> snd) (filter opener es) = map (\<lambda>k. Value (UserId (of_nat k))) [4..<4 + openers es] \<and>
      (\<forall>e \<in> set es. \<not> opener e \<longrightarrow> paid (snd (snd e)) \<or> refused F (snd (snd e))) \<and>
      length (transactions (prop_cell (sys c))) = length (transactions (prop_cell (sys c0))) + (\<Sum>e \<leftarrow> es. if paid (snd (snd e)) then 1 else 0)"
    by (rule stress_log[OF assms(3) o(2) _ logged_suffix[OF l] e(2)]) (simp_all add: e(4,5))
  have "set [4..<4 + openers es] = {4..8}" by (auto simp: e(4))
  then have ids: "set (map (snd \<circ> snd) (filter opener es)) = (\<lambda>k. Value (UserId (of_nat k))) ` {4..8}"
    using s by (metis (no_types, lifting) set_map)
  have got: "snd ` set (got c j) = (snd \<circ> snd) ` {x \<in> set es. fst x = j}" if "0 < j" for j
    unfolding e(1)[OF that, symmetric] by (auto simp: image_image)
  have op: "opener x \<longleftrightarrow> fst x \<in> {1..5}" if "x \<in> set es" for x using e(3) that by (auto simp: opener_def)
  have "{a. \<exists>j \<in> {1..5}. a \<in> snd ` set (got c j)} = (\<Union>j \<in> {1..5}. (snd \<circ> snd) ` {x \<in> set es. fst x = j})"
    by (auto simp: got)
  also have "\<dots> = (snd \<circ> snd) ` (\<Union>j \<in> {1..5}. {x \<in> set es. fst x = j})" by (rule image_UN[symmetric])
  also have "(\<Union>j \<in> {1..5}. {x \<in> set es. fst x = j}) = {x \<in> set es. opener x}" using op by blast
  finally have "{a. \<exists>j \<in> {1..5}. a \<in> snd ` set (got c j)} = (snd \<circ> snd) ` {x \<in> set es. opener x}" .
  then have 1: "{a. \<exists>j \<in> {1..5}. a \<in> snd ` set (got c j)} = (\<lambda>k. Value (UserId (of_nat k))) ` {4..8}"
    using ids by simp
  have 2: "\<forall>j \<in> {6..15}. \<forall>a \<in> snd ` set (got c j). paid a \<or> refused F a"
    using s by (auto simp: got opener_def)
  have np: "\<not> paid (snd (snd x))" if "x \<in> set es" "opener x" for x
  proof -
    have "snd (snd x) \<in> set (map (snd \<circ> snd) (filter opener es))" using that by auto
    then show ?thesis unfolding ids by (auto simp: paid_def)
  qed
  let ?p = "\<lambda>j. length (filter (\<lambda>y. paid (snd y)) (map snd (filter (\<lambda>e. fst e = j) es)))"
  have z: "?p j = 0" if "j \<le> 5" for j using np that by (auto simp: filter_empty_conv opener_def)
  have "(\<Sum>e \<leftarrow> es. if paid (snd (snd e)) then 1 else 0) = (\<Sum>j < 16. ?p j)"
    using sum_by_client[of es 16 "\<lambda>e. if paid (snd (snd e)) then 1 else (0 :: nat)"] e(3) by (simp add: paid_count o_def)
  also have "\<dots> = (\<Sum>j \<in> {6..15}. ?p j)" by (rule sum.mono_neutral_right) (use z in \<open>auto simp: not_le\<close>)
  also have "\<dots> = (\<Sum>j \<in> {6..15}. length (filter (\<lambda>y. paid (snd y)) (got c j)))" by (rule sum.cong) (simp_all add: e(1))
  finally have 3: "length (transactions (prop_cell (sys c))) = (\<Sum>j \<in> {6..15}. length (filter (\<lambda>y. paid (snd y)) (got c j)))"
    using s o(3) by simp
  show ?thesis using o(1) 1 2 3 s by (simp add: e(4,5))
qed

section \<open>A run of the program\<close>

text \<open>Amounts as 64-bit integers, a serialisation of the arguments, a representation of the result of
  a transfer, and the image that links the five closures.\<close>

definition word_ops :: "u64 f64_ops" where
  "word_ops = \<lparr> f_add = (+), f_sub = (-), f_mul = (*), f_lt = (\<lambda>a b. sint a < sint b), f_int = of_int,
     f_fixed2 = (\<lambda>a. show_nat (unat a) @ ''.00'') \<rparr>"

lemma word_ops_exact: "f64_exact word_ops"
proof -
  have s: "sint (of_int a :: u64) = a" if "exact_range a" for a
    using that by (simp add: exact_range_def sint_sbintrunc' signed_take_bit_int_eq_self)
  then have "a = b" if "(of_int a :: u64) = of_int b" "exact_range a" "exact_range b" for a b using that by metis
  with s show ?thesis unfolding f64_exact_def word_ops_def by simp
qed

definition text_arg :: "u8 list \<Rightarrow> string" where
  "text_arg bs = map (\<lambda>b. char_of (unat b)) bs"

fun bank_ser :: "u64 bank_arg \<Rightarrow> u8 list option" where
  "bank_ser (Name s) = Some (0 # map of_char s)"
| "bank_ser (NameBalance s b) = Some (1 # le_bytes 8 b @ map of_char s)"
| "bank_ser (FromToAmount src dst a) = Some (2 # le_bytes 8 src @ le_bytes 8 dst @ le_bytes 8 a)"

fun bank_de :: "u8 list \<Rightarrow> u64 bank_arg option" where
  "bank_de [] = None"
| "bank_de (t # bs) =
     (if t = 0 then Some (Name (text_arg bs))
      else if t = 1 then Some (NameBalance (text_arg (drop 8 bs)) (of_le (take 8 bs)))
      else Some (FromToAmount (of_le (take 8 bs)) (of_le (take 8 (drop 8 bs))) (of_le (drop 16 bs))))"

definition bank_codec :: "u64 bank_arg codec" where
  "bank_codec = \<lparr> bin_ser = bank_ser, bin_de = bank_de \<rparr>"

lemma text_arg_bytes [simp]: "text_arg (map of_char s) = s"
  by (simp add: text_arg_def o_def)

lemma bank_de_ser: "bank_ser w = Some bs \<Longrightarrow> bank_de bs = Some w"
  by (cases w) (auto simp del: le_bytes.simps)

definition transfer_ret :: "bank_reply ret_type" where
  "transfer_ret = \<lparr> ret_size = 62,
     ret_enc = (\<lambda>r. case r of TransferResult (Inl s) \<Rightarrow> 1 # text_bytes 60 s | _ \<Rightarrow> replicate 62 0),
     ret_dec = (\<lambda>bs. if hd bs = 1 then map_option (\<lambda>s. TransferResult (Inl s)) (text_of (tl bs)) else Some (TransferResult (Inr ()))) \<rparr>"

lemma transfer_codes:
  "codes transfer_ret (TransferResult (Inr ()))" "length s \<le> 60 \<Longrightarrow> codes transfer_ret (TransferResult (Inl s))"
  using text_of_bytes[of s 60] by (simp_all add: codes_def transfer_ret_def)

lemma id_codes: "codes id_ret (UserId u)"
  using u64_layout.dec_enc[of u] by (simp add: codes_def id_ret_def del: le_bytes.simps)

lemma show_u64_length: "length (show_nat (unat (w :: u64))) \<le> 20"
proof (rule length_show_nat)
  have "unat w < 2 ^ 64" using unsigned_less[of w, where 'a = nat] by simp
  then show "unat w < 10 ^ 20" by simp
qed simp

lemma transfer_result_codes: "codes transfer_ret (TransferResult (snd (transfer word_ops src dst a st)))"
proof -
  have "length (not_found u) \<le> 60" for u using show_u64_length[of u] by (simp add: not_found_def)
  moreover have "length (''Insufficient balance: '' @ f_fixed2 word_ops b) \<le> 60" for b
    using show_u64_length[of b] by (simp add: word_ops_def)
  ultimately show ?thesis
    using transfer_codes by (auto simp: transfer_def Let_def split: option.splits)
qed

definition bank_demo :: bank_image where
  "bank_demo = \<lparr> i_alice = 0x1000, i_bob = 0x2000, i_charlie = 0x3000, i_user = 0x4000, i_transfer = 0x5000, i_ret = transfer_ret \<rparr>"

definition bank_world :: "(u64 BankState, ClientPair list, nat list) world" where
  "bank_world =
     \<lparr> vt_mut = (\<lambda>a. None), vt_out = (\<lambda>a. None),
       vt_args = (\<lambda>a. if a = 0x1000 then Some (VTABLE 0 1 (apply_with_adapter id_ret bank_de (open_account word_ops 1000)))
         else if a = 0x2000 then Some (VTABLE 0 1 (apply_with_adapter id_ret bank_de (open_account word_ops 500)))
         else if a = 0x3000 then Some (VTABLE 0 1 (apply_with_adapter id_ret bank_de (open_account word_ops 200)))
         else if a = 0x4000 then Some (VTABLE 0 1 (apply_with_adapter id_ret bank_de (open_with word_ops)))
         else if a = 0x5000 then Some (VTABLE 0 1 (apply_with_adapter transfer_ret bank_de (transferring word_ops))) else None),
       prop_bytes = (\<lambda>_. []),
       reg_push = list_push, reg_pop = list_pop, pool_push = list_push, pool_pop = list_pop \<rparr>"

lemma bank_queues:
  "seg_queue (\<lambda>q. q) (reg_push bank_world) (reg_pop bank_world)"
  "seg_queue (\<lambda>q. q) (pool_push bank_world) (pool_pop bank_world)"
  using list_queue.seg_queue_axioms by (simp_all add: bank_world_def)

interpretation bank_conc: conc_system "\<lambda>q. q" bank_world "\<lambda>p. p" B for B :: "'v codec"
  by (rule conc_systemI[OF bank_queues])

lemma bare_fits: "n \<le> 80 \<Longrightarrow> fits \<lparr> fn_size = 0, fn_align = 1, fn_env = [], fn_vtable = a \<rparr> n"
  by (simp add: fits_def wf_fn_def args_pos_def env_pos_def boundary_offset_def align_up_def)

lemma bank_call_sendable:
  assumes "bank_ser w = Some bs" "length bs \<le> 80" "ret_size R \<le> 1148"
    and "vt_args bank_world a = Some (VTABLE 0 1 (apply_with_adapter R bank_de code))"
    and "\<And>st. \<exists>r. snd (code [] st w) = Some r \<and> codes R r"
  shows "sendable bank_world bank_codec (Op_apply_with R (bank_fn a code) w)"
  using assms bank_de_ser[OF assms(1)] bare_fits[OF assms(2)]
  by (auto simp: bank_codec_def bank_fn_def result_ok_def call_fn_with_def)

lemma main_calls_sendable:
  "sendable bank_world bank_codec (alice_call word_ops bank_demo)"
  "sendable bank_world bank_codec (bob_call word_ops bank_demo)"
  "sendable bank_world bank_codec (charlie_call word_ops bank_demo)"
  unfolding alice_call_def bob_call_def charlie_call_def
  by (rule bank_call_sendable, simp, simp, simp add: id_ret_def, simp add: bank_world_def bank_demo_def,
      simp add: open_account_def id_codes split_beta)+

lemma user_call_sendable: "i < 10 \<Longrightarrow> sendable bank_world bank_codec (user_call word_ops bank_demo i)"
  unfolding user_call_def
  by (rule bank_call_sendable, simp, simp add: show_nat.simps[of i], simp add: id_ret_def, simp add: bank_world_def bank_demo_def,
      simp add: open_with_def id_codes split_beta)

lemma transfer_call_sendable: "sendable bank_world bank_codec (transfer_call word_ops bank_demo src dst a)"
  unfolding transfer_call_def
  by (rule bank_call_sendable, simp, simp, simp add: bank_demo_def transfer_ret_def, simp add: bank_world_def bank_demo_def,
      simp add: transferring_def bank_demo_def transfer_result_codes split_beta)

text \<open>The calls of the threads that \<open>main\<close> joins, one transfer each.\<close>

definition thread_calls :: "(nat \<times> u64 bank_call) list" where
  "thread_calls = map (\<lambda>j. (j, user_call word_ops bank_demo (j - 1))) [1..<6] @
     map (\<lambda>j. (j, stress_call word_ops bank_demo 1 2 3 0)) [6..<16]"

lemma thread_calls_facts:
  "map fst thread_calls = [1..<16]" "list_all (\<lambda>(j, x). j < 16 \<and> sendable bank_world bank_codec x \<and> op_tag x \<noteq> Launch) thread_calls"
  "j \<in> {1..5} \<Longrightarrow> (j, user_call word_ops bank_demo (j - 1)) \<in> set thread_calls"
  "j \<in> {6..15} \<Longrightarrow> (j, stress_call word_ops bank_demo 1 2 3 0) \<in> set thread_calls"
proof -
  show "map fst thread_calls = [1..<16]"
    using upt_add_eq_append[of 1 6 10] by (simp add: thread_calls_def o_def del: upt_rec_numeral upt_Suc)
  show "list_all (\<lambda>(j, x). j < 16 \<and> sendable bank_world bank_codec x \<and> op_tag x \<noteq> Launch) thread_calls"
    using user_call_sendable transfer_call_sendable by (auto simp: thread_calls_def list_all_iff stress_call_def simp del: upt_rec_numeral)
qed (auto simp: thread_calls_def simp del: upt_rec_numeral)

text \<open>All the threads of the program, one transfer each.\<close>

theorem bank_example_witness:
  "\<exists>(c0 :: (u64, ClientPair list, nat list) bank_conc) c.
     conc_reachable (\<lambda>q. q) (\<lambda>p. p) bank_world bank_codec (BankState_new word_ops) c0 \<and>
     bank_opened word_ops bank_demo c0 \<and> (conc_step bank_world bank_codec)\<^sup>*\<^sup>* c0 c \<and>
     bank_joined word_ops bank_demo 1 c0 c \<and> bank_inv word_ops 9 3200 (prop_cell (sys c))"
proof -
  let ?B = bank_codec and ?W = "(conc_step bank_world bank_codec)\<^sup>*\<^sup>*"
  let ?o = "opened bank_world 16 (BankState_new word_ops) [] [] :: (u64, ClientPair list, nat list) bank_conc"
  let ?m = "[(0, alice_call word_ops bank_demo), (0, bob_call word_ops bank_demo), (0, charlie_call word_ops bank_demo)]"
  have or: "conc_reachable (\<lambda>q. q) (\<lambda>p. p) bank_world ?B (BankState_new word_ops) ?o" by (rule opened_reachable) simp_all
  note st = bank_conc.reachable_simulated[OF or]
  obtain c0 where c0: "?W ?o c0" "bank_conc.simulated ?B (BankState_new word_ops, []) c0" "quiescent c0"
    "all_idle c0" "n_chans (sys c0) = 16" "(\<lambda>j. map fst (got c0 j)) = calls_logged ?m (\<lambda>j. [])"
    using bank_conc.calls_in_turn[OF st, where ys = ?m] main_calls_sendable by auto
  obtain c where c: "?W c0 c" "quiescent c" "all_idle c" "(\<lambda>j. map fst (got c j)) = calls_logged thread_calls (\<lambda>j. map fst (got c0 j))"
    using bank_conc.calls_in_turn[OF c0(2-4), where ys = thread_calls] thread_calls_facts(2) c0(5) by auto
  have r0: "conc_reachable (\<lambda>q. q) (\<lambda>p. p) bank_world ?B (BankState_new word_ops) c0" by (rule conc_reachable_steps[OF c0(1) or])
  have "got c0 k = []" if "0 < k" for k using fun_cong[OF c0(6), of k] that by simp
  then have o: "bank_opened word_ops bank_demo c0" using c0(4) fun_cong[OF c0(6), of 0] by (simp add: bank_opened_def)
  obtain log es where l: "logged (BankState_new word_ops) log c0" "logged (BankState_new word_ops) (log @ es) c"
    by (rule bank_conc.run_logs[OF r0 c(1)]) (use c(2) in \<open>simp_all add: quiescent_def\<close>)
  note id = returned_ids[OF opened_accounts(1)[OF word_ops_exact l(1) o]]
  have g: "map fst (got c j) = calls_logged thread_calls (\<lambda>j. map fst (got c0 j)) j" for j using fun_cong[OF c(4), of j] .
  have t: "fst ` set thread_calls = {1..<16}" "distinct (map fst thread_calls)"
    using thread_calls_facts(1) by (metis set_map set_upt, simp)
  have "map fst (got c 0) = map fst (got c0 0)" unfolding g by (rule calls_logged_other) (simp add: t)
  then have 0: "got c 0 = got c0 0" unfolding idle_later[OF l c0(4) c(3), of 0] by simp
  have 1: "map fst (got c j) = [user_call word_ops bank_demo (j - 1)]" if "j \<in> {1..5}" for j
    unfolding g using calls_logged_once[OF t(2) thread_calls_facts(3)[OF that]] o that by (simp add: bank_opened_def)
  have 2: "map fst (got c j) = [stress_call word_ops bank_demo 1 2 3 0]" if "j \<in> {6..15}" for j
    unfolding g using calls_logged_once[OF t(2) thread_calls_facts(4)[OF that]] o that by (simp add: bank_opened_def)
  have 3: "got c j = []" if "15 < j" for j
    using g[of j] calls_logged_other[of j thread_calls "\<lambda>j. map fst (got c0 j)"] o that by (simp add: t bank_opened_def)
  have j: "bank_joined word_ops bank_demo 1 c0 c" unfolding bank_joined_def id using c(3) 0 1 2 3 by simp
  from bank_example[OF bank_queues word_ops_exact r0 o c(1) j] have "bank_inv word_ops 9 3200 (prop_cell (sys c))" by blast
  then show ?thesis using r0 o c(1) j by blast
qed

end
