(* ===== verification/Formatting.thy ===== *)
theory Formatting
  imports Remote_Examples Text_Values
begin

text \<open>
  \<open>Display\<close> and \<open>Debug\<close> of the trusts (src/trust/local.rs, remote.rs, common.rs) and of the
  single-threaded latch (src/single_thread/latch.rs): the text of the value is computed where the
  value is, through \<open>with\<close>, and written by the caller. The formatter writes to a string and so
  does not fail; a \<open>Display\<close> of the value that panics or fails is a closure that panics.
\<close>

section \<open>The formatter\<close>

record formatter =
  buf :: string
  alternate :: bool

definition write_str :: "string \<Rightarrow> formatter \<Rightarrow> formatter" where
  "write_str s f = f\<lparr> buf := buf f @ s \<rparr>"

text \<open>In the alternate form every line of a field is indented.\<close>

fun indented :: "bool \<Rightarrow> string \<Rightarrow> string" where
  "indented start [] = []"
| "indented start (c # cs) = (if start then ''    '' else []) @ c # indented (c = CHR 0x0A) cs"

definition debug_tuple :: "string \<Rightarrow> string \<Rightarrow> formatter \<Rightarrow> formatter" where
  "debug_tuple name field f =
     write_str (name @ ''('' @ (if alternate f then CHR 0x0A # indented True (field @ [CHR 0x2C, CHR 0x0A]) else field) @ '')'') f"

lemma indented_line: "CHR 0x0A \<notin> set s \<Longrightarrow> indented False (s @ r) = s @ indented False r"
  by (induction s) auto

lemma debug_tuple_quoted:
  "debug_tuple name (quoted s) f =
   write_str (if alternate f then name @ ''('' @ CHR 0x0A # ''    '' @ quoted s @ CHR 0x2C # CHR 0x0A # '')'' else name @ ''('' @ quoted s @ '')'') f"
proof -
  have "indented True (quoted s @ [CHR 0x2C, CHR 0x0A]) = ''    '' @ indented False (quoted s @ [CHR 0x2C, CHR 0x0A])"
    by (simp add: quoted_def)
  then show ?thesis using indented_line[OF quoted_line, of s] by (simp add: debug_tuple_def)
qed

section \<open>The implementations\<close>

definition local_display :: "('t \<Rightarrow> 't \<times> string option) \<Rightarrow> formatter \<Rightarrow> 't Local \<Rightarrow> formatter reply \<times> 't Local" where
  "local_display show f l = then_run (local_with show l) (\<lambda>s. write_str s f)"

definition local_debug :: "('t \<Rightarrow> 't \<times> string option) \<Rightarrow> formatter \<Rightarrow> 't Local \<Rightarrow> formatter reply \<times> 't Local" where
  "local_debug show f l = then_run (local_with show l) (\<lambda>s. debug_tuple ''Local'' (quoted s) f)"

definition remote_display ::
    "('t, 'q, 'p) world \<Rightarrow> nat \<Rightarrow> caller \<Rightarrow> remote \<Rightarrow> string ret_type \<Rightarrow> ('t, string) client_fn \<Rightarrow> formatter \<Rightarrow>
     ('t, 'q, 'p) rt \<Rightarrow> formatter reply \<times> ('t, 'q, 'p) rt" where
  "remote_display X fuel th rm R show f s = then_run (remote_with X fuel th rm R show s) (\<lambda>t. write_str t f)"

definition remote_debug ::
    "('t, 'q, 'p) world \<Rightarrow> nat \<Rightarrow> caller \<Rightarrow> remote \<Rightarrow> string ret_type \<Rightarrow> ('t, string) client_fn \<Rightarrow> formatter \<Rightarrow>
     ('t, 'q, 'p) rt \<Rightarrow> formatter reply \<times> ('t, 'q, 'p) rt" where
  "remote_debug X fuel th rm R show f s =
     then_run (remote_with X fuel th rm R show s) (\<lambda>t. debug_tuple ''Remote'' (quoted t) f)"

definition trust_display ::
    "('f \<Rightarrow> 'i \<Rightarrow> string reply \<times> 'i) \<Rightarrow> 'f \<Rightarrow> formatter \<Rightarrow> 'i Trust \<Rightarrow> formatter reply \<times> 'i Trust" where
  "trust_display impl_with show f tr = then_run (trust_with impl_with show tr) (\<lambda>s. write_str s f)"

definition trust_debug ::
    "('f \<Rightarrow> 'i \<Rightarrow> string reply \<times> 'i) \<Rightarrow> 'f \<Rightarrow> formatter \<Rightarrow> 'i Trust \<Rightarrow> formatter reply \<times> 'i Trust" where
  "trust_debug impl_with show f tr =
     then_run (trust_with impl_with show tr) (\<lambda>s. debug_tuple ''Trust'' (quoted s) f)"

text \<open>Both forms of a latch print the address of its cell, not the value.\<close>

definition show_bool :: "bool \<Rightarrow> string" where
  "show_bool b = (if b then ''true'' else ''false'')"

definition latch_fmt :: "u64 \<Rightarrow> formatter \<Rightarrow> 'u Latch \<Rightarrow> formatter" where
  "latch_fmt addr f l =
     write_str (''Latch { locked: '' @ show_bool (locked l) @ '', inner: 0x'' @ show_hex (unat addr) @ '' }'') f"

lemma latch_fmt_value: "latch_fmt addr f (l\<lparr> latched := v \<rparr>) = latch_fmt addr f l"
  by (simp add: latch_fmt_def)

section \<open>Reading a remote value through with\<close>

lemma handle_with:
  assumes "seg_queue items (reg_push X) (reg_pop X)" "handle_usable items fuel th rm s" "linked_fn X R f"
    and "codes R r" "ret_size R \<le> 1148" "call_fn f (prop_cell s) = (t, Some r)"
  obtains s' where "remote_with X fuel th rm R f s = (Returned r, s')" "handle_usable items fuel th rm s'" "prop_cell s' = t"
proof -
  have s: "calm items s" "r_chan rm \<in> set (registered items s)" "\<not> on_owning_trustee th s" "distance items s + 2 \<le> fuel"
    using assms(2) distance_registered[of items s] by (auto simp: handle_usable_def)
  have f: "fits (fv f) 0"
    "vt_out X (fn_vtable (fv f)) = Some (VTABLE (fn_size (fv f)) (fn_align (fv f)) (apply_adapter R (body f)))"
    using assms(3) by (auto simp: linked_fn_def)
  obtain s' where d: "delegate X fuel (r_chan rm) CallMutOutPtr (fv f) [] (\<lambda>h. h) (read_response (ret_size R) (ret_dec R)) s
      = (Returned r, s')" "prop_cell s' = t" "calm items s'" "op_frame items (r_chan rm) s s'"
    using worker_queue.delegate_apply[OF worker_queue.intro[OF assms(1)] s(1,2) f(1) assms(4,5) f(2) assms(6) s(4)] by blast
  have "registered items s' = registered items s" using d(4) by (simp add: op_frame_def)
  then have "handle_usable items fuel th rm s'" using assms(2) d(3) op_frame_owner[OF d(4)] by (simp add: handle_usable_def)
  then show ?thesis using d(1,2) s(3) that by (simp add: remote_with_def)
qed

section \<open>A counter that is printed\<close>

definition text_world :: "(u64, ClientPair list, nat list) world" where
  "text_world = demo_world\<lparr> vt_out := (\<lambda>a. if a = 0x5000
     then Some (VTABLE 0 1 (apply_adapter (inline_ret 20) (\<lambda>env t. (t, Some (show_nat (unat t)))))) else None) \<rparr>"

definition show_fn :: "(u64, string) client_fn" where
  "show_fn = bare_fn 0x5000 (\<lambda>t. (t, Some (show_nat (unat t))))"

lemma show_fn_linked: "linked_fn text_world (inline_ret 20) show_fn"
  using linked_bareD[of text_world "inline_ret 20" "0x5000" "\<lambda>t. (t, Some (show_nat (unat t)))"]
  by (auto simp: linked_bare_def text_world_def show_fn_def)

lemma show_five: "show_nat 5 = ''5''"
  by code_simp

section \<open>Properties\<close>

text \<open>C31. A trust prints what its value prints, wherever the value lives: \<open>Display\<close> of a remote
  handle - the text is made on the trustee and crosses the channel as a string - of the wrapper around
  it and of a local trust write the same text, \<open>Debug\<close> writes that text as one line, quoted, behind
  the name of the trust, and the handle is as usable as before.\<close>

theorem formats_agree:
  assumes "seg_queue items (reg_push X) (reg_pop X)" "handle_usable items fuel th rm s" "linked_fn X R show"
    and "codes R txt" "ret_size R \<le> 1148" "call_fn show (prop_cell s) = (t, Some txt)" "\<not> alternate fm"
  shows "\<exists>s'. remote_display X fuel th rm R show fm s = (Returned (fm\<lparr> buf := buf fm @ txt \<rparr>), s') \<and>
    remote_debug X fuel th rm R show fm s = (Returned (fm\<lparr> buf := buf fm @ ''Remote('' @ quoted txt @ '')'' \<rparr>), s') \<and>
    trust_display (remote_with X fuel th rm R) show fm (Trust_new s) = (Returned (fm\<lparr> buf := buf fm @ txt \<rparr>), Trust_new s') \<and>
    trust_debug (remote_with X fuel th rm R) show fm (Trust_new s) =
      (Returned (fm\<lparr> buf := buf fm @ ''Trust('' @ quoted txt @ '')'' \<rparr>), Trust_new s') \<and>
    local_display (call_fn show) fm (local_entrust (prop_cell s)) =
      (Returned (fm\<lparr> buf := buf fm @ txt \<rparr>), local_entrust (prop_cell s')) \<and>
    local_debug (call_fn show) fm (local_entrust (prop_cell s)) =
      (Returned (fm\<lparr> buf := buf fm @ ''Local('' @ quoted txt @ '')'' \<rparr>), local_entrust (prop_cell s')) \<and>
    handle_usable items fuel th rm s' \<and> prop_cell s' = t \<and> CHR 0x0A \<notin> set (quoted txt)"
proof -
  obtain s' where s': "remote_with X fuel th rm R show s = (Returned txt, s')" "handle_usable items fuel th rm s'" "prop_cell s' = t"
    by (rule handle_with[OF assms(1-6)])
  have "local_with (call_fn show) (local_entrust (prop_cell s)) = (Returned txt, local_entrust t)"
    using assms(6) by (simp add: local_with_def local_call_def local_entrust_def)
  then show ?thesis using s' assms(7) quoted_line
    by (simp add: remote_display_def remote_debug_def trust_display_def trust_debug_def local_display_def local_debug_def
        trust_with_def trust_call_def Trust_new_def debug_tuple_quoted write_str_def)
qed

theorem formats_agree_witness:
  "\<exists>s'. remote_debug text_world 40 client_thread (fst demo) (inline_ret 20) show_fn \<lparr> buf = [], alternate = False \<rparr> (snd demo) =
     (Returned \<lparr> buf = ''Remote('' @ quoted ''5'' @ '')'', alternate = False \<rparr>, s')"
proof -
  have q: "seg_queue (\<lambda>q. q) (reg_push text_world) (reg_pop text_world)" using demo_queue by (simp add: text_world_def)
  have c: "call_fn show_fn (prop_cell (snd demo)) = (5, Some ''5'')"
    using show_five by (simp add: show_fn_def)
  have "codes (inline_ret 20) ''5''" by (rule inline_codes) simp_all
  from formats_agree[OF q demo_usable show_fn_linked this _ c, of "\<lparr> buf = [], alternate = False \<rparr>"]
  show ?thesis by (auto simp: inline_ret_def)
qed

end
