(* ===== verification/Encoding_Examples.thy ===== *)
theory Encoding_Examples
  imports Text_Values
begin

text \<open>
  Programs that use the encoding alone: src/examples/bincode.rs, which encodes a closure that owns a
  string and calls it from the slot, and the example in the documentation of \<open>decode_and_call\<close>
  (src/src/runtime/serialization.rs), whose arguments travel as raw bytes behind the captures.
\<close>

section \<open>A closure that owns a string\<close>

text \<open>The closure appends to the string it has captured; the representation of strings is an
  argument.\<close>

definition append_fn :: "string ret_type \<Rightarrow> u64 \<Rightarrow> string \<Rightarrow> fn_value" where
  "append_fn S a msg =
     \<lparr> fn_size = of_nat (ret_size S), fn_align = 8, fn_env = ret_enc S msg, fn_vtable = a \<rparr>"

definition append_code :: "string ret_type \<Rightarrow> string \<Rightarrow> u8 list \<Rightarrow> unit \<Rightarrow> string outcome" where
  "append_code S suffix env args = (case ret_dec S env of Some msg \<Rightarrow> Ok (msg @ suffix) | None \<Rightarrow> UB InvalidValue)"

definition bincode_main ::
    "(u64 \<Rightarrow> (unit, string) ErasedVTable option) \<Rightarrow> string ret_type \<Rightarrow> u64 \<Rightarrow> u64 \<Rightarrow> u8 list \<Rightarrow> string outcome" where
  "bincode_main vtables S a request_slot_buf m =
     obind (encode_closure (SlotWriter_new request_slot_buf) CallMutRetUnit (append_fn S a ''hello'') [] m) (\<lambda>(req, m', header).
     decode_and_call vtables request_slot_buf m' header ())"

text \<open>A fresh writer over a slot.\<close>

lemma fresh_writer: "length m = 1152 \<Longrightarrow> wf_writer (SlotWriter_new b) m" "cursor (SlotWriter_new b) = 0" "base (SlotWriter_new b) = b"
  by (simp_all add: wf_writer_def SlotWriter_new_def slot_sizes)

lemma append_fn_wf: "codes S msg \<Longrightarrow> ret_size S \<le> 1024 \<Longrightarrow> wf_fn (append_fn S a msg)"
  by (auto simp: wf_fn_def append_fn_def codes_def unat_of_nat valid_align_def intro!: exI[of _ 3])

text \<open>The example prints what it says it does, in the buffer aligned to 64 bytes it declares.\<close>

lemma bincode_prints_hello_world:
  assumes "length m = 1152" "codes S ''hello''" "ret_size S \<le> 1024" "8 dvd unat b"
    and "vtables a = Some (VTABLE (of_nat (ret_size S)) 8 (append_code S '' world''))"
  shows "bincode_main vtables S a b m = Ok ''hello world''"
proof -
  let ?f = "append_fn S a ''hello''"
  note f = append_fn_wf[OF assms(2,3), of a] and w = fresh_writer(1)[OF assms(1), of b]
  have al: "base_aligned (SlotWriter_new b) ?f"
    using assms(4) by (simp add: base_aligned_def append_fn_def fresh_writer(3))
  have "args_pos 0 ?f 0 \<le> 1152"
    using assms(3) boundary_offset_upper[of 1 "env_pos 0 ?f + unat (fn_size ?f)" 0]
    by (simp add: args_pos_def env_pos_def append_fn_def boundary_offset_def align_up_def unat_of_nat)
  then have p: "args_pos (unat (cursor (SlotWriter_new b))) ?f (length []) + length [] \<le> length m"
    using assms(1) by (simp add: fresh_writer(2))
  obtain out' m' hdr where e: "encode_closure (SlotWriter_new b) CallMutRetUnit ?f [] m = Ok (out', m', hdr)"
    by (rule encode_succeeds[OF w f _ al p]) simp_all
  have v: "vtables (fn_vtable ?f) = Some (VTABLE (fn_size ?f) (fn_align ?f) (append_code S '' world''))"
    using assms(5) by (simp add: append_fn_def)
  have "decode_and_call vtables b m' hdr () = append_code S '' world'' (fn_env ?f) ()"
    using encoded_call[where vtables = vtables, OF w f _ e v, of "()"] by (simp add: fresh_writer(3))
  then show ?thesis using e assms(2) by (simp add: bincode_main_def append_code_def append_fn_def codes_def)
qed

section \<open>Arguments behind the captures\<close>

text \<open>The documentation's second example: two words are written in little-endian order behind a
  closure without captures, read back through the header, and passed to the closure.\<close>

definition sum_fn :: "u64 \<Rightarrow> fn_value" where
  "sum_fn a = \<lparr> fn_size = 0, fn_align = 1, fn_env = [], fn_vtable = a \<rparr>"

definition sum_code :: "u8 list \<Rightarrow> u32 \<times> u32 \<Rightarrow> u32 outcome" where
  "sum_code env = (\<lambda>(a, b). Ok (a + b))"

definition sum_main ::
    "(u64 \<Rightarrow> (u32 \<times> u32, u32) ErasedVTable option) \<Rightarrow> u64 \<Rightarrow> u64 \<Rightarrow> u8 list \<Rightarrow> u32 outcome" where
  "sum_main vtables a storage m =
     obind (encode_closure (SlotWriter_new storage) CallMutRetUnit (sum_fn a) (le_bytes 4 (1 :: u32) @ le_bytes 4 (2 :: u32)) m)
       (\<lambda>(out, m', hdr).
     obind (of_option OutOfBounds (read_at (unat (args_offset hdr)) (unat (args_len hdr)) m')) (\<lambda>bytes.
     decode_and_call vtables storage m' hdr (of_le (take 4 bytes), of_le (drop 4 bytes))))"

lemma sum_is_three:
  assumes "length m = 1152" "vtables a = Some (VTABLE 0 1 sum_code)"
  shows "sum_main vtables a b m = Ok 3"
proof -
  let ?args = "le_bytes 4 (1 :: u32) @ le_bytes 4 (2 :: u32)"
  note w = fresh_writer(1)[OF assms(1), of b]
  have f: "wf_fn (sum_fn a)" by (simp add: wf_fn_def sum_fn_def)
  have p: "args_pos (unat (cursor (SlotWriter_new b))) (sum_fn a) (length ?args) + length ?args \<le> length m"
    using assms(1) by (simp add: fresh_writer(2) sum_fn_def args_pos_def env_pos_def boundary_offset_def align_up_def del: le_bytes.simps)
  have al: "base_aligned (SlotWriter_new b) (sum_fn a)" by (simp add: base_aligned_def sum_fn_def)
  obtain out' m' hdr where e: "encode_closure (SlotWriter_new b) CallMutRetUnit (sum_fn a) ?args m = Ok (out', m', hdr)"
    by (rule encode_succeeds[OF w f _ al p]) simp_all
  have v: "vtables (fn_vtable (sum_fn a)) = Some (VTABLE (fn_size (sum_fn a)) (fn_align (sum_fn a)) sum_code)" using assms(2) by (simp add: sum_fn_def)
  have "decode_and_call vtables b m' hdr x = sum_code [] x" "read_at (unat (args_offset hdr)) (unat (args_len hdr)) m' = Some ?args" for x
    using encoded_call[where vtables = vtables, OF w f _ e v, of x] by (simp_all add: fresh_writer(3) sum_fn_def)
  then show ?thesis using e by (simp add: sum_main_def sum_code_def del: le_bytes.simps)
qed

end
