(* ===== verification/Sync_Latch.thy ===== *)
theory Sync_Latch
  imports Main
begin

text \<open>
  The latch shared between threads (src/util/latch.rs): a value under a mutex with a condition
  variable, both behind reference counts, so that every clone is the same latch. Threads are
  numbers; the steps are what one thread does between two points where it can be delayed. The
  mutex is poisoned when a thread panics with the guard in its hands, and every \<open>unwrap\<close> of a
  poisoned result panics in turn. A condition is a function that may panic (\<open>None\<close>); waits may
  wake up without a notification.
\<close>

section \<open>State and steps\<close>

text \<open>Where a thread is: outside the latch, with the guard returned by \<open>lock\<close>, inside \<open>wait\<close> with
  the guard before the test of the condition, blocked in the condition variable, woken there and
  not yet in possession of the mutex, or unwound.\<close>

datatype 'v sync_pc =
    Out
  | Guard
  | Checking "'v \<Rightarrow> bool option"
  | Asleep "'v \<Rightarrow> bool option"
  | Woken "'v \<Rightarrow> bool option"
  | Panicked

text \<open>The component \<open>unannounced\<close> is not part of the latch: it records which threads have changed
  the value and not called \<open>notify_all\<close> since.\<close>

record 'v sync_latch =
  val :: 'v
  poisoned :: bool
  holder :: "nat option"
  pc :: "nat \<Rightarrow> 'v sync_pc"
  unannounced :: "nat set"

definition sync_new :: "'v \<Rightarrow> 'v sync_latch" where
  "sync_new v = \<lparr> val = v, poisoned = False, holder = None, pc = (\<lambda>_. Out), unannounced = {} \<rparr>"

definition move :: "nat \<Rightarrow> 'v sync_pc \<Rightarrow> nat option \<Rightarrow> 'v sync_latch \<Rightarrow> 'v sync_latch" where
  "move j p h s = s\<lparr> pc := (pc s)(j := p), holder := h \<rparr>"

fun wake :: "'v sync_pc \<Rightarrow> 'v sync_pc" where
  "wake (Asleep c) = Woken c"
| "wake p = p"

definition sync_notify_all :: "nat \<Rightarrow> 'v sync_latch \<Rightarrow> 'v sync_latch" where
  "sync_notify_all j s = s\<lparr> pc := wake \<circ> pc s, unannounced := unannounced s - {j} \<rparr>"

inductive sync_step :: "'v sync_latch \<Rightarrow> nat \<Rightarrow> 'v sync_latch \<Rightarrow> bool" where
  lock_ok: "pc s j = Out \<Longrightarrow> holder s = None \<Longrightarrow> \<not> poisoned s \<Longrightarrow> sync_step s j (move j Guard (Some j) s)"
| lock_poisoned: "pc s j = Out \<Longrightarrow> holder s = None \<Longrightarrow> poisoned s \<Longrightarrow> sync_step s j (move j Panicked None s)"
| modify: "pc s j = Guard \<Longrightarrow> sync_step s j (s\<lparr> val := v, unannounced := insert j (unannounced s) \<rparr>)"
| unlock: "pc s j = Guard \<Longrightarrow> sync_step s j (move j Out None s)"
| unwind: "pc s j = Guard \<Longrightarrow> sync_step s j (move j Panicked None (s\<lparr> poisoned := True \<rparr>))"
| wait_lock: "pc s j = Out \<Longrightarrow> holder s = None \<Longrightarrow> \<not> poisoned s \<Longrightarrow>
    sync_step s j (move j (Checking c) (Some j) s)"
| wait_done: "pc s j = Checking c \<Longrightarrow> c (val s) = Some True \<Longrightarrow> sync_step s j (move j Out None s)"
| wait_sleep: "pc s j = Checking c \<Longrightarrow> c (val s) = Some False \<Longrightarrow> sync_step s j (move j (Asleep c) None s)"
| wait_unwind: "pc s j = Checking c \<Longrightarrow> c (val s) = None \<Longrightarrow>
    sync_step s j (move j Panicked None (s\<lparr> poisoned := True \<rparr>))"
| spurious: "pc s j = Asleep c \<Longrightarrow> sync_step s j (move j (Woken c) (holder s) s)"
| relock: "pc s j = Woken c \<Longrightarrow> holder s = None \<Longrightarrow> \<not> poisoned s \<Longrightarrow>
    sync_step s j (move j (Checking c) (Some j) s)"
| relock_poisoned: "pc s j = Woken c \<Longrightarrow> holder s = None \<Longrightarrow> poisoned s \<Longrightarrow>
    sync_step s j (move j Panicked None s)"
| notify_all: "pc s j = Out \<or> pc s j = Guard \<Longrightarrow> sync_step s j (sync_notify_all j s)"

inductive sync_reachable :: "'v \<Rightarrow> 'v sync_latch \<Rightarrow> bool" for v where
  start: "sync_reachable v (sync_new v)"
| step: "sync_reachable v s \<Longrightarrow> sync_step s j s' \<Longrightarrow> sync_reachable v s'"

section \<open>Invariants\<close>

fun has_guard :: "'v sync_pc \<Rightarrow> bool" where
  "has_guard Guard = True"
| "has_guard (Checking c) = True"
| "has_guard p = False"

definition held_inv :: "'v sync_latch \<Rightarrow> bool" where
  "held_inv s \<longleftrightarrow> (\<forall>j. has_guard (pc s j) \<longleftrightarrow> holder s = Some j)"

definition sleep_inv :: "'v sync_latch \<Rightarrow> bool" where
  "sleep_inv s \<longleftrightarrow> (\<forall>j c. pc s j = Asleep c \<longrightarrow> c (val s) \<noteq> Some False \<longrightarrow> unannounced s \<noteq> {})"

lemma wake_simps [simp]: "has_guard (wake p) = has_guard p" "wake p \<noteq> Asleep c"
  by (cases p; simp)+

lemma held_inv_step:
  assumes "sync_step s j s'" "held_inv s"
  shows "held_inv s'"
proof -
  have own: "has_guard (pc s j) \<longleftrightarrow> holder s = Some j" using assms(2) by (simp add: held_inv_def)
  from assms(1) show ?thesis
    by cases (use own assms(2) in \<open>auto simp: held_inv_def move_def sync_notify_all_def split: if_splits\<close>)
qed

lemma sleep_inv_keep:
  assumes "sleep_inv s" "\<And>k c. pc s' k = Asleep c \<Longrightarrow> pc s k = Asleep c" "val s' = val s"
    "unannounced s' = unannounced s"
  shows "sleep_inv s'"
  using assms unfolding sleep_inv_def by metis

lemma sleep_inv_step:
  assumes "sync_step s j s'" "sleep_inv s"
  shows "sleep_inv s'"
  using assms(1)
proof cases
  case modify
  then show ?thesis by (simp add: sleep_inv_def)
next
  case (wait_sleep c)
  then show ?thesis using assms(2) by (auto simp: sleep_inv_def move_def)
next
  case notify_all
  then show ?thesis by (simp add: sleep_inv_def sync_notify_all_def)
qed (rule sleep_inv_keep[OF assms(2)]; simp add: move_def split: if_splits)+

lemma sync_reachable_inv: "sync_reachable v s \<Longrightarrow> held_inv s \<and> sleep_inv s"
proof (induction rule: sync_reachable.induct)
  case start
  show ?case by (simp add: held_inv_def sleep_inv_def sync_new_def)
qed (blast intro: held_inv_step sleep_inv_step)

section \<open>Properties\<close>

text \<open>C39. At any moment at most one thread is inside the latch, in \<open>lock\<close>'s guard or at the test of
  \<open>wait\<close>; and no wake-up is lost: a thread sleeps in \<open>wait\<close> with its condition true only while some
  thread that changed the value has not called \<open>notify_all\<close> yet.\<close>

theorem sync_latch_safe:
  assumes "sync_reachable v s"
  shows "(has_guard (pc s j) \<and> has_guard (pc s k) \<longrightarrow> j = k) \<and>
    (pc s j = Asleep c \<and> c (val s) = Some True \<longrightarrow> unannounced s \<noteq> {})"
  using sync_reachable_inv[OF assms] unfolding held_inv_def sleep_inv_def by fastforce

text \<open>A thread asleep on a zero while another has set a one and not announced it.\<close>

definition demo_asleep :: "nat sync_latch" where
  "demo_asleep = \<lparr> val = 1, poisoned = False, holder = Some 0,
     pc = (\<lambda>_. Out)(1 := Asleep (\<lambda>n. Some (n = 1)), 0 := Guard), unannounced = {0} \<rparr>"

lemma demo_asleep_reachable: "sync_reachable 0 demo_asleep"
proof -
  let ?c = "\<lambda>n :: nat. Some (n = 1)"
  have 1: "sync_reachable 0 (move 1 (Checking ?c) (Some 1) (sync_new 0))" (is "sync_reachable 0 ?a")
    by (rule sync_reachable.step[OF sync_reachable.start sync_step.wait_lock]) (simp_all add: sync_new_def)
  have 2: "sync_reachable 0 (move 1 (Asleep ?c) None ?a)" (is "sync_reachable 0 ?b")
    by (rule sync_reachable.step[OF 1 sync_step.wait_sleep]) (simp_all add: move_def sync_new_def)
  have 3: "sync_reachable 0 (move 0 Guard (Some 0) ?b)" (is "sync_reachable 0 ?d")
    by (rule sync_reachable.step[OF 2 sync_step.lock_ok]) (simp_all add: move_def sync_new_def)
  have "sync_reachable 0 (?d\<lparr> val := 1, unannounced := insert 0 (unannounced ?d) \<rparr>)" (is "sync_reachable 0 ?e")
    by (rule sync_reachable.step[OF 3 sync_step.modify[of _ 0]]) (simp add: move_def)
  moreover have "?e = demo_asleep" by (simp add: demo_asleep_def move_def sync_new_def)
  ultimately show ?thesis by simp
qed

theorem sync_latch_safe_witness:
  "pc demo_asleep 1 = Asleep (\<lambda>n. Some (n = 1)) \<and> has_guard (pc demo_asleep 0) \<and>
   \<not> has_guard (pc demo_asleep 1) \<and> unannounced demo_asleep \<noteq> {}"
  using sync_latch_safe[OF demo_asleep_reachable, of 0 1 "\<lambda>n. Some (n = 1)"]
    sync_latch_safe[OF demo_asleep_reachable, of 1 1 "\<lambda>n. Some (n = 1)"]
  by (simp add: demo_asleep_def)

end
