(* ===== verification/Affinity.thy ===== *)
theory Affinity
  imports Prelude
begin

text \<open>
  Thread pinning (src/util/affinity.rs): which calls the function makes to the operating system
  for a configuration, and with which masks. The calls themselves are the system's; the size of
  its CPU set, in 64-bit words, is a parameter.
\<close>

record PinConfig =
  core_id :: "usize option"
  numa_node :: "16 word option"
  mem_bind :: bool
  mac_affinity_tag :: "32 word option"

datatype target = Linux | MacOs | Miri | OtherOs

datatype os_call =
    SetAffinity "u64 list"
  | SetMempolicy nat u64 nat
  | ThreadPolicySet nat "32 word" nat

definition MPOL_BIND :: nat where "MPOL_BIND = 2"

definition THREAD_AFFINITY_POLICY :: nat where "THREAD_AFFINITY_POLICY = 4"

text \<open>The CPU set with one bit set through a raw pointer; a word outside the set is out of
  bounds.\<close>

definition cpu_mask :: "nat \<Rightarrow> usize \<Rightarrow> u64 list outcome" where
  "cpu_mask words core =
     (let set = replicate words 0; idx = core div 64; off = core mod 64
      in if unat idx < words then Ok (set[unat idx := set ! unat idx OR push_bit (unat off) 1])
         else UB OutOfBounds)"

definition pin_core :: "nat \<Rightarrow> PinConfig \<Rightarrow> os_call list outcome" where
  "pin_core words cfg =
     (case core_id cfg of
        Some core \<Rightarrow> obind (cpu_mask words core) (\<lambda>set. Ok [SetAffinity set])
      | None \<Rightarrow> Ok [])"

definition bind_memory :: "PinConfig \<Rightarrow> os_call list" where
  "bind_memory cfg =
     (case (numa_node cfg, mem_bind cfg) of
        (Some node, True) \<Rightarrow>
          if unat node < 64 then [SetMempolicy MPOL_BIND (0 OR push_bit (unat node) 1) 64] else []
      | _ \<Rightarrow> [])"

definition pin_current_thread :: "target \<Rightarrow> nat \<Rightarrow> PinConfig \<Rightarrow> os_call list outcome" where
  "pin_current_thread os words cfg =
     (case os of
        Miri \<Rightarrow> Ok []
      | Linux \<Rightarrow> obind (pin_core words cfg) (\<lambda>calls. Ok (calls @ bind_memory cfg))
      | MacOs \<Rightarrow>
          (case mac_affinity_tag cfg of
             Some tag \<Rightarrow> Ok [ThreadPolicySet THREAD_AFFINITY_POLICY tag 1]
           | None \<Rightarrow> Ok [])
      | OtherOs \<Rightarrow> Ok [])"

lemma unat_div_64: "unat (core div 64 :: usize) = unat core div 64"
  by (simp add: unat_div)

lemma unat_mod_64: "unat (core mod 64 :: usize) = unat core mod 64"
  by (simp add: unat_mod)

lemma bit_one_push: "k < 64 \<Longrightarrow> bit (2 ^ n :: u64) k \<longleftrightarrow> k = n"
  by (auto simp: bit_exp_iff)

section \<open>Properties\<close>

text \<open>C40. On Linux a core inside the system's CPU set is pinned by a mask that has exactly that
  core's bit; memory is bound to a node only when asked for and below 64, by a mask of exactly
  that node; a core beyond the set makes the function write outside it.\<close>

theorem pin_masks_exact:
  assumes "core_id cfg = Some core" "k < 64 * words"
  shows "(if unat core < 64 * words
          then \<exists>set. pin_current_thread Linux words cfg = Ok (SetAffinity set # bind_memory cfg) \<and>
                 length set = words \<and> (bit (set ! (k div 64)) (k mod 64) \<longleftrightarrow> k = unat core)
          else pin_current_thread Linux words cfg = UB OutOfBounds) \<and>
    bind_memory cfg = (if mem_bind cfg \<and> (\<exists>node. numa_node cfg = Some node \<and> unat node < 64)
      then [SetMempolicy 2 (2 ^ unat (the (numa_node cfg))) 64] else [])"
proof (rule conjI)
  let ?i = "unat core div 64" and ?o = "unat core mod 64"
  let ?set = "(replicate words (0 :: u64))[?i := push_bit ?o 1]"
  have lt: "unat (core div 64) < words \<longleftrightarrow> unat core < 64 * words"
    unfolding unat_div_64 by (simp add: div_less_iff_less_mult mult.commute)
  have kd: "k div 64 < words" using assms(2) by (simp add: div_less_iff_less_mult mult.commute)
  have "bit (?set ! (k div 64)) (k mod 64) \<longleftrightarrow> k = unat core" if "?i < words"
  proof (cases "k div 64 = ?i")
    case True
    then have "bit (?set ! (k div 64)) (k mod 64) \<longleftrightarrow> k mod 64 = ?o" using that by (simp add: bit_one_push)
    also have "\<dots> \<longleftrightarrow> k = unat core" using True by (metis div_mult_mod_eq)
    finally show ?thesis .
  next
    case False
    then have "?set ! (k div 64) = 0" using kd by simp
    then show ?thesis using False by auto
  qed
  then show "if unat core < 64 * words
      then \<exists>set. pin_current_thread Linux words cfg = Ok (SetAffinity set # bind_memory cfg) \<and>
             length set = words \<and> (bit (set ! (k div 64)) (k mod 64) \<longleftrightarrow> k = unat core)
      else pin_current_thread Linux words cfg = UB OutOfBounds"
    using assms(1) lt by (auto simp: pin_current_thread_def pin_core_def cpu_mask_def Let_def unat_div_64 unat_mod_64)
  show "bind_memory cfg = (if mem_bind cfg \<and> (\<exists>node. numa_node cfg = Some node \<and> unat node < 64)
      then [SetMempolicy 2 (2 ^ unat (the (numa_node cfg))) 64] else [])"
    by (auto simp: bind_memory_def MPOL_BIND_def split: option.splits bool.splits)
qed

theorem pin_masks_exact_witness:
  "pin_current_thread Linux 16 \<lparr> core_id = Some 2000, numa_node = None, mem_bind = False, mac_affinity_tag = None \<rparr> = UB OutOfBounds"
proof -
  let ?cfg = "\<lparr> core_id = Some 2000, numa_node = None, mem_bind = False, mac_affinity_tag = None \<rparr>"
  have c: "core_id ?cfg = Some 2000" by simp
  from pin_masks_exact[OF c, of 0 16] show ?thesis by simp
qed

end
