(* ===== verification/Thread_Context.thy ===== *)
theory Thread_Context
  imports Prelude
begin

text \<open>
  What a thread knows of itself: its lazily assigned id (src/util/thread_id.rs) and the
  mark of a trustee thread (src/util/fiber.rs). Threads are numbered; the thread-local
  variables are maps from threads.
\<close>

section \<open>Thread ids\<close>

record threads =
  thread_id_counter :: usize
  thread_ids :: "nat \<Rightarrow> usize option"
  is_trustee :: "nat \<Rightarrow> bool"

definition threads_init :: threads where
  "threads_init =
     \<lparr> thread_id_counter = 1, thread_ids = (\<lambda>_. None), is_trustee = (\<lambda>_. False) \<rparr>"

text \<open>The first access of a thread initialises its id by a wrapping fetch-and-add.\<close>

definition get_thread_id :: "nat \<Rightarrow> threads \<Rightarrow> usize \<times> threads" where
  "get_thread_id th s =
     (case thread_ids s th of
        Some i \<Rightarrow> (i, s)
      | None \<Rightarrow>
          (let i = thread_id_counter s
           in (i, s\<lparr> thread_id_counter := i + 1, thread_ids := (thread_ids s)(th \<mapsto> i) \<rparr>)))"

section \<open>Trustee threads\<close>

definition is_trustee_thread :: "nat \<Rightarrow> threads \<Rightarrow> bool" where
  "is_trustee_thread th s = is_trustee s th"

definition guard_enter :: "nat \<Rightarrow> threads \<Rightarrow> threads" where
  "guard_enter th s = s\<lparr> is_trustee := (is_trustee s)(th := True) \<rparr>"

definition guard_drop :: "nat \<Rightarrow> threads \<Rightarrow> threads" where
  "guard_drop th s = s\<lparr> is_trustee := (is_trustee s)(th := False) \<rparr>"

text \<open>Everything a thread can do to this state, and runs of it.\<close>

datatype thread_op = AskId nat | EnterGuard nat | DropGuard nat

fun do_thread_op :: "thread_op \<Rightarrow> threads \<Rightarrow> threads" where
  "do_thread_op (AskId th) s = snd (get_thread_id th s)"
| "do_thread_op (EnterGuard th) s = guard_enter th s"
| "do_thread_op (DropGuard th) s = guard_drop th s"

definition run_threads :: "thread_op list \<Rightarrow> threads" where
  "run_threads ops = fold do_thread_op ops threads_init"

text \<open>The ids given out are the numbers from 1 below the counter, each to one thread, until
  the counter wraps.\<close>

definition threads_inv :: "nat \<Rightarrow> threads \<Rightarrow> bool" where
  "threads_inv k s \<longleftrightarrow>
     k < 2 ^ 64 - 1 \<and> unat (thread_id_counter s) = k + 1 \<and>
     (\<forall>th i. thread_ids s th = Some i \<longrightarrow> 1 \<le> unat i \<and> unat i \<le> k) \<and>
     (\<forall>th th' i. thread_ids s th = Some i \<longrightarrow> thread_ids s th' = Some i \<longrightarrow> th = th')"

fun asks :: "thread_op \<Rightarrow> nat" where
  "asks (AskId th) = 1"
| "asks _ = 0"

definition n_asks :: "thread_op list \<Rightarrow> nat" where
  "n_asks ops = sum_list (map asks ops)"

lemma threads_inv_step:
  assumes inv: "threads_inv k s" and k: "k + asks t < 2 ^ 64 - 1"
  shows "\<exists>k'. k' \<le> k + asks t \<and> threads_inv k' (do_thread_op t s)"
proof (cases t)
  case (AskId th)
  show ?thesis
  proof (cases "thread_ids s th")
    case (Some i)
    then have "do_thread_op t s = s" using AskId by (simp add: get_thread_id_def)
    then show ?thesis using inv AskId by (intro exI[of _ k]) simp
  next
    case None
    let ?c = "thread_id_counter s"
    have c: "unat ?c = k + 1" and bounds: "\<And>th i. thread_ids s th = Some i \<Longrightarrow> 1 \<le> unat i \<and> unat i \<le> k"
      and inj: "\<And>th th' i. thread_ids s th = Some i \<Longrightarrow> thread_ids s th' = Some i \<Longrightarrow> th = th'"
      using inv unfolding threads_inv_def by blast+
    have t: "do_thread_op t s = s\<lparr> thread_id_counter := ?c + 1, thread_ids := (thread_ids s)(th \<mapsto> ?c) \<rparr>"
      using AskId None by (simp add: get_thread_id_def Let_def)
    have fresh: "thread_ids s th' \<noteq> Some ?c" for th'
      using bounds[of th' ?c] c by auto
    have n: "unat (?c + 1) = k + 1 + 1" using c k AskId by (simp add: unat_word_ariths)
    have b': "1 \<le> unat i \<and> unat i \<le> k + 1"
      if "((thread_ids s)(th \<mapsto> ?c)) th' = Some i" for th' i
      using that bounds[of th' i] c by (cases "th' = th") auto
    have inj': "th1 = th2"
      if "((thread_ids s)(th \<mapsto> ?c)) th1 = Some i" "((thread_ids s)(th \<mapsto> ?c)) th2 = Some i" for th1 th2 i
      using that fresh inj[of th1 i th2] by (cases "th1 = th"; cases "th2 = th") auto
    have sel: "thread_id_counter (do_thread_op t s) = ?c + 1"
        "thread_ids (do_thread_op t s) = (thread_ids s)(th \<mapsto> ?c)"
      unfolding t by simp_all
    have "k + 1 < 2 ^ 64 - 1" using k AskId by simp
    then have "threads_inv (k + 1) (do_thread_op t s)"
      unfolding threads_inv_def sel using n b' inj' by blast
    then show ?thesis using AskId by (intro exI[of _ "k + 1"]) simp
  qed
next
  case (EnterGuard th)
  then show ?thesis using inv by (intro exI[of _ k]) (simp add: threads_inv_def guard_enter_def)
next
  case (DropGuard th)
  then show ?thesis using inv by (intro exI[of _ k]) (simp add: threads_inv_def guard_drop_def)
qed

lemma threads_inv_fold:
  "threads_inv k s \<Longrightarrow> k + n_asks ops < 2 ^ 64 - 1 \<Longrightarrow>
   \<exists>k'. k' \<le> k + n_asks ops \<and> threads_inv k' (fold do_thread_op ops s)"
proof (induction ops arbitrary: k s)
  case Nil
  then show ?case by (auto simp: n_asks_def)
next
  case (Cons t ops)
  have b: "k + asks t + n_asks ops < 2 ^ 64 - 1" using Cons.prems(2) by (simp add: n_asks_def)
  then have "k + asks t < 2 ^ 64 - 1" by linarith
  then obtain k1 where k1: "k1 \<le> k + asks t" "threads_inv k1 (do_thread_op t s)"
    using threads_inv_step[OF Cons.prems(1)] by blast
  from k1(1) b have "k1 + n_asks ops < 2 ^ 64 - 1" by linarith
  from Cons.IH[OF k1(2) this] obtain k2 where k2: "k2 \<le> k1 + n_asks ops"
      "threads_inv k2 (fold do_thread_op ops (do_thread_op t s))" by blast
  have "k2 \<le> k + n_asks (t # ops)" using k1(1) k2(1) by (simp add: n_asks_def)
  then show ?case using k2(2) by auto
qed

lemma threads_inv_init: "threads_inv 0 threads_init"
  by (simp add: threads_inv_def threads_init_def)

lemma threads_inv_run:
  assumes "n_asks ops < 2 ^ 64 - 1"
  shows "\<exists>k. k \<le> n_asks ops \<and> threads_inv k (run_threads ops)"
  using threads_inv_fold[OF threads_inv_init, of ops] assms by (simp add: run_threads_def)

section \<open>Properties\<close>

text \<open>C37. Thread ids identify threads: in every run with fewer first accesses than the counter
  has values, no two threads have the same id, and no id is 0 - the value a runtime publishes
  before its worker has started, which the shortcut test compares against.\<close>

theorem thread_ids_identify:
  assumes "n_asks ops < 2 ^ 64 - 1"
  shows "(thread_ids (run_threads ops) th = Some i \<longrightarrow> i \<noteq> 0) \<and>
     (thread_ids (run_threads ops) th = Some i \<and> thread_ids (run_threads ops) th' = Some i \<longrightarrow> th = th')"
proof -
  obtain k where k: "threads_inv k (run_threads ops)" using threads_inv_run[OF assms] by blast
  have "thread_ids (run_threads ops) th \<noteq> Some 0"
  proof
    assume "thread_ids (run_threads ops) th = Some 0"
    with k have "1 \<le> unat (0 :: usize)" unfolding threads_inv_def by blast
    then show False by simp
  qed
  with k show ?thesis unfolding threads_inv_def by blast
qed

theorem thread_ids_identify_witness:
  "thread_ids (run_threads [AskId 4, EnterGuard 9, AskId 7]) 7 = Some 2 \<and>
   thread_ids (run_threads [AskId 4, EnterGuard 9, AskId 7]) 4 \<noteq> Some 2"
proof -
  let ?ops = "[AskId 4, EnterGuard 9, AskId 7]"
  have "n_asks ?ops < 2 ^ 64 - 1" by (simp add: n_asks_def)
  from thread_ids_identify[OF this, of 7 2 4] show ?thesis
    by (auto simp: run_threads_def threads_init_def get_thread_id_def guard_enter_def Let_def)
qed

text \<open>The id of a thread never changes once it is known, and asking for it marks no thread
  as a trustee's: the shortcut test of a handle and its refusal test are stable while the
  thread runs its own code.\<close>

lemma thread_identity_stable:
  "fst (get_thread_id th (snd (get_thread_id th s))) = fst (get_thread_id th s) \<and>
   snd (get_thread_id th (snd (get_thread_id th s))) = snd (get_thread_id th s) \<and>
   is_trustee_thread th' (snd (get_thread_id th s)) = is_trustee_thread th' s \<and>
   is_trustee (guard_enter th s) = (is_trustee s)(th := True) \<and>
   is_trustee (guard_drop th (guard_enter th s)) = (is_trustee s)(th := False)"
  by (auto simp: get_thread_id_def is_trustee_thread_def guard_enter_def guard_drop_def Let_def
      split: option.splits)

end
