(* ===== verification/Spec2Isabelle.thy ===== *)
theory Spec2Isabelle
  imports Handle_Sessions Shutdown Ownership Launch_Overlap Locality Counter_System Bank_System Formatting Encoding_Examples Sync_Latch Affinity Thread_Context
begin

text \<open>
  A verification library for trust-tee (src/src), a Rust library in which a value, the property,
  is entrusted to one thread, its trustee, and other threads delegate closures to that thread
  instead of locking.

  \<^bold>\<open>The program and its model.\<close>

  A client that holds a remote handle shares a pair of byte slots with the trustee's worker. To
  apply a closure it encodes the closure's captures and the serialised arguments into the request
  slot behind a record header, stores a flag word whose ready bit differs from the response's,
  and spins until the worker has stored a response word with the same bit; then it reads the
  result from the response slot. The worker takes up registered clients from a lock-free queue,
  scans them round robin, executes pending records on the property and answers; launched closures
  run in fibers that answer for themselves.

  \<^item> Prelude: machine words, byte memory with bounds, outcomes (a value, a panic, undefined
    behaviour: out of bounds, misaligned), and the locale \<open>layout\<close> of types with a fixed byte representation, interpreted
    on the integer types and the record header.
  \<^item> Slots (runtime/slots.rs): header words, \<open>next_boundary_offset\<close>, the \<open>repr(C)\<close> layouts, record
    headers as their 40 bytes, the slots' default states.
  \<^item> Serialization (runtime/serialization.rs): the bump allocator \<open>SlotWriter\<close>, \<open>encode_closure\<close>,
    \<open>decode_and_call\<close> and the vtable shims, over the bytes of a slot; the captures are written and read
    through pointers that must be aligned for their type. Closures are entries of a
    table of code addresses that is a parameter.
  \<^item> Seg\_Queue: the locale of a FIFO queue, which states the documented behaviour of the
    third-party lock-free queue, and its interpretation on lists and on a fiber's inbox.
  \<^item> Runtime\_Worker (runtime/runtime.rs): the worker's state as a record and one definition per part
    of its loop - draining registrations, the pending-launch gate, the visit of a client, each
    kind of record, fibers and their jobs, the answer, the scan and the round. A worker that
    returns, panics or meets undefined behaviour is a constructor of the round's result.
    Runtime\_Facts, Runtime\_Loop and Runtime\_Rounds hold its lemmas and properties.
  \<^item> Remote\_Client (trust/remote.rs, and the construction and drop of the runtime): the handle and
    each operation as the client's side of the exchange, with the system's rounds run while it
    waits. Remote\_Request, Remote\_Rounds, Remote\_Trust, Remote\_Guards and Remote\_Launch hold its
    lemmas and properties; the locales \<open>worker_queue\<close> and \<open>launch_queues\<close> are the contracts of the
    queues they rely on.
  \<^item> Fiber\_Pool, Runtime\_Drop and Shutdown (runtime/runtime.rs): the worker and its fibers as a step
    relation with the invariant of pool, inboxes and references to the property, and how often its value
    is destroyed; the terminate
    record of a dropped runtime; the terminator, the joins and the exit that follow it.
  \<^item> Ownership (runtime/runtime.rs, trust/remote.rs): runtimes with and without the join handle, the
    reference-counted owner that handles share, clones and drops.
  \<^item> Protocol: the same exchange as a step relation in which any number of clients and the worker
    interleave between their accesses to the slots; operations and results are opaque there.
  \<^item> Client\_Ops: the operations a client can have under way - \<open>apply\<close>, \<open>apply_with\<close>, \<open>with\<close>,
    \<open>apply_batch_mut\<close>, \<open>launch\<close> - as one type, each with what it writes, reads and does to the property,
    and the proof that an operation of a handle is these parts with the wait in between.
    Handle\_Sessions: sequences of them on one handle, on its wrapper, on a local trust and on the
    trustee's own thread.
  \<^item> Concurrent, Concurrent\_Sim, Concurrent\_Runs and Concurrent\_Progress: any number of clients, the
    worker and its fibers interleaved on the bytes of the slots, as a step relation over the definitions
    of the client and of the worker. A fiber enters a launched closure and leaves it in separate steps;
    the state records the fibers in between (\<open>inside\<close>) and whether two closures have ever run on the
    property at once (\<open>overlapped\<close>), after which the property may take any value. The locale
    \<open>conc_system\<close> has the simulation of every step by the protocol; then runs, the rounds in which every
    request is served, and (Launch\_Overlap) what the worker does while a launched closure is under way.
    Locality: a visit and a fiber's turn touch the slots of one channel only. Client\_Logs: programs whose
    threads are its clients, and the order in which a run has executed their operations.
  \<^item> Local\_Trust (trust/local.rs, single\_thread/): the trust without a thread, the single-threaded
    latch with its guards as a step relation, the latched operations.
  \<^item> Trust\_Interface (trust/common.rs): the wrapper and its constructors; the trait is the locale
    \<open>trust_like\<close>, over operations of any kind, interpreted on the local trust, on its wrapper and on
    the remote handle.
  \<^item> Sync\_Latch (util/latch.rs), Wait\_Budget (util/wait.rs), Thread\_Context (util/thread\_id.rs, the
    trustee mark of util/fiber.rs) and Affinity (util/affinity.rs): the utilities.
  \<^item> Text\_Values and Formatting: how numbers and strings are printed, and \<open>Display\<close> and \<open>Debug\<close> of
    the trusts (trust/local.rs, remote.rs, common.rs) and of the latch.
  \<^item> Examples, Remote\_Examples and Encoding\_Examples (src/examples): the sequential example programs
    on the models above. Counter\_System (remote\_simple.rs) and Bank with Bank\_System
    (remote\_complex.rs): the programs with threads as clients of the concurrent system.

  \<^bold>\<open>What is shown.\<close>

  \<^item> Delegation is correct: \<open>apply\<close>, \<open>apply_with\<close>, \<open>apply_batch_mut\<close> and \<open>launch\<close> through the bytes of
    the channel and the worker's rounds return what the closure returns on the property, once,
    and leave the system in the state that the next operation needs; a sequence of operations of any
    kind on a remote handle gives what it gives on a local trust, and so does one on the trustee's own
    thread, where they run in place.
  \<^item> Delegation is linearizable under every interleaving, on the bytes, as long as no closure runs while a
    launched one is in the middle of its run: whatever operations the clients
    call, there is an order of the closures executed that explains the property and gives each client
    its own results in order, and it only ever grows; and until then no step panics, leaves memory or
    accesses a misaligned address. Clients that do not launch are always in this case. Clients that do
    can leave it: nothing keeps the worker from running the next client's closure beside a launched one.
    The slots, the registrations and the pool keep their shape in any case. When the clients only wait,
    the worker serves every posted request within a bound. Fairness does not hold: a client between two
    busy ones can wait for ever.
  \<^item> Life and death of the worker: the worker's side drops the property once, after the last job that
    uses it, and \<open>into_inner\<close> makes that a second destruction; a terminate record is reached, its shutdown ends with every fiber joined, and it is posted when
    the last handle is dropped; fibers of a worker that ended otherwise are abandoned, and the handle
    returned beside a runtime does not keep it alive.
  \<^item> The encoding is sound: what is written is disjoint, in bounds and aligned relative to the
    slot; encoding succeeds exactly when the parts fit and the slot's address is aligned for the
    captures, which the channels guarantee up to an alignment of 8; decoding runs the closure on its
    captures.
  \<^item> The loop is well behaved: the start index stays in range, a served client is not served again
    in the same scan, the search for a fiber ends with one delivery; a batch is as many applications.
  \<^item> The examples do what they assert: the shared counter and the bank, thread by thread over the
    channels under every interleaving, the recursive call through the shortcut. A trust prints what its
    value prints, wherever it lives.
  \<^item> The failure paths are what they are: refusals on trustee threads, overflow of the slot, panics
    of closures with and without an answer, results that do not fit, the double drop of \<open>into_inner\<close>.

  \<^bold>\<open>Bounds.\<close>

  The wait for a response runs system rounds on fuel and gives \<open>NoReply\<close> when it runs out. A round
  takes up at most 256 registrations, and only every 16th round does so once there is a client, so the lemmas of
  Remote\_Rounds measure how many rounds separate a handle from its first visit (\<open>distance\<close>: 16 for
  each registration queued before it and at most 16 more); the theorems about delegation assume
  only that the fuel is at least that number and two. Under concurrency every posted request is served -
  answered, or handed to a fiber if it is a launch - within 17 rounds of the worker for every channel
  opened and 16 more; how long a launched closure takes has no bound. Integers keep their width where the code
  computes with it: flag words, header fields, budgets, repeat counts, CPU masks.

  \<^bold>\<open>What is not modelled.\<close>

  The coroutine library and the lock-free queue are third-party code: queues are the locale above. In the
  sequential theories a fiber runs its job between two rounds; in the concurrent ones the closure may
  stay under way for any number of steps, and of the undefined behaviour of closures that overlap only
  the loss of the property's value is modelled. Memory orderings: the model is sequentially
  consistent, which the acquire loads and release stores of the flag words are there to justify. The
  heap: a string in a slot is its representation, which is an argument. The stand-in for coroutines
  under Miri, the timing loops, the environment variables and the printing of the examples, the
  benches and the tests. The floating-point numbers of the bank are an argument that is assumed exact
  on integers of 53 bits.
\<close>

section \<open>Properties\<close>

lemma session_repeat:
  assumes "spec_session call_fn (replicate k f) t0 = Some (rs, t)"
  shows "repeat_inline (call_fn f) k t0 = (t, Some ())" "rs = replicate k ()"
  using assms
  by (induction k arbitrary: t0 rs) (auto split: prod.splits option.splits)

text \<open>C4. A batch is its applications: \<open>apply_batch_mut\<close> with count \<open>n\<close>, on a remote handle - one record
  with a repeat count, executed in a loop by the worker - and on a local trust, leaves the value
  that \<open>n\<close> calls of \<open>apply\<close> with the same function leave.\<close>

theorem batch_equals_applies:
  assumes "seg_queue items (reg_push X) (reg_pop X)" "\<not> caller_trustee th" "handle_usable items fuel th rm s"
    and "fits (fv f) 0" "vt_mut X (fn_vtable (fv f)) = Some (VTABLE (fn_size (fv f)) (fn_align (fv f)) (batch_adapter (body f)))"
    and "spec_session call_fn (replicate (unat n) f) (prop_cell s) = Some (rs, t)"
  shows "\<exists>s'. remote_apply_batch_mut X fuel th rm f n s = (Returned (), s') \<and> prop_cell s' = t \<and>
     handle_usable items fuel th rm s' \<and>
     local_apply_batch_mut (call_fn f) n (local_entrust (prop_cell s)) = (Returned (), local_entrust t) \<and>
     run_session (\<lambda>f. local_apply (call_fn f)) (replicate (unat n) f) (local_entrust (prop_cell s)) =
       (replicate (unat n) (Returned ()), local_entrust t)"
proof -
  have u: "calm items s" "r_chan rm \<in> set (registered items s)" "\<not> on_owning_trustee th s" "distance items s + 2 \<le> fuel"
    using assms(3) distance_registered[of items s] by (auto simp: handle_usable_def)
  note rp = session_repeat[OF assms(6)]
  obtain s' where s': "remote_apply_batch_mut X fuel th rm f n s = (Returned (), s')" "prop_cell s' = t"
      "calm items s'" "op_frame items (r_chan rm) s s'"
    using remote_batch_correct[OF assms(1) u(1-3) assms(2,4,5) rp(1) u(4)] by auto
  have "registered items s' = registered items s" using s'(4) by (simp add: op_frame_def)
  then have hu: "handle_usable items fuel th rm s'"
    using assms(3) s'(3) op_frame_owner[OF s'(4)] by (simp add: handle_usable_def)
  obtain l where "run_session (\<lambda>f. local_apply (call_fn f)) (replicate (unat n) f) (local_entrust (prop_cell s)) =
      (map Returned rs, l)" "inner l = t"
    using local_trust.session[of "replicate (unat n) f" "local_entrust (prop_cell s)" rs t] assms(6)
    by (auto simp: local_entrust_def list_all2_conv_all_nth session_length)
  then show ?thesis
    using s'(1,2) hu rp by (cases l) (auto simp: local_apply_batch_mut_def local_call_def local_entrust_def)
qed

theorem batch_equals_applies_witness:
  "\<exists>s'. remote_apply_batch_mut demo_world 40 client_thread (fst demo) inc_fn 2 (snd demo) = (Returned (), s') \<and>
     prop_cell s' = 7"
proof -
  have n: "unat (2 :: u8) = Suc (Suc 0)" by simp
  have sp: "spec_session call_fn (replicate (unat (2 :: u8)) inc_fn) (prop_cell (snd demo)) = Some ([(), ()], 7)"
    unfolding n by (simp add: call_fn_def inc_fn_def inc_body_def)
  have vt: "vt_mut demo_world (fn_vtable (fv inc_fn)) = Some (VTABLE (fn_size (fv inc_fn)) (fn_align (fv inc_fn)) (batch_adapter (body inc_fn)))"
    by (simp add: demo_world_def inc_fn_def)
  from batch_equals_applies[OF demo_queue demo_not_owner(2) demo_usable demo_fits(3) vt sp] show ?thesis by blast
qed

text \<open>Handles come ready to use: entrusting a value gives an owning handle on a calm system
  that holds it, and cloning a handle of a calm system gives one more registered handle with a
  channel of its own, shares the ownership, and disturbs neither the property nor the handles
  there are.\<close>

lemma handles_ready:
  assumes "seg_queue items (reg_push X) (reg_pop X)" "items q = []"
    and "remote_entrust X value tid b q p = (rm, s)"
    and "calm items s0" "remote_clone X b' rm0 s0 = (rm', s')"
  shows "calm items s \<and> registered items s = [r_chan rm] \<and> prop_cell s = value \<and> r_owner rm \<and>
     calm items s' \<and> registered items s' = registered items s0 @ [r_chan rm'] \<and>
     r_chan rm' \<notin> set (registered items s0) \<and> prop_cell s' = prop_cell s0 \<and> r_owner rm' = r_owner rm0"
proof (intro conjI)
  let ?w = "worker_start value tid q p"
  obtain h where h: "entrust_handle X b True ?w = (h, s)" "rm = \<lparr> r_chan = r_chan h, r_owner = True \<rparr>"
    using assms(3) by (auto simp: remote_entrust_def spawn_with_pin_def split: prod.splits)
  have w: "calm items ?w" by (rule worker_start_calm) (rule assms(2))
  show "calm items s" by (rule entrust_handle_calm[OF assms(1) w h(1)])
  show "registered items s = [r_chan rm]" "r_owner rm"
    using entrust_handle_registered[OF assms(1) h(1)] h(2) assms(2) by (simp_all add: registered_def worker_start_def)
  show "prop_cell s = value" using h(1) by (auto simp: entrust_handle_def new_chan_def register_def worker_start_def)
  have c: "entrust_handle X b' (r_owner rm0) s0 = (rm', s')" using assms(5) by (simp add: remote_clone_def)
  note r = entrust_handle_registered[OF assms(1) c]
  show "calm items s'" by (rule entrust_handle_calm[OF assms(1,4) c])
  show "registered items s' = registered items s0 @ [r_chan rm']" "r_owner rm' = r_owner rm0" using r by simp_all
  show "r_chan rm' \<notin> set (registered items s0)" using r(2) assms(4) by (auto simp: calm_def resting_def)
  show "prop_cell s' = prop_cell s0" using c by (auto simp: entrust_handle_def new_chan_def register_def)
qed

end
